(* ===== verification/Prelude.thy ===== *)
theory Prelude
  imports Main "HOL-Library.Word" "HOL-Library.Multiset"
begin

text \<open>
  What every component shares: Go's \<open>error\<close> values and the three ways a Go call ends (a value, an
  error, a panic), machine integers, decimal printing as \<open>fmt\<close> and \<open>strconv\<close> do it, rows of a
  table looked up, updated and deleted by key, and a stable insertion sort for the \<open>ORDER BY\<close>
  clauses.  A Go \<open>string\<close> or \<open>[]byte\<close> is an Isabelle \<open>string\<close>: a list of 8-bit characters.
\<close>

section \<open>Collections\<close>

named_theorems frame
  \<comment> \<open>what an operation leaves unchanged\<close>
named_theorems schema
  \<comment> \<open>that an operation keeps the constraints of the tables\<close>

section \<open>Machine integers\<close>

text \<open>Go's \<open>int64\<close>, and its \<open>int\<close> and \<open>time.Duration\<close>, on a 64-bit platform.\<close>

type_synonym int64 = "64 word"

text \<open>A Postgres \<open>integer\<close> column holds 32 bits; pgx refuses to encode a Go \<open>int\<close> out of range.\<close>

definition fits_int4 :: "int \<Rightarrow> bool" where
  "fits_int4 n \<longleftrightarrow> - (2 ^ 31) \<le> n \<and> n < 2 ^ 31"

lemma sint_word_of_int_fits:
  assumes "- (2 ^ 63) \<le> n" and "n < 2 ^ 63"
  shows "sint (word_of_int n :: int64) = n"
  using assms by (simp add: sint_sbintrunc' signed_take_bit_int_eq_self)

section \<open>Errors and outcomes\<close>

text \<open>
  \<open>Sentinel\<close> is a package-level \<open>errors.New\<close> value, \<open>Wrapf p e s\<close> is \<open>fmt.Errorf\<close> with one
  \<open>%w\<close> verb between the texts \<open>p\<close> and \<open>s\<close>, \<open>Errorf\<close> a \<open>fmt.Errorf\<close> without one,
  \<open>Joined\<close> what \<open>errors.Join\<close> makes of the errors that are not nil, and \<open>Driver\<close> an error that
  pgx, Postgres or another library raised.
\<close>

datatype error =
  Sentinel string | Wrapf string error string | Errorf string | Joined "error list" | Driver string

text \<open>The text \<open>err.Error()\<close> returns.\<close>

fun join_lines :: "string list \<Rightarrow> string" where
  "join_lines [] = []"
| "join_lines [t] = t"
| "join_lines (t # ts) = t @ CHR 0x0A # join_lines ts"

fun error_text :: "error \<Rightarrow> string" where
  "error_text (Sentinel s) = s"
| "error_text (Wrapf p e s) = p @ error_text e @ s"
| "error_text (Errorf s) = s"
| "error_text (Joined es) = join_lines (map error_text es)"
| "error_text (Driver s) = s"

text \<open>\<open>errors.Is\<close>: some error of the tree of wrapped and joined errors is the target.\<close>

fun errors_is :: "error \<Rightarrow> error \<Rightarrow> bool" where
  "errors_is (Wrapf p e s) t \<longleftrightarrow> Wrapf p e s = t \<or> errors_is e t"
| "errors_is (Joined es) t \<longleftrightarrow> Joined es = t \<or> (\<exists>e \<in> set es. errors_is e t)"
| "errors_is (Sentinel s) t \<longleftrightarrow> Sentinel s = t"
| "errors_is (Errorf s) t \<longleftrightarrow> Errorf s = t"
| "errors_is (Driver s) t \<longleftrightarrow> Driver s = t"

lemma errors_is_refl [simp]: "errors_is e e"
  by (cases e) auto

text \<open>\<open>errors.Join\<close>: nil when every error is.\<close>

definition errors_Join :: "error option list \<Rightarrow> error option" where
  "errors_Join es = (if \<forall>e \<in> set es. e = None then None else Some (Joined [e. Some e \<leftarrow> es]))"

datatype 'a go = Ok 'a | Err error | Panic string

fun is_ok :: "'a go \<Rightarrow> bool" where
  "is_ok (Ok _) = True"
| "is_ok _ = False"

lemma is_ok_iff: "is_ok r \<longleftrightarrow> (\<exists>a. r = Ok a)"
  by (cases r) auto

section \<open>Decimal printing\<close>

definition digit_char :: "nat \<Rightarrow> char" where
  "digit_char d = char_of (48 + d)"

function show_digits :: "int \<Rightarrow> string" where
  "show_digits n =
    (if n < 10 then [digit_char (nat n)]
     else show_digits (n div 10) @ [digit_char (nat (n mod 10))])"
  by pat_completeness auto
termination
  by (relation "measure nat") auto

declare show_digits.simps [simp del]

definition show_int :: "int \<Rightarrow> string" where
  "show_int i = (if i < 0 then ''-'' @ show_digits (- i) else show_digits i)"

definition show_nat :: "nat \<Rightarrow> string" where
  "show_nat n = show_digits (int n)"

lemma show_digits_nonempty [simp]: "show_digits n \<noteq> []"
  by (subst show_digits.simps) simp

section \<open>Rows of a table\<close>

definition find_row :: "('r \<Rightarrow> 'k) \<Rightarrow> 'k \<Rightarrow> 'r list \<Rightarrow> 'r option" where
  "find_row key k rows = find (\<lambda>r. key r = k) rows"

definition update_rows :: "('r \<Rightarrow> bool) \<Rightarrow> ('r \<Rightarrow> 'r) \<Rightarrow> 'r list \<Rightarrow> 'r list" where
  "update_rows P f rows = map (\<lambda>r. if P r then f r else r) rows"

definition delete_rows :: "('r \<Rightarrow> bool) \<Rightarrow> 'r list \<Rightarrow> 'r list" where
  "delete_rows P rows = filter (\<lambda>r. \<not> P r) rows"

lemma update_rows_Cons: "update_rows P f (r # rs) = (if P r then f r else r) # update_rows P f rs"
  by (simp add: update_rows_def)

lemma find_row_simps [simp]:
  "find_row key k [] = None"
  "find_row key k (r # rs) = (if key r = k then Some r else find_row key k rs)"
  by (simp_all add: find_row_def)

lemma find_row_None_iff: "find_row key k rows = None \<longleftrightarrow> k \<notin> key ` set rows"
  by (induction rows) auto

lemma find_row_SomeD: "find_row key k rows = Some r \<Longrightarrow> r \<in> set rows \<and> key r = k"
  by (induction rows) (auto split: if_splits)

lemma find_row_eq_Some:
  "distinct (map key rows) \<Longrightarrow> find_row key k rows = Some r \<longleftrightarrow> r \<in> set rows \<and> key r = k"
  by (induction rows) (auto simp: image_iff)

lemma find_row_append:
  "find_row key k (xs @ ys) =
     (case find_row key k xs of None \<Rightarrow> find_row key k ys | Some r \<Rightarrow> Some r)"
  by (induction xs) auto

lemma find_row_update:
  assumes "\<And>r. key (f r) = key r"
  shows "find_row key k (update_rows P f rows) =
     map_option (\<lambda>r. if P r then f r else r) (find_row key k rows)"
  using assms by (induction rows) (auto simp: update_rows_def)

lemma find_row_delete_key:
  "distinct (map key rows) \<Longrightarrow> find_row key k (delete_rows P rows) =
     (case find_row key k rows of None \<Rightarrow> None | Some r \<Rightarrow> if P r then None else Some r)"
proof (induction rows)
  case (Cons r rows)
  show ?case
  proof (cases "key r = k")
    case True
    with Cons.prems have "find_row key k rows = None"
      by (auto simp: find_row_None_iff)
    moreover from this Cons have "find_row key k (delete_rows P rows) = None"
      by simp
    ultimately show ?thesis
      using True by (auto simp: delete_rows_def)
  next
    case False
    with Cons show ?thesis by (auto simp: delete_rows_def)
  qed
qed (simp add: delete_rows_def)

lemma map_key_update_rows:
  "(\<And>r. key (f r) = key r) \<Longrightarrow> map key (update_rows P f rows) = map key rows"
  by (induction rows) (auto simp: update_rows_def)

lemma distinct_map_delete_rows: "distinct (map key rows) \<Longrightarrow> distinct (map key (delete_rows P rows))"
  by (simp add: delete_rows_def distinct_map_filter)

lemma set_update_rows: "set (update_rows P f rows) = (\<lambda>r. if P r then f r else r) ` set rows"
  by (simp add: update_rows_def)

lemma set_delete_rows: "set (delete_rows P rows) = {r \<in> set rows. \<not> P r}"
  by (auto simp: delete_rows_def)

section \<open>ORDER BY\<close>

text \<open>A stable insertion sort: rows that compare equal stay in the table's order.\<close>

fun insert_by :: "('a \<Rightarrow> 'a \<Rightarrow> bool) \<Rightarrow> 'a \<Rightarrow> 'a list \<Rightarrow> 'a list" where
  "insert_by le x [] = [x]"
| "insert_by le x (y # ys) = (if le x y then x # y # ys else y # insert_by le x ys)"

definition sort_by :: "('a \<Rightarrow> 'a \<Rightarrow> bool) \<Rightarrow> 'a list \<Rightarrow> 'a list" where
  "sort_by le xs = foldr (insert_by le) xs []"

lemma mset_insert_by [simp]: "mset (insert_by le x xs) = add_mset x (mset xs)"
  by (induction xs) auto

lemma sort_by_simps [simp]:
  "sort_by le [] = []"
  "sort_by le (x # xs) = insert_by le x (sort_by le xs)"
  by (simp_all add: sort_by_def)

lemma mset_sort_by [simp]: "mset (sort_by le xs) = mset xs"
  by (induction xs) auto

lemma set_sort_by [simp]: "set (sort_by le xs) = set xs"
  by (metis mset_sort_by set_mset_mset)

lemma length_sort_by [simp]: "length (sort_by le xs) = length xs"
  by (metis mset_sort_by size_mset)

lemma distinct_map_sort_by: "distinct (map f (sort_by le xs)) \<longleftrightarrow> distinct (map f xs)"
  by (metis mset_map mset_sort_by mset_eq_imp_distinct_iff)

lemma sorted_insert_by:
  assumes "\<And>a b. le a b \<or> le b a" and "\<And>a b c. le a b \<Longrightarrow> le b c \<Longrightarrow> le a c"
  shows "sorted_wrt le xs \<Longrightarrow> sorted_wrt le (insert_by le x xs)"
proof (induction xs)
  case (Cons y ys)
  have "set (insert_by le x ys) = insert x (set ys)"
    by (metis mset_insert_by set_mset_add_mset_insert set_mset_mset)
  with Cons assms show ?case by auto
qed simp

lemma sorted_sort_by:
  assumes "\<And>a b. le a b \<or> le b a" and "\<And>a b c. le a b \<Longrightarrow> le b c \<Longrightarrow> le a c"
  shows "sorted_wrt le (sort_by le xs)"
proof (induction xs)
  case (Cons x xs)
  with sorted_insert_by [of le, OF assms] show ?case by simp
qed simp

lemma map_insert_by:
  "(\<And>a b. le' (f a) (f b) = le a b) \<Longrightarrow> map f (insert_by le x xs) = insert_by le' (f x) (map f xs)"
  by (induction xs) auto

lemma map_sort_by:
  "(\<And>a b. le' (f a) (f b) = le a b) \<Longrightarrow> map f (sort_by le xs) = sort_by le' (map f xs)"
  by (induction xs) (auto simp: map_insert_by [of le' f le])

lemma distinct_count_one: "distinct xs \<Longrightarrow> count_list xs i = of_bool (i \<in> set xs)"
  by (induction xs) auto

end
