(* ===== verification/Json.thy ===== *)
theory Json
  imports Prelude
begin

text \<open>
  What the service uses of Go's \<open>encoding/json\<close>: syntax trees, the compact encoder behind
  \<open>json.Marshal\<close> (HTML escaping on, object members in the order the value has them), and the
  decoder's grammar with its nesting limit, string unquoting and UTF-8 repair.  Strings are bytes.
  A number keeps its literal text: how a \<open>float64\<close> is read and printed is a parameter where it
  matters (the request hash).
\<close>

datatype json =
    JNull
  | JBool bool
  | JNum string
  | JStr string
  | JArr "json list"
  | JObj "(string \<times> json) list"

section \<open>Bytes\<close>

definition byte_val :: "char \<Rightarrow> nat" where
  "byte_val c = of_char c"

abbreviation (input) BACKSLASH :: char where "BACKSLASH \<equiv> CHR 0x5C"
abbreviation (input) QUOTE :: char where "QUOTE \<equiv> CHR 0x22"

definition byte_in :: "nat \<Rightarrow> nat \<Rightarrow> char \<Rightarrow> bool" where
  "byte_in lo hi c \<longleftrightarrow> lo \<le> byte_val c \<and> byte_val c \<le> hi"

text \<open>
  The length of the UTF-8 encoded rune a non-empty byte string starts with, 0 when the bytes are
  not valid UTF-8 (\<open>utf8.DecodeRune\<close> returning \<open>RuneError\<close> with width 1).
\<close>

definition utf8_len :: "string \<Rightarrow> nat" where
  "utf8_len s =
    (case s of
       [] \<Rightarrow> 0
     | c0 # cs \<Rightarrow>
        (let b = byte_val c0 in
         if b < 0x80 then 1
         else if 0xC2 \<le> b \<and> b \<le> 0xDF then
           (case cs of c1 # _ \<Rightarrow> if byte_in 0x80 0xBF c1 then 2 else 0 | _ \<Rightarrow> 0)
         else if 0xE0 \<le> b \<and> b \<le> 0xEF then
           (case cs of
              c1 # c2 # _ \<Rightarrow>
                if byte_in (if b = 0xE0 then 0xA0 else 0x80) (if b = 0xED then 0x9F else 0xBF) c1
                   \<and> byte_in 0x80 0xBF c2
                then 3 else 0
            | _ \<Rightarrow> 0)
         else if 0xF0 \<le> b \<and> b \<le> 0xF4 then
           (case cs of
              c1 # c2 # c3 # _ \<Rightarrow>
                if byte_in (if b = 0xF0 then 0x90 else 0x80) (if b = 0xF4 then 0x8F else 0xBF) c1
                   \<and> byte_in 0x80 0xBF c2 \<and> byte_in 0x80 0xBF c3
                then 4 else 0
            | _ \<Rightarrow> 0)
         else 0))"

text \<open>\<open>utf8.EncodeRune\<close>: surrogates and runes out of range become U+FFFD.\<close>

definition replacement :: string where
  "replacement = [CHR 0xEF, CHR 0xBF, CHR 0xBD]"

definition encode_rune :: "nat \<Rightarrow> string" where
  "encode_rune r =
    (if r < 0x80 then [char_of r]
     else if r < 0x800 then [char_of (0xC0 + r div 64), char_of (0x80 + r mod 64)]
     else if 0xD800 \<le> r \<and> r < 0xE000 \<or> 0x10FFFF < r then replacement
     else if r < 0x10000 then
       [char_of (0xE0 + r div 4096), char_of (0x80 + r div 64 mod 64), char_of (0x80 + r mod 64)]
     else
       [char_of (0xF0 + r div 262144), char_of (0x80 + r div 4096 mod 64),
        char_of (0x80 + r div 64 mod 64), char_of (0x80 + r mod 64)])"

definition hex_digit :: "nat \<Rightarrow> char" where
  "hex_digit n = (if n < 10 then char_of (48 + n) else char_of (87 + n))"

definition hex_val :: "char \<Rightarrow> nat option" where
  "hex_val c =
    (let b = byte_val c in
     if 48 \<le> b \<and> b \<le> 57 then Some (b - 48)
     else if 97 \<le> b \<and> b \<le> 102 then Some (b - 87)
     else if 65 \<le> b \<and> b \<le> 70 then Some (b - 55)
     else None)"

text \<open>\<open>hex.EncodeToString\<close>.\<close>

definition hex_encode :: "string \<Rightarrow> string" where
  "hex_encode bs = concat (map (\<lambda>c. [hex_digit (byte_val c div 16), hex_digit (byte_val c mod 16)]) bs)"

section \<open>Encoding\<close>

definition html_safe :: "char \<Rightarrow> bool" where
  "html_safe c \<longleftrightarrow> 0x20 \<le> byte_val c \<and> c \<notin> {QUOTE, BACKSLASH, CHR ''<'', CHR ''>'', CHR ''&''}"

definition escape_ascii :: "char \<Rightarrow> string" where
  "escape_ascii c =
    (if html_safe c then [c]
     else if c = BACKSLASH \<or> c = QUOTE then [BACKSLASH, c]
     else if c = CHR 0x08 then [BACKSLASH, CHR ''b'']
     else if c = CHR 0x0C then [BACKSLASH, CHR ''f'']
     else if c = CHR 0x0A then [BACKSLASH, CHR ''n'']
     else if c = CHR 0x0D then [BACKSLASH, CHR ''r'']
     else if c = CHR 0x09 then [BACKSLASH, CHR ''t'']
     else [BACKSLASH, CHR ''u'', CHR ''0'', CHR ''0'',
           hex_digit (byte_val c div 16), hex_digit (byte_val c mod 16)])"

text \<open>U+2028 and U+2029 are escaped too: JavaScript reads them as line ends.\<close>

definition line_separator :: "string \<Rightarrow> bool" where
  "line_separator s \<longleftrightarrow>
    take 3 s = [CHR 0xE2, CHR 0x80, CHR 0xA8] \<or> take 3 s = [CHR 0xE2, CHR 0x80, CHR 0xA9]"

fun encode_chars :: "string \<Rightarrow> string" where
  "encode_chars [] = []"
| "encode_chars (c # cs) =
    (if byte_val c < 0x80 then escape_ascii c @ encode_chars cs
     else (case utf8_len (c # cs) of
             0 \<Rightarrow> BACKSLASH # ''ufffd'' @ encode_chars cs
           | Suc n \<Rightarrow>
              (if line_separator (c # cs)
               then BACKSLASH # ''u202'' @ hex_digit (byte_val (cs ! 1) mod 16) # encode_chars (drop n cs)
               else c # take n cs @ encode_chars (drop n cs))))"

definition encode_string :: "string \<Rightarrow> string" where
  "encode_string s = QUOTE # encode_chars s @ [QUOTE]"

fun encode :: "json \<Rightarrow> string"
  and encode_elems :: "json list \<Rightarrow> string"
  and encode_members :: "(string \<times> json) list \<Rightarrow> string" where
  "encode JNull = ''null''"
| "encode (JBool b) = (if b then ''true'' else ''false'')"
| "encode (JNum n) = n"
| "encode (JStr s) = encode_string s"
| "encode (JArr vs) = ''['' @ encode_elems vs @ '']''"
| "encode (JObj ms) = ''{'' @ encode_members ms @ ''}''"
| "encode_elems [] = []"
| "encode_elems (v # vs) = encode v @ (if vs = [] then [] else '','' @ encode_elems vs)"
| "encode_members [] = []"
| "encode_members (m # ms) =
     encode_string (fst m) @ '':'' @ encode (snd m)
       @ (if ms = [] then [] else '','' @ encode_members ms)"

text \<open>
  A Go value handed to \<open>json.Marshal\<close>: \<open>nil\<close>, a value that marshals to a syntax tree, or one
  \<open>json.Marshal\<close> rejects (a channel, a function, a cycle, NaN) with an error text.
\<close>

datatype goval = VNil | VJson json | VBad string

fun json_Marshal :: "goval \<Rightarrow> string go" where
  "json_Marshal VNil = Ok ''null''"
| "json_Marshal (VJson v) = Ok (encode v)"
| "json_Marshal (VBad msg) = Err (Errorf msg)"

section \<open>Decoding\<close>

definition is_ws :: "char \<Rightarrow> bool" where
  "is_ws c \<longleftrightarrow> c \<in> {CHR '' '', CHR 0x09, CHR 0x0A, CHR 0x0D}"

definition skip_ws :: "string \<Rightarrow> string" where
  "skip_ws s = dropWhile is_ws s"

definition is_digit :: "char \<Rightarrow> bool" where
  "is_digit c \<longleftrightarrow> byte_in 48 57 c"

text \<open>Four hexadecimal digits (\<open>getu4\<close> after the backslash and the \<open>u\<close>).\<close>

definition hex4 :: "string \<Rightarrow> (nat \<times> string) option" where
  "hex4 s =
    (case s of
       a # b # c # d # rest \<Rightarrow>
         (case (hex_val a, hex_val b, hex_val c, hex_val d) of
            (Some x, Some y, Some z, Some w) \<Rightarrow> Some (4096 * x + 256 * y + 16 * z + w, rest)
          | _ \<Rightarrow> None)
     | _ \<Rightarrow> None)"

lemma hex4_shorter: "hex4 s = Some (r, rest) \<Longrightarrow> length rest < length s"
  by (auto simp: hex4_def split: list.splits option.splits)

definition simple_escape :: "char \<Rightarrow> char option" where
  "simple_escape e =
    (if e = QUOTE \<or> e = BACKSLASH \<or> e = CHR ''/'' then Some e
     else if e = CHR ''b'' then Some (CHR 0x08)
     else if e = CHR ''f'' then Some (CHR 0x0C)
     else if e = CHR ''n'' then Some (CHR 0x0A)
     else if e = CHR ''r'' then Some (CHR 0x0D)
     else if e = CHR ''t'' then Some (CHR 0x09)
     else None)"

text \<open>
  The rune a \<open>\u\<close> escape stands for and the input after it.  A high surrogate takes the low
  surrogate escape that follows it along; any other surrogate is U+FFFD.
\<close>

definition unicode_escape :: "string \<Rightarrow> (nat \<times> string) option" where
  "unicode_escape s =
    (case hex4 s of
       None \<Rightarrow> None
     | Some (r, rest) \<Rightarrow>
        (if 0xD800 \<le> r \<and> r < 0xDC00 then
           (case rest of
              b # u # rest1 \<Rightarrow>
                (if b = BACKSLASH \<and> u = CHR ''u'' then
                   (case hex4 rest1 of
                      Some (r1, rest2) \<Rightarrow>
                        (if 0xDC00 \<le> r1 \<and> r1 < 0xE000
                         then Some ((r - 0xD800) * 1024 + (r1 - 0xDC00) + 0x10000, rest2)
                         else Some (0xFFFD, rest))
                    | None \<Rightarrow> Some (0xFFFD, rest))
                 else Some (0xFFFD, rest))
            | _ \<Rightarrow> Some (0xFFFD, rest))
         else Some (r, rest)))"

lemma unicode_escape_shorter: "unicode_escape s = Some (r, rest) \<Longrightarrow> length rest < length s"
  by (auto simp: unicode_escape_def dest!: hex4_shorter split: option.splits list.splits if_splits)

definition consf :: "string \<Rightarrow> (string \<times> string) option \<Rightarrow> (string \<times> string) option" where
  "consf p r = map_option (\<lambda>(s, rest). (p @ s, rest)) r"

text \<open>The contents of a string literal after its opening quote, decoded, and the input after it.\<close>

function parse_string :: "string \<Rightarrow> (string \<times> string) option" where
  "parse_string [] = None"
| "parse_string (c # cs) =
    (if c = QUOTE then Some ([], cs)
     else if byte_val c < 0x20 then None
     else if c = BACKSLASH then
       (case cs of
          [] \<Rightarrow> None
        | e # cs' \<Rightarrow>
           (if e = CHR ''u'' then
              (case unicode_escape cs' of
                 None \<Rightarrow> None
               | Some (r, rest) \<Rightarrow> consf (encode_rune r) (parse_string rest))
            else
              (case simple_escape e of
                 None \<Rightarrow> None
               | Some x \<Rightarrow> consf [x] (parse_string cs'))))
     else if byte_val c < 0x80 then consf [c] (parse_string cs)
     else (case utf8_len (c # cs) of
             0 \<Rightarrow> consf replacement (parse_string cs)
           | Suc n \<Rightarrow> consf (c # take n cs) (parse_string (drop n cs))))"
  by pat_completeness auto
termination
  by (relation "measure length") (auto dest: unicode_escape_shorter)

declare parse_string.simps [simp del]

text \<open>Number literals: sign, integer part without leading zeros, fraction, exponent.\<close>

definition scan_digits :: "string \<Rightarrow> (string \<times> string) option" where
  "scan_digits s =
    (let ds = takeWhile is_digit s in if ds = [] then None else Some (ds, dropWhile is_digit s))"

definition scan_int :: "string \<Rightarrow> (string \<times> string) option" where
  "scan_int s =
    (case s of c # cs \<Rightarrow> if c = CHR ''0'' then Some (''0'', cs) else scan_digits s | [] \<Rightarrow> None)"

definition scan_frac :: "string \<Rightarrow> (string \<times> string) option" where
  "scan_frac s =
    (case s of
       c # cs \<Rightarrow> if c = CHR ''.'' then consf [c] (scan_digits cs) else Some ([], s)
     | [] \<Rightarrow> Some ([], s))"

definition scan_exp :: "string \<Rightarrow> (string \<times> string) option" where
  "scan_exp s =
    (case s of
       c # cs \<Rightarrow>
        (if c = CHR ''e'' \<or> c = CHR ''E'' then
           (case cs of
              d # ds \<Rightarrow>
                if d = CHR ''+'' \<or> d = CHR ''-'' then consf [c, d] (scan_digits ds)
                else consf [c] (scan_digits cs)
            | [] \<Rightarrow> None)
         else Some ([], s))
     | [] \<Rightarrow> Some ([], s))"

definition scan_number :: "string \<Rightarrow> (string \<times> string) option" where
  "scan_number s =
    (let (sgn, s0) = (case s of c # cs \<Rightarrow> if c = CHR ''-'' then ([c], cs) else ([], s) | [] \<Rightarrow> ([], s))
     in case scan_int s0 of
          None \<Rightarrow> None
        | Some (i, s1) \<Rightarrow>
           (case scan_frac s1 of
              None \<Rightarrow> None
            | Some (f, s2) \<Rightarrow>
               (case scan_exp s2 of
                  None \<Rightarrow> None
                | Some (e, s3) \<Rightarrow> Some (sgn @ i @ f @ e, s3))))"

definition scan_lit :: "string \<Rightarrow> json \<Rightarrow> string \<Rightarrow> (json \<times> string) option" where
  "scan_lit lit v s = (if take (length lit) s = lit then Some (v, drop (length lit) s) else None)"

text \<open>
  The value grammar by recursive descent.  The first argument is fuel, spent by every call; the
  second the nesting still allowed (Go's scanner stops at 10000 levels).
\<close>

fun parse_value :: "nat \<Rightarrow> nat \<Rightarrow> string \<Rightarrow> (json \<times> string) option"
  and parse_elems :: "nat \<Rightarrow> nat \<Rightarrow> string \<Rightarrow> (json list \<times> string) option"
  and parse_members :: "nat \<Rightarrow> nat \<Rightarrow> string \<Rightarrow> ((string \<times> json) list \<times> string) option" where
  "parse_value 0 d s = None"
| "parse_value (Suc n) d s =
    (case skip_ws s of
       [] \<Rightarrow> None
     | c # cs \<Rightarrow>
        (if c = CHR ''{'' then
           (if d = 0 then None
            else case skip_ws cs of
                   [] \<Rightarrow> None
                 | c1 # cs1 \<Rightarrow>
                    (if c1 = CHR ''}'' then Some (JObj [], cs1)
                     else map_option (\<lambda>(ms, r). (JObj ms, r)) (parse_members n (d - 1) (c1 # cs1))))
         else if c = CHR ''['' then
           (if d = 0 then None
            else case skip_ws cs of
                   [] \<Rightarrow> None
                 | c1 # cs1 \<Rightarrow>
                    (if c1 = CHR '']'' then Some (JArr [], cs1)
                     else map_option (\<lambda>(vs, r). (JArr vs, r)) (parse_elems n (d - 1) (c1 # cs1))))
         else if c = QUOTE then map_option (\<lambda>(t, r). (JStr t, r)) (parse_string cs)
         else if c = CHR ''t'' then scan_lit ''true'' (JBool True) (c # cs)
         else if c = CHR ''f'' then scan_lit ''false'' (JBool False) (c # cs)
         else if c = CHR ''n'' then scan_lit ''null'' JNull (c # cs)
         else map_option (\<lambda>(t, r). (JNum t, r)) (scan_number (c # cs))))"
| "parse_elems 0 d s = None"
| "parse_elems (Suc n) d s =
    (case parse_value n d s of
       None \<Rightarrow> None
     | Some (v, r) \<Rightarrow>
        (case skip_ws r of
           [] \<Rightarrow> None
         | c # cs \<Rightarrow>
            (if c = CHR '']'' then Some ([v], cs)
             else if c = CHR '','' then map_option (\<lambda>(vs, r'). (v # vs, r')) (parse_elems n d cs)
             else None)))"
| "parse_members 0 d s = None"
| "parse_members (Suc n) d s =
    (case skip_ws s of
       [] \<Rightarrow> None
     | q # s0 \<Rightarrow>
        (if q \<noteq> QUOTE then None
         else case parse_string s0 of
                None \<Rightarrow> None
              | Some (k, s1) \<Rightarrow>
                 (case skip_ws s1 of
                    [] \<Rightarrow> None
                  | col # s2 \<Rightarrow>
                     (if col \<noteq> CHR '':'' then None
                      else case parse_value n d s2 of
                             None \<Rightarrow> None
                           | Some (v, r) \<Rightarrow>
                              (case skip_ws r of
                                 [] \<Rightarrow> None
                               | c # cs \<Rightarrow>
                                  (if c = CHR ''}'' then Some ([(k, v)], cs)
                                   else if c = CHR '',''
                                   then map_option (\<lambda>(ms, r'). ((k, v) # ms, r')) (parse_members n d cs)
                                   else None))))))"

definition max_nesting :: nat where
  "max_nesting = 10000"

text \<open>\<open>json.Decoder.Decode\<close> reads the first value of the stream and leaves the rest unread.\<close>

definition decode_first :: "string \<Rightarrow> json option" where
  "decode_first s = map_option fst (parse_value (Suc (length s)) max_nesting s)"

text \<open>\<open>json.Unmarshal\<close> wants the whole input to be one value.\<close>

definition decode_all :: "string \<Rightarrow> json option" where
  "decode_all s =
    (case parse_value (Suc (length s)) max_nesting s of
       None \<Rightarrow> None
     | Some (v, rest) \<Rightarrow> if skip_ws rest = [] then Some v else None)"

end
