(* ===== verification/Database.thy ===== *)
theory Database
  imports Prelude
begin

text \<open>
  The orders database and the world the service runs in.  The tables and their constraints follow
  \<open>services/order/migrations\<close>; a table is the list of its rows.  Postgres, pgx and the network are
  not under \<open>src/\<close>: what they may do beyond running a statement is a script of faults, one per
  driver call, over which every theorem quantifies.  \<open>with_tx\<close> is \<open>internal/postgres/tx.go\<close>.
\<close>

section \<open>Tables\<close>

record order_row =
  or_id :: string
  or_customer_id :: string
  or_status :: string
  or_total_amount :: int
  or_currency :: string
  or_payment_method_id :: string
  or_created_at :: int
  or_updated_at :: int

record item_row =
  it_order_id :: string
  it_sku :: string
  it_quantity :: int
  it_unit_price :: int

record event_row =
  ev_id :: string
  ev_aggregate_type :: string
  ev_aggregate_id :: string
  ev_event_type :: string
  ev_payload :: string
  ev_status :: string
  ev_retry_count :: int
  ev_next_attempt_at :: int
  ev_created_at :: int
  ev_published_at :: "int option"
  ev_last_error :: "string option"

record key_row =
  k_key :: string
  k_request_hash :: string
  k_state :: string
  k_resource_type :: string
  k_resource_id :: string
  k_response_body :: "string option"
  k_status_code :: int
  k_created_at :: int

record database =
  orders :: "order_row list"
  order_items :: "item_row list"
  outbox_events :: "event_row list"
  idempotency_keys :: "key_row list"

definition empty_db :: database where
  "empty_db = \<lparr>orders = [], order_items = [], outbox_events = [], idempotency_keys = []\<rparr>"

text \<open>The constraints of the two migrations: primary keys, \<open>CHECK\<close>s, the foreign key.\<close>

definition order_statuses :: "string list" where
  "order_statuses =
    [''pending'', ''inventory_reserved'', ''payment_pending'', ''payment_succeeded'',
     ''payment_failed'', ''confirmed'', ''cancelled'', ''expired'',
     ''awaiting_reconciliation'', ''manual_review'']"

definition event_statuses :: "string list" where
  "event_statuses = [''pending'', ''published'', ''retrying'', ''dead_lettered'']"

definition key_states :: "string list" where
  "key_states = [''in_progress'', ''completed'']"

definition order_row_ok :: "order_row \<Rightarrow> bool" where
  "order_row_ok r \<longleftrightarrow> 0 \<le> or_total_amount r \<and> or_status r \<in> set order_statuses"

definition item_row_ok :: "item_row \<Rightarrow> bool" where
  "item_row_ok r \<longleftrightarrow> fits_int4 (it_quantity r) \<and> 0 < it_quantity r \<and> 0 \<le> it_unit_price r"

definition event_row_ok :: "event_row \<Rightarrow> bool" where
  "event_row_ok r \<longleftrightarrow> ev_status r \<in> set event_statuses \<and> fits_int4 (ev_retry_count r)"

definition key_row_ok :: "key_row \<Rightarrow> bool" where
  "key_row_ok r \<longleftrightarrow> k_state r \<in> set key_states \<and> fits_int4 (k_status_code r)"

abbreviation item_key :: "item_row \<Rightarrow> string \<times> string" where
  "item_key r \<equiv> (it_order_id r, it_sku r)"

definition db_ok :: "database \<Rightarrow> bool" where
  "db_ok d \<longleftrightarrow>
    distinct (map or_id (orders d)) \<and> list_all order_row_ok (orders d) \<and>
    distinct (map item_key (order_items d)) \<and> list_all item_row_ok (order_items d) \<and>
    list_all (\<lambda>r. it_order_id r \<in> set (map or_id (orders d))) (order_items d) \<and>
    distinct (map ev_id (outbox_events d)) \<and> list_all event_row_ok (outbox_events d) \<and>
    distinct (map k_key (idempotency_keys d)) \<and> list_all key_row_ok (idempotency_keys d)"

lemma db_ok_empty: "db_ok empty_db"
  by (simp add: db_ok_def empty_db_def)

section \<open>The world\<close>

text \<open>
  What one driver call may do: run the statement (\<open>Fine\<close>); fail with an error before the statement
  has any effect (\<open>Refused\<close>: a lost connection, a value Postgres cannot store); fail although the
  server ran the statement (\<open>Lost\<close>: the answer never arrived); panic (\<open>Boom\<close>); or find that the
  client has hung up, which cancels the request's context from then on (\<open>Hangup\<close>, with a flag for
  whether the server had already run the statement).  A call made without the context's
  cancellation (\<open>context.WithoutCancel\<close>) runs whether the client is there or not.
\<close>

datatype fault = Fine | Refused string | Lost string | Boom string | Hangup bool

datatype log_entry =
    LogRequest string string int string
  | LogPanic string string
  | LogPublished string string string string
  | LogDeadLettered string string int string
  | LogDrain string
  | LogListening string
  | LogShuttingDown

record world =
  db :: database
  script :: "fault list"
  cancelled :: bool
  clock :: int
  uuids :: nat
  logged :: "log_entry list"

definition emit :: "log_entry \<Rightarrow> world \<Rightarrow> world" where
  "emit e w = w\<lparr>logged := logged w @ [e]\<rparr>"

text \<open>
  The services the program calls that are not under \<open>src/\<close>, as functions: the \<open>n\<close>-th random
  uuid, the digest, the printed form of a JSON number read as \<open>float64\<close> (\<open>None\<close> out of range),
  the microseconds of a Postgres \<open>interval\<close> literal, the database's collation, the stored form of
  a \<open>jsonb\<close> value, and a timestamp as JSON in the process's time zone.
\<close>

record platform =
  pf_uuid :: "nat \<Rightarrow> string"
  pf_sha256 :: "string \<Rightarrow> string"
  pf_float :: "string \<Rightarrow> string option"
  pf_interval :: "string \<Rightarrow> int option"
  pf_collate :: "string \<Rightarrow> string \<Rightarrow> bool"
  pf_jsonb :: "string \<Rightarrow> string option"
  pf_time_json :: "int \<Rightarrow> string"

definition new_uuid :: "platform \<Rightarrow> world \<Rightarrow> string \<times> world" where
  "new_uuid pf w = (pf_uuid pf (uuids w), w\<lparr>uuids := Suc (uuids w)\<rparr>)"

text \<open>\<open>context.Canceled\<close>.\<close>

definition ctx_canceled :: error where
  "ctx_canceled = Sentinel ''context canceled''"

text \<open>A statement reads the database and either fails or returns a value and the new database.\<close>

type_synonym 'a stmt = "database \<Rightarrow> error + 'a \<times> database"

definition run_stmt :: "'a stmt \<Rightarrow> world \<Rightarrow> 'a go \<times> world" where
  "run_stmt s w =
    (case s (db w) of
       Inl e \<Rightarrow> (Err e, w)
     | Inr (a, d) \<Rightarrow> (Ok a, w\<lparr>db := d\<rparr>))"

definition driver_call :: "bool \<Rightarrow> 'a stmt \<Rightarrow> world \<Rightarrow> 'a go \<times> world" where
  "driver_call cancellable s w =
    (if cancellable \<and> cancelled w then (Err ctx_canceled, w)
     else (case script w of
             [] \<Rightarrow> run_stmt s w
           | f # fs \<Rightarrow>
              (let w1 = w\<lparr>script := fs\<rparr> in
               case f of
                 Fine \<Rightarrow> run_stmt s w1
               | Refused m \<Rightarrow> (Err (Driver m), w1)
               | Lost m \<Rightarrow> (Err (Driver m), snd (run_stmt s w1))
               | Boom m \<Rightarrow> (Panic m, w1)
               | Hangup took \<Rightarrow>
                  (let w2 = w1\<lparr>cancelled := True\<rparr> in
                   if \<not> cancellable then run_stmt s w2
                   else (Err ctx_canceled, if took then snd (run_stmt s w2) else w2)))))"

text \<open>
  A driver call ends in one of three ways: it ran the statement and says so, it ran the statement
  and reports an error, or it left the database alone and reports an error or panics.
\<close>

lemma driver_call_Ok:
  "driver_call c s w = (Ok a, w') \<Longrightarrow> s (db w) = Inr (a, db w')"
  by (auto simp: driver_call_def run_stmt_def Let_def
      split: if_splits list.splits fault.splits sum.splits prod.splits)

lemma driver_call_not_Ok:
  "driver_call c s w = (r, w') \<Longrightarrow> \<not> is_ok r \<Longrightarrow>
     db w' = db w \<or> (\<exists>a. s (db w) = Inr (a, db w') \<and> (\<exists>e. r = Err e))"
  by (auto simp: driver_call_def run_stmt_def Let_def
      split: if_splits list.splits fault.splits sum.splits prod.splits)

lemma driver_call_Panic: "driver_call c s w = (Panic p, w') \<Longrightarrow> db w' = db w"
  by (auto simp: driver_call_def run_stmt_def Let_def
      split: if_splits list.splits fault.splits sum.splits prod.splits)

text \<open>What no driver call touches.\<close>

definition same_env :: "world \<Rightarrow> world \<Rightarrow> bool" where
  "same_env w w' \<longleftrightarrow> clock w' = clock w \<and> uuids w' = uuids w \<and> logged w' = logged w"

lemma same_env_refl [simp, intro]: "same_env w w"
  by (simp add: same_env_def)

lemma same_env_trans [trans]: "same_env a b \<Longrightarrow> same_env b c \<Longrightarrow> same_env a c"
  by (simp add: same_env_def)

lemma same_env_db [simp]:
  "same_env (w\<lparr>db := d\<rparr>) w' \<longleftrightarrow> same_env w w'"
  "same_env w (w'\<lparr>db := d\<rparr>) \<longleftrightarrow> same_env w w'"
  by (simp_all add: same_env_def)

lemma driver_call_env: "driver_call c s w = (r, w') \<Longrightarrow> same_env w w'"
  by (auto simp: driver_call_def run_stmt_def Let_def same_env_def
      split: if_splits list.splits fault.splits sum.splits prod.splits)

lemma driver_call_cases:
  assumes "driver_call c s w = (r, w')"
  obtains (ran) a where "s (db w) = Inr (a, db w')" and "r = Ok a \<or> (\<exists>e. r = Err e)"
  | (kept) "db w' = db w" and "\<not> is_ok r"
  using driver_call_Ok [of c s w _ w'] driver_call_not_Ok [OF assms] assms
  by (cases r) auto

lemma driver_call_Err:
  "driver_call c s w = (Err e, w') \<Longrightarrow>
     e = ctx_canceled \<or> (\<exists>m. e = Driver m) \<or> s (db w) = Inl e"
  by (auto simp: driver_call_def run_stmt_def Let_def
      split: if_splits list.splits fault.splits sum.splits prod.splits)

text \<open>Without faults and with a live client a driver call just runs the statement.\<close>

definition calm :: "world \<Rightarrow> bool" where
  "calm w \<longleftrightarrow> script w = [] \<and> \<not> cancelled w"

lemma driver_call_calm: "calm w \<Longrightarrow> driver_call c s w = run_stmt s w"
  by (simp add: driver_call_def calm_def)

lemma run_stmt_calm: "run_stmt s w = (r, w') \<Longrightarrow> calm w' = calm w"
  by (auto simp: run_stmt_def calm_def split: sum.splits)

text \<open>A detached call (\<open>context.WithoutCancel\<close>) does not look at the cancellation.\<close>

lemma driver_call_detached:
  "script w = [] \<Longrightarrow> driver_call False s w = run_stmt s w"
  by (simp add: driver_call_def)

text \<open>\<open>pgx.ErrNoRows\<close>, which \<open>QueryRow(...).Scan\<close> returns when the query yields no row.\<close>

definition ErrNoRows :: error where
  "ErrNoRows = Sentinel ''no rows in result set''"

definition query_row :: "bool \<Rightarrow> 'a option stmt \<Rightarrow> world \<Rightarrow> 'a go \<times> world" where
  "query_row c s w =
    (case driver_call c s w of
       (Ok None, w1) \<Rightarrow> (Err ErrNoRows, w1)
     | (Ok (Some a), w1) \<Rightarrow> (Ok a, w1)
     | (Err e, w1) \<Rightarrow> (Err e, w1)
     | (Panic p, w1) \<Rightarrow> (Panic p, w1))"

lemma query_row_env: "query_row c s w = (r, w') \<Longrightarrow> same_env w w'"
  by (auto simp: query_row_def split: prod.splits go.splits option.splits dest: driver_call_env)

lemma query_row_Ok: "query_row c s w = (Ok a, w') \<Longrightarrow> s (db w) = Inr (Some a, db w')"
  by (auto simp: query_row_def split: prod.splits go.splits option.splits dest: driver_call_Ok)

section \<open>Transactions\<close>

text \<open>
  While \<open>fn\<close> runs, \<open>db\<close> is the transaction's own view; \<open>rollback\<close> puts the database of \<open>Begin\<close>
  back whatever the call reports, and \<open>commit\<close> publishes the view as one statement, so that a
  commit whose answer is lost has still committed.  \<open>rollback\<close> runs in a deferred function: it
  ignores its error and only a panic of its own replaces the outcome.
\<close>

definition rollback :: "database \<Rightarrow> unit go \<times> world \<Rightarrow> unit go \<times> world" where
  "rollback d0 rw =
    (case driver_call False (\<lambda>_. Inr ((), d0)) (snd rw) of
       (Panic p, w) \<Rightarrow> (Panic p, w\<lparr>db := d0\<rparr>)
     | (_, w) \<Rightarrow> (fst rw, w\<lparr>db := d0\<rparr>))"

definition with_tx :: "(world \<Rightarrow> unit go \<times> world) \<Rightarrow> world \<Rightarrow> unit go \<times> world" where
  "with_tx fn w =
    (case driver_call True (\<lambda>d. Inr ((), d)) w of
       (Err e, w0) \<Rightarrow> (Err (Wrapf ''postgres: begin: '' e []), w0)
     | (Panic p, w0) \<Rightarrow> (Panic p, w0)
     | (Ok _, w0) \<Rightarrow>
        (case fn w0 of
           (Err e, w1) \<Rightarrow> rollback (db w0) (Err e, w1)
         | (Panic p, w1) \<Rightarrow> rollback (db w0) (Panic p, w1)
         | (Ok _, w1) \<Rightarrow>
            (case driver_call True (\<lambda>_. Inr ((), db w1)) (w1\<lparr>db := db w0\<rparr>) of
               (Ok _, w2) \<Rightarrow> (Ok (), w2)
             | (Err e, w2) \<Rightarrow> rollback (db w2) (Err (Wrapf ''postgres: commit: '' e []), w2)
             | (Panic p, w2) \<Rightarrow> rollback (db w2) (Panic p, w2))))"

lemma rollback_db: "rollback d0 (r, w) = (r', w') \<Longrightarrow> db w' = d0"
  by (auto simp: rollback_def split: prod.splits go.splits)

lemma rollback_not_Ok: "rollback d0 (r, w) = (r', w') \<Longrightarrow> \<not> is_ok r \<Longrightarrow> \<not> is_ok r'"
  by (auto simp: rollback_def split: prod.splits go.splits)

lemma rollback_env: "rollback d0 (r, w) = (r', w') \<Longrightarrow> same_env w w'"
  by (auto simp: rollback_def split: prod.splits go.splits dest!: driver_call_env)

lemmas rollback_rules = rollback_db rollback_not_Ok rollback_env

text \<open>
  The transaction rule.  Either \<open>fn\<close> ran to success on the committed database and what it left was
  published, or the database is as it was and the caller does not hear of success.  In both cases
  a transaction that began has whatever effect \<open>fn\<close> had on the rest of the world.
\<close>

lemma with_tx_cases:
  assumes "with_tx fn w = (r, w')"
  obtains (committed) w0 w1 where "db w0 = db w" and "same_env w w0" and "fn w0 = (Ok (), w1)"
      and "db w' = db w1" and "same_env w1 w'"
  | (rolled_back) w0 q w1 where "\<not> is_ok r" and "db w' = db w" and "db w0 = db w"
      and "same_env w w0" and "fn w0 = (q, w1)" and "same_env w1 w'"
  | (not_begun) "\<not> is_ok r" and "db w' = db w" and "same_env w w'"
proof -
  obtain b w0 where b: "driver_call True (\<lambda>d. Inr ((), d)) w = (b, w0)"
    by (cases "driver_call True (\<lambda>d. Inr ((), d)) w")
  have db0: "db w0 = db w"
    using b by (rule driver_call_cases) auto
  note env0 = driver_call_env [OF b]
  obtain q w1 where q: "fn w0 = (q, w1)" by (cases "fn w0")
  obtain k w2 where k: "driver_call True (\<lambda>_. Inr ((), db w1)) (w1\<lparr>db := db w0\<rparr>) = (k, w2)"
    by (cases "driver_call True (\<lambda>_. Inr ((), db w1)) (w1\<lparr>db := db w0\<rparr>)")
  have db2: "db w2 = db w0 \<or> db w2 = db w1"
    using k by (rule driver_call_cases) auto
  have env2: "same_env w1 w2" using driver_call_env [OF k] by simp
  consider "\<not> is_ok b" | "is_ok b" "\<not> is_ok q" | "is_ok b" "is_ok q" by blast
  then show thesis
  proof cases
    case 1
    then show thesis
      using assms b env0 db0 by (auto simp: with_tx_def split: go.splits intro!: not_begun)
  next
    case 2
    then have "rollback (db w0) (q, w1) = (r, w')"
      using assms b q by (auto simp: with_tx_def split: go.splits)
    with rollback_rules [OF this] 2 show thesis
      using db0 env0 q by (intro rolled_back) auto
  next
    case 3
    then have q': "fn w0 = (Ok (), w1)" using q by (cases q) auto
    show thesis
    proof (cases "is_ok k")
      case True
      then have "r = Ok ()" "w' = w2" and "db w2 = db w1"
        using assms b q' k 3 by (auto simp: with_tx_def is_ok_iff split: go.splits dest!: driver_call_Ok)
      then show thesis using db0 env0 q' env2 by (intro committed) auto
    next
      case False
      then obtain e where e: "\<not> is_ok e" "rollback (db w2) (e, w2) = (r, w')"
        using assms b q' k 3
        by (cases k) (force simp: with_tx_def split: go.splits intro: that [rotated])+
      note rules = rollback_rules [OF e(2)]
      have env: "same_env w1 w'" using env2 rules(3) by (rule same_env_trans)
      show thesis
      proof (cases "db w2 = db w1")
        case True
        then have "db w' = db w1" using rules(1) by simp
        from committed [OF db0 env0 q' this env] show thesis .
      next
        case False
        then have "db w' = db w" using db2 db0 rules(1) by simp
        from rolled_back [OF rules(2) [OF e(1)] this db0 env0 q env] show thesis .
      qed
    qed
  qed
qed

lemma with_tx_Ok:
  assumes "with_tx fn w = (Ok u, w')"
  obtains w0 w1 where "db w0 = db w" and "same_env w w0" and "fn w0 = (Ok (), w1)"
    and "db w' = db w1" and "same_env w1 w'"
  using assms by (rule with_tx_cases) (auto intro: that)

text \<open>Without faults the transaction is \<open>fn\<close>, undone unless it succeeds.\<close>

lemma with_tx_calm:
  assumes "calm w" and "fn w = (r, w1)" and "calm w1"
  shows "with_tx fn w = (case r of Ok _ \<Rightarrow> (Ok (), w1) | _ \<Rightarrow> (r, w1\<lparr>db := db w\<rparr>))"
  using assms
  by (auto simp: with_tx_def driver_call_calm run_stmt_def rollback_def driver_call_def calm_def
      split: go.splits)

section \<open>Stretches without faults\<close>

text \<open>\<open>quiet n w\<close>: the client is there and the next \<open>n\<close> driver calls run as they should.\<close>

definition quiet :: "nat \<Rightarrow> world \<Rightarrow> bool" where
  "quiet n w \<longleftrightarrow> \<not> cancelled w \<and> list_all (\<lambda>f. f = Fine) (take n (script w))"

definition used :: "nat \<Rightarrow> world \<Rightarrow> world" where
  "used n w = w\<lparr>script := drop n (script w)\<rparr>"

lemma used_simps [simp]:
  "db (used n w) = db w" "clock (used n w) = clock w" "logged (used n w) = logged w"
  "uuids (used n w) = uuids w" "cancelled (used n w) = cancelled w"
  "script (used n w) = drop n (script w)" "used 0 w = w"
  "used m (used n w) = used (m + n) w"
  by (simp_all add: used_def add.commute)

lemma script_unchanged: "script w = [] \<Longrightarrow> w\<lparr>script := []\<rparr> = w"
  by (cases w) simp

lemma driver_call_quiet: "quiet (Suc n) w \<Longrightarrow> driver_call c s w = run_stmt s (used 1 w)"
  by (cases "script w") (auto simp: quiet_def driver_call_def used_def script_unchanged)

lemma quiet_used: "quiet (Suc n) w \<Longrightarrow> quiet n (used (Suc 0) w)"
  by (cases "script w") (auto simp: quiet_def used_def)

lemma quiet_update [simp]:
  "quiet n (w\<lparr>db := d\<rparr>) = quiet n w" "quiet n (w\<lparr>logged := l\<rparr>) = quiet n w"
  "quiet n (w\<lparr>clock := t\<rparr>) = quiet n w" "quiet n (w\<lparr>uuids := u\<rparr>) = quiet n w"
  by (simp_all add: quiet_def)

lemma used_update [simp]:
  "used n (w\<lparr>db := d\<rparr>) = (used n w)\<lparr>db := d\<rparr>"
  "used n (w\<lparr>logged := l\<rparr>) = (used n w)\<lparr>logged := l\<rparr>"
  by (simp_all add: used_def)

lemma calm_quiet: "calm w \<Longrightarrow> quiet n w \<and> used n w = w"
  by (simp add: calm_def quiet_def used_def script_unchanged)

section \<open>An example world\<close>

definition sample_platform :: platform where
  "sample_platform = \<lparr>pf_uuid = (\<lambda>n. ''u'' @ show_nat n), pf_sha256 = (\<lambda>s. s),
     pf_float = (\<lambda>s. Some s),
     pf_interval = (\<lambda>s. if s = ''1s'' then Some 1000000 else None),
     pf_collate = (\<lambda>_ _. True), pf_jsonb = (\<lambda>s. Some s), pf_time_json = (\<lambda>t. show_int t)\<rparr>"

definition sample_world :: world where
  "sample_world = \<lparr>db = empty_db, script = [], cancelled = False, clock = 1000, uuids = 0, logged = []\<rparr>"

end
