(* ===== verification/Json_Text.thy ===== *)
theory Json_Text
  imports Json
begin

text \<open>
  The encoder and the decoder of \<open>Json\<close> fit together: what \<open>json.Marshal\<close> prints for a value,
  \<open>json.Unmarshal\<close> and \<open>json.Decoder\<close> read back as that value, with U+FFFD for each byte of its
  strings that is not UTF-8.  The fuel the decoders give the parser, one more than the length of
  the text, is enough for every encoded value.
\<close>

section \<open>Bytes and digits\<close>

lemma byte_val_less [simp]: "byte_val c < 256"
  by (simp add: byte_val_def)

lemma char_of_byte_val [simp]: "char_of (byte_val c) = c"
  by (simp add: byte_val_def)

lemma byte_val_char_of [simp]: "n < 256 \<Longrightarrow> byte_val (char_of n) = n"
  by (simp add: byte_val_def)

lemma byte_val_eq_iff [simp]: "byte_val c = byte_val c' \<longleftrightarrow> c = c'"
  by (metis char_of_byte_val)

lemma hex_val_digit: "n < 16 \<Longrightarrow> hex_val (hex_digit n) = Some n"
  by (auto simp: hex_val_def hex_digit_def Let_def)

lemma hex4_digits:
  assumes "r < 65536"
  shows "hex4 (hex_digit (r div 4096) # hex_digit (r div 256 mod 16) # hex_digit (r div 16 mod 16)
    # hex_digit (r mod 16) # rest) = Some (r, rest)"
proof -
  have "r = 16 * (r div 16) + r mod 16" and "r div 16 = 16 * (r div 16 div 16) + r div 16 mod 16"
    and "r div 256 = 16 * (r div 256 div 16) + r div 256 mod 16"
    by (rule mult_div_mod_eq [symmetric])+
  moreover have "r div 16 div 16 = r div 256" and "r div 256 div 16 = r div 4096"
    by (simp_all add: div_mult2_eq [symmetric])
  ultimately have "4096 * (r div 4096) + 256 * (r div 256 mod 16) + 16 * (r div 16 mod 16) + r mod 16 = r"
    by linarith
  with assms show ?thesis by (simp add: hex4_def hex_val_digit)
qed

lemma char_of_bytes:
  "char_of (48 :: nat) = CHR ''0''" "char_of (56 :: nat) = CHR ''8''" "char_of (57 :: nat) = CHR ''9''"
  "char_of (239 :: nat) = CHR 0xEF" "char_of (191 :: nat) = CHR 0xBF" "char_of (189 :: nat) = CHR 0xBD"
  "char_of (226 :: nat) = CHR 0xE2" "char_of (128 :: nat) = CHR 0x80" "char_of (168 :: nat) = CHR 0xA8"
  "char_of (169 :: nat) = CHR 0xA9"
  by (simp_all add: char_of_def bit_Suc_0_iff)

lemma byte_val_special [simp]:
  "byte_val QUOTE = 34" "byte_val BACKSLASH = 92" "byte_val (CHR ''u'') = 117"
  by (simp_all add: byte_val_def)

section \<open>Runes\<close>

text \<open>The bytes of a rune stand at the start of the string, whatever follows them.\<close>

text \<open>The first byte decides the length of the rune and what its other bytes must be.\<close>

lemma utf8_len_cases:
  obtains (one) "\<And>cs. utf8_len (c # cs) = 1"
  | (two) "\<And>cs. utf8_len (c # cs) =
      (case cs of c1 # _ \<Rightarrow> if byte_in 0x80 0xBF c1 then 2 else 0 | _ \<Rightarrow> 0)"
  | (three) lo hi where "\<And>cs. utf8_len (c # cs) =
      (case cs of c1 # c2 # _ \<Rightarrow> if byte_in lo hi c1 \<and> byte_in 0x80 0xBF c2 then 3 else 0 | _ \<Rightarrow> 0)"
  | (four) lo hi where "\<And>cs. utf8_len (c # cs) =
      (case cs of c1 # c2 # c3 # _ \<Rightarrow>
         if byte_in lo hi c1 \<and> byte_in 0x80 0xBF c2 \<and> byte_in 0x80 0xBF c3 then 4 else 0 | _ \<Rightarrow> 0)"
  | (bad) "\<And>cs. utf8_len (c # cs) = 0"
proof -
  let ?b = "byte_val c"
  consider "?b < 0x80" | "0xC2 \<le> ?b" "?b \<le> 0xDF" | "0xE0 \<le> ?b" "?b \<le> 0xEF"
    | "0xF0 \<le> ?b" "?b \<le> 0xF4" | "0x80 \<le> ?b" "?b < 0xC2 \<or> 0xF4 < ?b"
    by linarith
  then show thesis
  proof cases
    case 1
    then show thesis by (intro one) (simp add: utf8_len_def)
  next
    case 2
    then show thesis by (intro two) (simp add: utf8_len_def)
  next
    case 3
    then show thesis
      by (intro three [of "if ?b = 0xE0 then 0xA0 else 0x80" "if ?b = 0xED then 0x9F else 0xBF"])
         (simp add: utf8_len_def Let_def)
  next
    case 4
    then show thesis
      by (intro four [of "if ?b = 0xF0 then 0x90 else 0x80" "if ?b = 0xF4 then 0x8F else 0xBF"])
         (simp add: utf8_len_def Let_def)
  next
    case 5
    then show thesis by (intro bad) (auto simp: utf8_len_def)
  qed
qed

lemma utf8_len_take:
  "utf8_len (c # cs) = Suc n \<Longrightarrow> utf8_len (c # take n cs @ t) = Suc n"
  by (cases c rule: utf8_len_cases) (auto split: list.splits if_splits)

lemma utf8_len_length: "utf8_len (c # cs) = Suc n \<Longrightarrow> n \<le> length cs"
  by (cases c rule: utf8_len_cases) (auto split: list.splits if_splits)

section \<open>Strings\<close>

text \<open>The string a decoder gives back for \<open>s\<close>: each byte that is not UTF-8 is a U+FFFD.\<close>

fun to_valid :: "string \<Rightarrow> string" where
  "to_valid [] = []"
| "to_valid (c # cs) =
    (case utf8_len (c # cs) of
       0 \<Rightarrow> replacement @ to_valid cs
     | Suc n \<Rightarrow> c # take n cs @ to_valid (drop n cs))"

fun valid_utf8 :: "string \<Rightarrow> bool" where
  "valid_utf8 [] = True"
| "valid_utf8 (c # cs) =
    (case utf8_len (c # cs) of 0 \<Rightarrow> False | Suc n \<Rightarrow> valid_utf8 (drop n cs))"

lemma to_valid_id: "valid_utf8 s \<Longrightarrow> to_valid s = s"
  by (induction s rule: valid_utf8.induct) (auto split: nat.splits)

lemma utf8_len_ascii: "byte_val c < 0x80 \<Longrightarrow> utf8_len (c # cs) = 1"
  by (simp add: utf8_len_def)

lemma valid_utf8_ascii: "list_all (\<lambda>c. byte_val c < 0x80) s \<Longrightarrow> valid_utf8 s"
  by (induction s) (auto simp: utf8_len_ascii)

lemma parse_plain:
  "32 \<le> byte_val c \<Longrightarrow> byte_val c < 128 \<Longrightarrow> c \<noteq> QUOTE \<Longrightarrow> c \<noteq> BACKSLASH \<Longrightarrow>
     parse_string (c # t) = consf [c] (parse_string t)"
  by (simp add: parse_string.simps(2) [of c t])

lemma parse_simple:
  "simple_escape e = Some x \<Longrightarrow> parse_string (BACKSLASH # e # t) = consf [x] (parse_string t)"
  by (auto simp: parse_string.simps(2) [of BACKSLASH "e # t"] simple_escape_def)

lemma parse_unicode:
  "hex4 s = Some (r, t) \<Longrightarrow> r < 0xD800 \<or> 0xDC00 \<le> r \<Longrightarrow>
     parse_string (BACKSLASH # CHR ''u'' # s) = consf (encode_rune r) (parse_string t)"
  by (auto simp: parse_string.simps(2) [of BACKSLASH "CHR ''u'' # s"] unicode_escape_def)

lemma hex_digit_0: "hex_digit 0 = CHR ''0''"
  by (simp add: hex_digit_def char_of_bytes)

lemma parse_hex_escape:
  assumes "byte_val c < 128"
  shows "parse_string (BACKSLASH # CHR ''u'' # CHR ''0'' # CHR ''0'' # hex_digit (byte_val c div 16) #
      hex_digit (byte_val c mod 16) # t) = consf [c] (parse_string t)"
proof -
  let ?b = "byte_val c"
  have "hex4 (CHR ''0'' # CHR ''0'' # hex_digit (?b div 16) # hex_digit (?b mod 16) # t) = Some (?b, t)"
    using hex4_digits [of ?b t] assms by (simp add: hex_digit_0)
  from parse_unicode [OF this] assms show ?thesis
    by (simp add: encode_rune_def)
qed

lemma simple_escapes:
  "simple_escape QUOTE = Some QUOTE" "simple_escape BACKSLASH = Some BACKSLASH"
  "simple_escape (CHR ''b'') = Some (CHR 0x08)" "simple_escape (CHR ''f'') = Some (CHR 0x0C)"
  "simple_escape (CHR ''n'') = Some (CHR 0x0A)" "simple_escape (CHR ''r'') = Some (CHR 0x0D)"
  "simple_escape (CHR ''t'') = Some (CHR 0x09)"
  by (simp_all add: simple_escape_def)

lemma escape_ascii_cases:
  obtains (plain) "html_safe c" and "escape_ascii c = [c]"
  | (short) e where "simple_escape e = Some c" and "escape_ascii c = [BACKSLASH, e]"
  | (hex) "escape_ascii c = [BACKSLASH, CHR ''u'', CHR ''0'', CHR ''0'',
           hex_digit (byte_val c div 16), hex_digit (byte_val c mod 16)]"
proof -
  consider "html_safe c" | "\<not> html_safe c" "c \<in> {BACKSLASH, QUOTE}"
    | e where "\<not> html_safe c" "(e, c) \<in> {(CHR ''b'', CHR 0x08), (CHR ''f'', CHR 0x0C),
        (CHR ''n'', CHR 0x0A), (CHR ''r'', CHR 0x0D), (CHR ''t'', CHR 0x09)}"
    | "\<not> html_safe c" "c \<notin> {BACKSLASH, QUOTE, CHR 0x08, CHR 0x0C, CHR 0x0A, CHR 0x0D, CHR 0x09}"
    by blast
  then show thesis
  proof cases
    case 1
    then show thesis by (intro plain) (simp_all add: escape_ascii_def)
  next
    case 2
    then show thesis
      by (intro short [of c]) (auto simp: escape_ascii_def simple_escape_def)
  next
    case (3 e)
    then show thesis
      by (intro short [of e]) (auto simp: escape_ascii_def simple_escapes)
  next
    case 4
    then show thesis by (intro hex) (simp_all add: escape_ascii_def)
  qed
qed

lemma parse_escape_ascii:
  assumes "byte_val c < 128"
  shows "parse_string (escape_ascii c @ t) = consf [c] (parse_string t)"
proof (cases c rule: escape_ascii_cases)
  case plain
  with assms show ?thesis by (simp add: html_safe_def parse_plain)
next
  case (short e)
  then show ?thesis by (simp add: parse_simple)
next
  case hex
  with parse_hex_escape [OF assms] show ?thesis by simp
qed

lemma parse_replacement:
  "parse_string (BACKSLASH # ''ufffd'' @ t) = consf replacement (parse_string t)"
proof -
  have "hex4 (''fffd'' @ t) = Some (0xFFFD, t)"
    by (simp add: hex4_def hex_val_def byte_val_def)
  moreover have "encode_rune 0xFFFD = replacement"
    by (simp add: encode_rune_def replacement_def char_of_bytes)
  ultimately show ?thesis
    using parse_unicode [where s = "''fffd'' @ t" and r = "0xFFFD"] by simp
qed

lemma take_3_eqD: "take 3 (c # cs) = [x, y, z] \<Longrightarrow> c = x \<and> (\<exists>r. cs = y # z # r)"
  by (cases cs; cases "tl cs") (auto simp: numeral_3_eq_3)

lemma line_separator_cases:
  assumes "line_separator (c # cs)"
  obtains r where "c = CHR 0xE2" and "cs = CHR 0x80 # CHR 0xA8 # r"
  | r where "c = CHR 0xE2" and "cs = CHR 0x80 # CHR 0xA9 # r"
  using assms unfolding line_separator_def by (blast dest: take_3_eqD)

lemma parse_line_separator:
  assumes "line_separator (c # cs)"
  shows "parse_string (BACKSLASH # ''u202'' @ hex_digit (byte_val (cs ! 1) mod 16) # t) =
      consf (c # take 2 cs) (parse_string t) \<and> utf8_len (c # cs) = 3"
proof -
  have hex: "hex4 (''2028'' @ t) = Some (0x2028, t)" "hex4 (''2029'' @ t) = Some (0x2029, t)"
    by (simp_all add: hex4_def hex_val_def byte_val_def)
  have rune: "encode_rune 0x2028 = [CHR 0xE2, CHR 0x80, CHR 0xA8]"
      "encode_rune 0x2029 = [CHR 0xE2, CHR 0x80, CHR 0xA9]"
    by (simp_all add: encode_rune_def char_of_bytes)
  have digit: "hex_digit (byte_val (CHR 0xA8) mod 16) = CHR ''8''"
      "hex_digit (byte_val (CHR 0xA9) mod 16) = CHR ''9''"
    by (simp_all add: hex_digit_def byte_val_def char_of_bytes)
  have len: "utf8_len (CHR 0xE2 # CHR 0x80 # CHR 0xA8 # r) = 3"
      "utf8_len (CHR 0xE2 # CHR 0x80 # CHR 0xA9 # r) = 3" for r
    by (simp_all add: utf8_len_def byte_in_def byte_val_def)
  show ?thesis
    using assms
  proof (cases rule: line_separator_cases)
    case (1 r)
    with parse_unicode [OF hex(1)] show ?thesis by (simp add: rune digit len)
  next
    case (2 r)
    with parse_unicode [OF hex(2)] show ?thesis by (simp add: rune digit len)
  qed
qed

lemma parse_rune:
  assumes "128 \<le> byte_val c" and "utf8_len (c # cs) = Suc n"
  shows "parse_string (c # take n cs @ t) = consf (c # take n cs) (parse_string t)"
proof -
  have "length (take n cs) = n"
    using utf8_len_length [OF assms(2)] by simp
  with utf8_len_take [OF assms(2), of t] assms(1) show ?thesis
    by (auto simp: parse_string.simps(2) [of c "take n cs @ t"])
qed

lemma consf_append: "consf p (consf q r) = consf (p @ q) r"
  by (cases r) (auto simp: consf_def)

lemma parse_encode_chars:
  "parse_string (encode_chars s @ QUOTE # rest) = Some (to_valid s, rest)"
proof (induction s rule: encode_chars.induct)
  case 1
  show ?case by (simp add: parse_string.simps)
next
  case (2 c cs)
  show ?case
  proof (cases "byte_val c < 128")
    case True
    with 2(1) show ?thesis
      by (simp add: parse_escape_ascii utf8_len_ascii consf_def)
  next
    case False
    show ?thesis
    proof (cases "utf8_len (c # cs)")
      case 0
      with False 2(2) show ?thesis
        using parse_replacement by (simp add: consf_def)
    next
      case (Suc n)
      show ?thesis
      proof (cases "line_separator (c # cs)")
        case True
        with Suc False 2(3) parse_line_separator [OF True] show ?thesis
          by (simp add: consf_def)
      next
        case False': False
        with Suc False 2(4) parse_rune [OF _ Suc] show ?thesis
          by (simp add: consf_def)
      qed
    qed
  qed
qed

section \<open>Numbers\<close>

definition number_text :: "string \<Rightarrow> bool" where
  "number_text t \<longleftrightarrow> scan_number t = Some (t, []) \<and> (case t of c # _ \<Rightarrow> c = CHR ''-'' \<or> is_digit c | [] \<Rightarrow> False)"

text \<open>What may follow a value in the encoder's output.\<close>

definition after_value :: "string \<Rightarrow> bool" where
  "after_value s \<longleftrightarrow> (case s of [] \<Rightarrow> True | c # _ \<Rightarrow> c \<in> {CHR '','', CHR '']'', CHR ''}''})"

lemma after_value_simps [simp]:
  "after_value []" "after_value (CHR '','' # s)" "after_value (CHR '']'' # s)" "after_value (CHR ''}'' # s)"
  by (simp_all add: after_value_def)

lemma after_value_stops:
  assumes "after_value s"
  shows "takeWhile is_digit s = []" and "dropWhile is_digit s = s"
    and "scan_frac s = Some ([], s)" and "scan_exp s = Some ([], s)"
  using assms
  by (auto simp: after_value_def is_digit_def byte_in_def byte_val_def scan_frac_def scan_exp_def
      split: list.splits)

lemma scan_digits_more:
  assumes "scan_digits t = Some (ds, r)" and "takeWhile is_digit s = []"
  shows "scan_digits (t @ s) = Some (ds, r @ s)"
proof -
  have "takeWhile is_digit (t @ s) = takeWhile is_digit t"
    "dropWhile is_digit (t @ s) = dropWhile is_digit t @ s"
    using assms(2) by (induction t; cases s; auto split: if_splits)+
  with assms(1) show ?thesis by (auto simp: scan_digits_def Let_def split: if_splits)
qed


lemma scan_int_more:
  assumes "scan_int t = Some (i, r)" and "takeWhile is_digit s = []"
  shows "scan_int (t @ s) = Some (i, r @ s)"
  using assms scan_digits_more [OF _ assms(2)]
  by (auto simp: scan_int_def split: list.splits if_splits) (metis append_Cons)

lemma consf_eq_Some: "consf p x = Some (t, r) \<longleftrightarrow> (\<exists>u. x = Some (u, r) \<and> t = p @ u)"
  by (auto simp: consf_def)

lemma scan_frac_more:
  assumes "scan_frac t = Some (f, r)" and "after_value s"
  shows "scan_frac (t @ s) = Some (f, r @ s)"
  using assms scan_digits_more [OF _ after_value_stops(1) [OF assms(2)]] after_value_stops(3) [OF assms(2)]
  by (cases t) (auto simp: scan_frac_def [of "_ # _"] scan_frac_def [of "[]"] consf_eq_Some split: if_splits)

lemma scan_exp_more:
  assumes "scan_exp t = Some (e, r)" and "after_value s"
  shows "scan_exp (t @ s) = Some (e, r @ s)"
  using assms scan_digits_more [OF _ after_value_stops(1) [OF assms(2)], of "tl t"]
    scan_digits_more [OF _ after_value_stops(1) [OF assms(2)], of "tl (tl t)"]
    after_value_stops(4) [OF assms(2)]
  by (cases t; cases "tl t")
     (auto simp: scan_exp_def [of "_ # _"] scan_exp_def [of "[]"] consf_eq_Some split: if_splits)

lemma scan_number_more:
  assumes "scan_number t = Some (u, r)" and "after_value s"
  shows "scan_number (t @ s) = Some (u, r @ s)"
proof -
  obtain sgn t0 where st: "(case t of c # cs \<Rightarrow> if c = CHR ''-'' then ([c], cs) else ([], t) | [] \<Rightarrow> ([], t)) = (sgn, t0)"
    by fastforce
  with assms(1) obtain i s1 f s2 e where parts: "scan_int t0 = Some (i, s1)" "scan_frac s1 = Some (f, s2)"
    "scan_exp s2 = Some (e, r)" "u = sgn @ i @ f @ e"
    by (auto simp: scan_number_def split: option.splits)
  have "t \<noteq> []"
    using parts(1) st by (auto simp: scan_int_def split: list.splits)
  with st have "(case t @ s of c # cs \<Rightarrow> if c = CHR ''-'' then ([c], cs) else ([], t @ s) | [] \<Rightarrow> ([], t @ s)) =
      (sgn, t0 @ s)"
    by (auto split: list.splits if_splits)
  with parts scan_int_more [OF parts(1) after_value_stops(1) [OF assms(2)]]
    scan_frac_more [OF parts(2) assms(2)] scan_exp_more [OF parts(3) assms(2)]
  show ?thesis by (simp add: scan_number_def)
qed

text \<open>Integers print as numbers.\<close>

lemma is_digit_digit_char: "d < 10 \<Longrightarrow> is_digit (digit_char d)"
  by (simp add: is_digit_def byte_in_def digit_char_def)

lemma show_digits_digits: "0 \<le> n \<Longrightarrow> list_all is_digit (show_digits n)"
proof (induction n rule: show_digits.induct)
  case (1 n)
  then show ?case
    by (subst show_digits.simps) (auto intro!: is_digit_digit_char)
qed

lemma show_digits_lead: "0 < n \<Longrightarrow> hd (show_digits n) \<noteq> CHR ''0''"
proof (induction n rule: show_digits.induct)
  case (1 n)
  show ?case
  proof (cases "n < 10")
    case True
    with 1(2) have "n \<in> {1, 2, 3, 4, 5, 6, 7, 8, 9}" by auto
    then show ?thesis
      by (subst show_digits.simps) (auto simp: digit_char_def byte_val_eq_iff [symmetric] byte_val_def)
  next
    case False
    with 1 show ?thesis by (subst show_digits.simps) simp
  qed
qed

lemma scan_digits_all: "list_all is_digit t \<Longrightarrow> t \<noteq> [] \<Longrightarrow> scan_digits t = Some (t, [])"
  by (simp add: scan_digits_def list_all_iff Let_def) (metis takeWhile_eq_all_conv)

lemma scan_int_show: "0 \<le> n \<Longrightarrow> scan_int (show_digits n) = Some (show_digits n, [])"
  using show_digits_lead [of n] scan_digits_all [OF show_digits_digits, of n]
  by (cases "n = 0"; cases "show_digits n")
     (auto simp: scan_int_def show_digits.simps [of 0] digit_char_def hex_digit_0 char_of_bytes)

lemma number_text_show_int: "number_text (show_int i)"
proof -
  have num: "scan_number (sgn @ show_digits n) = Some (sgn @ show_digits n, [])"
    if "0 \<le> n" "sgn = [] \<or> sgn = ''-''" for n sgn
  proof -
    have "hd (show_digits n) \<noteq> CHR ''-''"
      using show_digits_digits [OF that(1)] show_digits_nonempty [of n]
      by (cases "show_digits n") (auto simp: is_digit_def byte_in_def byte_val_def)
    with that scan_int_show [OF that(1)] show_digits_nonempty [of n] show ?thesis
      by (cases "show_digits n") (auto simp: scan_number_def scan_frac_def scan_exp_def)
  qed
  have digit: "case show_digits n of c # _ \<Rightarrow> c = CHR ''-'' \<or> is_digit c | [] \<Rightarrow> False" if "0 \<le> n" for n
    using show_digits_digits [OF that] show_digits_nonempty [of n] by (cases "show_digits n") auto
  show ?thesis
  proof (cases "i < 0")
    case True
    with num [of "- i" "''-''"] show ?thesis by (simp add: number_text_def show_int_def)
  next
    case False
    with num [of i "[]"] digit [of i] show ?thesis by (simp add: number_text_def show_int_def)
  qed
qed

section \<open>Values\<close>

fun nesting :: "json \<Rightarrow> nat"
  and nesting_elems :: "json list \<Rightarrow> nat"
  and nesting_members :: "(string \<times> json) list \<Rightarrow> nat" where
  "nesting (JArr vs) = Suc (nesting_elems vs)"
| "nesting (JObj ms) = Suc (nesting_members ms)"
| "nesting _ = 0"
| "nesting_elems [] = 0"
| "nesting_elems (v # vs) = max (nesting v) (nesting_elems vs)"
| "nesting_members [] = 0"
| "nesting_members (m # ms) = max (nesting (snd m)) (nesting_members ms)"

text \<open>The numbers of the value are JSON numbers.\<close>

fun numbers_ok :: "json \<Rightarrow> bool"
  and numbers_ok_elems :: "json list \<Rightarrow> bool"
  and numbers_ok_members :: "(string \<times> json) list \<Rightarrow> bool" where
  "numbers_ok (JArr vs) = numbers_ok_elems vs"
| "numbers_ok (JObj ms) = numbers_ok_members ms"
| "numbers_ok (JNum t) = number_text t"
| "numbers_ok _ = True"
| "numbers_ok_elems [] = True"
| "numbers_ok_elems (v # vs) = (numbers_ok v \<and> numbers_ok_elems vs)"
| "numbers_ok_members [] = True"
| "numbers_ok_members (m # ms) = (numbers_ok (snd m) \<and> numbers_ok_members ms)"

text \<open>The value with every string repaired.\<close>

fun repaired :: "json \<Rightarrow> json"
  and repaired_elems :: "json list \<Rightarrow> json list"
  and repaired_members :: "(string \<times> json) list \<Rightarrow> (string \<times> json) list" where
  "repaired (JArr vs) = JArr (repaired_elems vs)"
| "repaired (JObj ms) = JObj (repaired_members ms)"
| "repaired (JStr s) = JStr (to_valid s)"
| "repaired JNull = JNull"
| "repaired (JBool b) = JBool b"
| "repaired (JNum t) = JNum t"
| "repaired_elems [] = []"
| "repaired_elems (v # vs) = repaired v # repaired_elems vs"
| "repaired_members [] = []"
| "repaired_members (m # ms) = (to_valid (fst m), repaired (snd m)) # repaired_members ms"

lemma skip_ws_plain: "\<not> is_ws c \<Longrightarrow> skip_ws (c # cs) = c # cs"
  by (simp add: skip_ws_def)

lemma not_ws [simp]:
  "\<not> is_ws QUOTE" "\<not> is_ws (CHR ''{'')" "\<not> is_ws (CHR ''['')" "\<not> is_ws (CHR '','')"
  "\<not> is_ws (CHR '':'')" "\<not> is_ws (CHR '']'')" "\<not> is_ws (CHR ''}'')" "\<not> is_ws (CHR ''t'')"
  "\<not> is_ws (CHR ''f'')" "\<not> is_ws (CHR ''n'')" "\<not> is_ws (CHR ''-'')"
  by (simp_all add: is_ws_def)

lemma number_head:
  assumes "number_text t"
  obtains c cs where "t = c # cs" and "\<not> is_ws c"
    and "c \<notin> {CHR ''{'', CHR ''['', QUOTE, CHR ''t'', CHR ''f'', CHR ''n'', CHR '']'', CHR ''}''}"
proof -
  obtain c cs where "t = c # cs" and "c = CHR ''-'' \<or> is_digit c"
    using assms by (auto simp: number_text_def split: list.splits)
  let ?S = "{CHR ''{'', CHR ''['', QUOTE, CHR ''t'', CHR ''f'', CHR ''n'', CHR '']'', CHR ''}'',
    CHR '' '', CHR 0x09, CHR 0x0A, CHR 0x0D}"
  have "\<not> is_digit b" if "b \<in> ?S" for b
    using that by (auto simp: is_digit_def byte_in_def byte_val_def)
  moreover have "CHR ''-'' \<notin> ?S"
    by simp
  ultimately have "c \<notin> ?S"
    using \<open>c = CHR ''-'' \<or> is_digit c\<close> by metis
  with \<open>t = c # cs\<close> that [of c cs] show thesis
    by (simp add: is_ws_def)
qed

text \<open>The first byte of an encoded value is no white space and closes nothing.\<close>

lemma encode_head:
  assumes "numbers_ok v"
  obtains c cs where "encode v = c # cs" and "\<not> is_ws c" and "c \<noteq> CHR '']''" and "c \<noteq> CHR ''}''"
proof (cases v)
  case (JNum t)
  with assms obtain c cs where "t = c # cs" "\<not> is_ws c" "c \<notin> {CHR '']'', CHR ''}''}"
    using number_head [of t] by (metis insertCI numbers_ok.simps(3))
  with JNum that show thesis by auto
next
  case (JBool b)
  with that show thesis by (cases b) auto
qed (use that in \<open>auto simp: encode_string_def split: if_splits\<close>)

lemma parse_value_encode:
  "numbers_ok v \<Longrightarrow> nesting v \<le> d \<Longrightarrow> length (encode v) \<le> n \<Longrightarrow> after_value rest \<Longrightarrow>
     parse_value n d (encode v @ rest) = Some (repaired v, rest)"
  "numbers_ok_elems vs \<Longrightarrow> nesting_elems vs \<le> d \<Longrightarrow> length (encode_elems vs) < n \<Longrightarrow> vs \<noteq> [] \<Longrightarrow>
     parse_elems n d (encode_elems vs @ CHR '']'' # rest) = Some (repaired_elems vs, rest)"
  "numbers_ok_members ms \<Longrightarrow> nesting_members ms \<le> d \<Longrightarrow> length (encode_members ms) < n \<Longrightarrow> ms \<noteq> [] \<Longrightarrow>
     parse_members n d (encode_members ms @ CHR ''}'' # rest) = Some (repaired_members ms, rest)"
proof (induction v and vs and ms arbitrary: d n rest and d n rest and d n rest
    rule: encode_encode_elems_encode_members.induct)
  case 1
  then show ?case
    by (cases n) (auto simp: skip_ws_plain scan_lit_def)
next
  case (2 b)
  then show ?case
    by (cases n) (auto simp: skip_ws_plain scan_lit_def split: if_splits)
next
  case (3 t)
  then obtain c cs where t: "t = c # cs" "\<not> is_ws c"
    "c \<notin> {CHR ''{'', CHR ''['', QUOTE, CHR ''t'', CHR ''f'', CHR ''n'', CHR '']'', CHR ''}''}"
    using number_head [of t] by auto
  have "scan_number (t @ rest) = Some (t, rest)"
    using scan_number_more [of t t "[]" rest] 3 by (simp add: number_text_def)
  with 3 t show ?case
    by (cases n) (auto simp: skip_ws_plain)
next
  case (4 s)
  then show ?case
    by (cases n) (auto simp: skip_ws_plain encode_string_def parse_encode_chars)
next
  case (5 vs)
  then obtain n' d' where n: "n = Suc n'" "d = Suc d'"
    by (cases n; cases d) auto
  show ?case
  proof (cases vs)
    case Nil
    with n show ?thesis by (simp add: skip_ws_plain)
  next
    case (Cons v vs')
    with 5(2) have "numbers_ok v" by simp
    then obtain c cs where "encode v = c # cs" "\<not> is_ws c" "c \<noteq> CHR '']''"
      by (rule encode_head)
    then obtain cs' where "encode_elems vs @ CHR '']'' # rest = c # cs'" "\<not> is_ws c" "c \<noteq> CHR '']''"
      using Cons by simp
    moreover have "parse_elems n' d' (encode_elems vs @ CHR '']'' # rest) = Some (repaired_elems vs, rest)"
      using 5 n Cons by (intro 5(1)) auto
    ultimately show ?thesis using n Cons by (simp add: skip_ws_plain)
  qed
next
  case (6 ms)
  then obtain n' d' where n: "n = Suc n'" "d = Suc d'"
    by (cases n; cases d) auto
  show ?case
  proof (cases ms)
    case Nil
    with n show ?thesis by (simp add: skip_ws_plain)
  next
    case (Cons m ms')
    then obtain cs' where "encode_members ms @ CHR ''}'' # rest = QUOTE # cs'"
      by (simp add: encode_string_def)
    moreover have "parse_members n' d' (encode_members ms @ CHR ''}'' # rest) = Some (repaired_members ms, rest)"
      using 6 n Cons by (intro 6(1)) auto
    ultimately show ?thesis using n Cons by (simp add: skip_ws_plain)
  qed
next
  case 7
  then show ?case by simp
next
  case (8 v vs)
  then obtain n' where n: "n = Suc n'" by (cases n) auto
  let ?tail = "if vs = [] then CHR '']'' # rest else CHR '','' # encode_elems vs @ CHR '']'' # rest"
  have "parse_value n' d (encode v @ ?tail) = Some (repaired v, ?tail)"
    using 8 n by (intro 8(1)) (auto split: if_splits)
  moreover have "parse_elems n' d (encode_elems vs @ CHR '']'' # rest) = Some (repaired_elems vs, rest)" if "vs \<noteq> []"
    using 8 n that by (intro 8(2)) (auto split: if_splits)
  ultimately show ?case using n by (auto simp: skip_ws_plain)
next
  case 9
  then show ?case by simp
next
  case (10 m ms)
  then obtain n' where n: "n = Suc n'" by (cases n) auto
  let ?tail = "if ms = [] then CHR ''}'' # rest else CHR '','' # encode_members ms @ CHR ''}'' # rest"
  have "parse_value n' d (encode (snd m) @ ?tail) = Some (repaired (snd m), ?tail)"
    using 10 n by (intro 10(1)) (auto split: if_splits)
  moreover have "parse_members n' d (encode_members ms @ CHR ''}'' # rest) = Some (repaired_members ms, rest)"
    if "ms \<noteq> []"
    using 10 n that by (intro 10(2)) (auto split: if_splits)
  ultimately show ?case using n by (auto simp: skip_ws_plain encode_string_def parse_encode_chars)
qed

text \<open>The strings of the value, its member names included, are UTF-8.\<close>

fun text_ok :: "json \<Rightarrow> bool"
  and text_ok_elems :: "json list \<Rightarrow> bool"
  and text_ok_members :: "(string \<times> json) list \<Rightarrow> bool" where
  "text_ok (JArr vs) = text_ok_elems vs"
| "text_ok (JObj ms) = text_ok_members ms"
| "text_ok (JStr s) = valid_utf8 s"
| "text_ok _ = True"
| "text_ok_elems [] = True"
| "text_ok_elems (v # vs) = (text_ok v \<and> text_ok_elems vs)"
| "text_ok_members [] = True"
| "text_ok_members (m # ms) = (valid_utf8 (fst m) \<and> text_ok (snd m) \<and> text_ok_members ms)"

lemma repaired_id:
  "text_ok v \<Longrightarrow> repaired v = v"
  "text_ok_elems vs \<Longrightarrow> repaired_elems vs = vs"
  "text_ok_members ms \<Longrightarrow> repaired_members ms = ms"
  by (induction v and vs and ms rule: text_ok_text_ok_elems_text_ok_members.induct)
     (auto simp: to_valid_id)

definition encodable :: "json \<Rightarrow> bool" where
  "encodable v \<longleftrightarrow> numbers_ok v \<and> nesting v \<le> max_nesting"

lemma decode_encode:
  assumes "encodable v"
  shows "decode_all (encode v) = Some (repaired v)" and "decode_first (encode v) = Some (repaired v)"
  using assms parse_value_encode(1) [of v max_nesting "Suc (length (encode v))" "[]"]
  by (simp_all add: encodable_def decode_all_def decode_first_def skip_ws_def)

end
