(* ===== verification/Duration.thy ===== *)
theory Duration
  imports Json_Text
begin

text \<open>
  Go's \<open>time.Duration\<close>, a number of nanoseconds in 64 bits, as the program prints and reads it:
  \<open>String\<close>, which the outbox hands to Postgres as an interval, and \<open>ParseDuration\<close>, which reads
  the configuration.  The two fit together: \<open>ParseDuration_String\<close>.
\<close>

section \<open>Printing\<close>

text \<open>
  \<open>time.Duration.String\<close>, digit by digit as the standard library prints it: \<open>fmtFrac\<close> drops
  trailing zeros of the fraction and the point with them.
\<close>

fun fmt_frac :: "nat \<Rightarrow> int \<Rightarrow> bool \<Rightarrow> string \<Rightarrow> string \<times> int" where
  "fmt_frac 0 v printing acc = ((if printing then CHR ''.'' # acc else acc), v)"
| "fmt_frac (Suc prec) v printing acc =
    (let digit = v mod 10; printing' = (printing \<or> digit \<noteq> 0)
     in fmt_frac prec (v div 10) printing' (if printing' then digit_char (nat digit) # acc else acc))"

definition duration_string :: "int64 \<Rightarrow> string" where
  "duration_string d =
    (let u = \<bar>sint d\<bar>;
         body =
           (if u = 0 then ''0s''
            else if u < 1000 then show_int u @ ''ns''
            else if u < 1000000 then
              (let (f, v) = fmt_frac 3 u False [] in show_int v @ f @ [CHR 0xC2, CHR 0xB5, CHR ''s''])
            else if u < 1000000000 then (let (f, v) = fmt_frac 6 u False [] in show_int v @ f @ ''ms'')
            else
              (let (f, v) = fmt_frac 9 u False [];
                   seconds = show_int (v mod 60) @ f @ ''s'';
                   minutes = v div 60
               in if minutes = 0 then seconds
                  else if minutes div 60 = 0 then show_int (minutes mod 60) @ ''m'' @ seconds
                  else show_int (minutes div 60) @ ''h'' @ show_int (minutes mod 60) @ ''m'' @ seconds))
     in if sint d < 0 then ''-'' @ body else body)"

section \<open>Floating point\<close>

text \<open>
  \<open>ParseDuration\<close> computes the fraction of a unit in \<open>float64\<close>.  A non-negative double is a pair
  \<open>(m, s)\<close>, the number \<open>m / 2^s\<close>; \<open>round53 a b\<close> is the double nearest to \<open>a / b\<close>, ties to even.
  (No exponent of the computation leaves the range of normal doubles.)
\<close>

function bit_length :: "int \<Rightarrow> int" where
  "bit_length n = (if n \<le> 0 then 0 else 1 + bit_length (n div 2))"
  by pat_completeness auto
termination
  by (relation "measure nat") auto

declare bit_length.simps [simp del]

definition log2_floor :: "int \<Rightarrow> int \<Rightarrow> int" where
  "log2_floor a b =
    (if b \<le> a then bit_length (a div b) - 1 else - bit_length ((b + a - 1) div a - 1))"

definition div_even :: "int \<Rightarrow> int \<Rightarrow> int" where
  "div_even a b =
    (let q = a div b; r = a mod b
     in if b < 2 * r \<or> (2 * r = b \<and> odd q) then q + 1 else q)"

definition round53 :: "int \<Rightarrow> int \<Rightarrow> int \<times> nat" where
  "round53 a b =
    (if a = 0 then (0, 0)
     else let t = 52 - log2_floor a b
          in if 0 \<le> t then (div_even (a * 2 ^ nat t) b, nat t)
             else (div_even a (b * 2 ^ nat (- t)) * 2 ^ nat (- t), 0))"

text \<open>\<open>uint64(float64(f) * (float64(unit) / scale))\<close>, where \<open>scale\<close> is a power of ten.\<close>

definition fraction_ns :: "int \<Rightarrow> int \<Rightarrow> int \<Rightarrow> int" where
  "fraction_ns f scale unit =
    (let (a, s) = round53 unit scale; (g, t) = round53 f 1; (m, u) = round53 (g * a) (2 ^ (s + t))
     in m div 2 ^ u)"

section \<open>Parsing\<close>

datatype duration_error = InvalidDuration | MissingUnit | UnknownUnit string

definition digit_value :: "char \<Rightarrow> int" where
  "digit_value c = int (byte_val c) - 48"

fun leading_int :: "int \<Rightarrow> string \<Rightarrow> (int \<times> string) option" where
  "leading_int x [] = Some (x, [])"
| "leading_int x (c # cs) =
    (if \<not> is_digit c then Some (x, c # cs)
     else if 2 ^ 63 div 10 < x then None
     else let y = x * 10 + digit_value c in if 2 ^ 63 < y then None else leading_int y cs)"

fun leading_fraction :: "int \<Rightarrow> int \<Rightarrow> bool \<Rightarrow> string \<Rightarrow> int \<times> int \<times> string" where
  "leading_fraction x scale ovf [] = (x, scale, [])"
| "leading_fraction x scale ovf (c # cs) =
    (if \<not> is_digit c then (x, scale, c # cs)
     else if ovf \<or> (2 ^ 63 - 1) div 10 < x then leading_fraction x scale True cs
     else let y = x * 10 + digit_value c
          in if 2 ^ 63 < y then leading_fraction x scale True cs
             else leading_fraction y (scale * 10) False cs)"

definition unit_ns :: "string \<Rightarrow> int option" where
  "unit_ns u =
    (if u = ''ns'' then Some 1
     else if u \<in> {''us'', [CHR 0xC2, CHR 0xB5, CHR ''s''], [CHR 0xCE, CHR 0xBC, CHR ''s'']} then Some 1000
     else if u = ''ms'' then Some 1000000
     else if u = ''s'' then Some 1000000000
     else if u = ''m'' then Some 60000000000
     else if u = ''h'' then Some 3600000000000
     else None)"

definition numeral_char :: "char \<Rightarrow> bool" where
  "numeral_char c \<longleftrightarrow> c = CHR ''.'' \<or> is_digit c"

text \<open>The fraction after the integer part: whether there were digits, the digits, their scale.\<close>

definition fraction_part :: "string \<Rightarrow> bool \<times> int \<times> int \<times> string" where
  "fraction_part s =
    (case s of
       c # cs \<Rightarrow>
        (if c = CHR ''.'' then
           (let (f, scale, rest) = leading_fraction 0 1 False cs in (length rest \<noteq> length cs, f, scale, rest))
         else (False, 0, 1, s))
     | [] \<Rightarrow> (False, 0, 1, []))"

text \<open>One number with its unit, in nanoseconds.\<close>

definition duration_term :: "string \<Rightarrow> duration_error + int \<times> string" where
  "duration_term s =
    (if s = [] \<or> \<not> numeral_char (hd s) then Inl InvalidDuration
     else case leading_int 0 s of
       None \<Rightarrow> Inl InvalidDuration
     | Some (v, s1) \<Rightarrow>
        (let (post, f, scale, s2) = fraction_part s1;
             u = takeWhile (\<lambda>c. \<not> numeral_char c) s2;
             rest = dropWhile (\<lambda>c. \<not> numeral_char c) s2
         in if length s1 = length s \<and> \<not> post then Inl InvalidDuration
            else if u = [] then Inl MissingUnit
            else case unit_ns u of
              None \<Rightarrow> Inl (UnknownUnit u)
            | Some unit \<Rightarrow>
               (if 2 ^ 63 div unit < v then Inl InvalidDuration
                else let ns = v * unit + (if 0 < f then fraction_ns f scale unit else 0)
                     in if 2 ^ 63 < ns then Inl InvalidDuration else Inr (ns, rest))))"

lemma leading_int_length: "leading_int x s = Some (v, r) \<Longrightarrow> length r \<le> length s"
  by (induction x s rule: leading_int.induct) (auto simp: Let_def split: if_splits)

lemma leading_fraction_length: "leading_fraction x k ovf s = (v, m, r) \<Longrightarrow> length r \<le> length s"
  by (induction x k ovf s rule: leading_fraction.induct) (auto simp: Let_def split: if_splits)

lemma duration_term_shorter:
  assumes "duration_term s = Inr (ns, rest)"
  shows "length rest < length s"
proof -
  obtain v s1 where li: "leading_int 0 s = Some (v, s1)"
    using assms by (auto simp: duration_term_def split: if_splits option.splits)
  obtain post f k s2 where fp: "fraction_part s1 = (post, f, k, s2)"
    by (metis prod.exhaust)
  have "length s2 \<le> length s1"
    using fp by (auto simp: fraction_part_def dest: leading_fraction_length split: list.splits if_splits prod.splits)
  moreover have "length s1 \<le> length s" using leading_int_length [OF li] .
  moreover have "rest = dropWhile (\<lambda>c. \<not> numeral_char c) s2" "takeWhile (\<lambda>c. \<not> numeral_char c) s2 \<noteq> []"
    using assms li fp by (auto simp: duration_term_def Let_def split: if_splits option.splits)
  moreover from this have "length rest < length s2"
    by (metis length_append length_greater_0_conv less_add_same_cancel2 takeWhile_dropWhile_id)
  ultimately show ?thesis by linarith
qed

function duration_terms :: "int \<Rightarrow> string \<Rightarrow> duration_error + int" where
  "duration_terms d s =
    (if s = [] then Inr d
     else case duration_term s of
            Inl e \<Rightarrow> Inl e
          | Inr (v, rest) \<Rightarrow>
             (let d' = (d + v) mod 2 ^ 64 in if 2 ^ 63 < d' then Inl InvalidDuration else duration_terms d' rest))"
  by pat_completeness auto
termination
  by (relation "measure (\<lambda>(d, s). length s)") (auto dest: duration_term_shorter)

declare duration_terms.simps [simp del]

text \<open>\<open>time.quote\<close>, the \<open>%q\<close> of package \<open>time\<close>.\<close>

definition time_quote :: "string \<Rightarrow> string" where
  "time_quote s = QUOTE # concat (map (\<lambda>c.
     if 128 \<le> byte_val c \<or> byte_val c < 32
     then [BACKSLASH, CHR ''x'', hex_digit (byte_val c div 16), hex_digit (byte_val c mod 16)]
     else if c = QUOTE \<or> c = BACKSLASH then [BACKSLASH, c] else [c]) s) @ [QUOTE]"

definition duration_error_text :: "string \<Rightarrow> duration_error \<Rightarrow> string" where
  "duration_error_text orig e =
    (case e of
       InvalidDuration \<Rightarrow> ''time: invalid duration '' @ time_quote orig
     | MissingUnit \<Rightarrow> ''time: missing unit in duration '' @ time_quote orig
     | UnknownUnit u \<Rightarrow> ''time: unknown unit '' @ time_quote u @ '' in duration '' @ time_quote orig)"

definition ParseDuration :: "string \<Rightarrow> int64 go" where
  "ParseDuration orig =
    (let (neg, s) = (case orig of
           c # cs \<Rightarrow> if c = CHR ''-'' then (True, cs) else if c = CHR ''+'' then (False, cs) else (False, orig)
         | [] \<Rightarrow> (False, []))
     in if s = ''0'' then Ok 0
        else if s = [] then Err (Errorf (duration_error_text orig InvalidDuration))
        else case duration_terms 0 s of
               Inl e \<Rightarrow> Err (Errorf (duration_error_text orig e))
             | Inr d \<Rightarrow>
                (if neg then Ok (- word_of_int d)
                 else if 2 ^ 63 - 1 < d then Err (Errorf (duration_error_text orig InvalidDuration))
                 else Ok (word_of_int d)))"


section \<open>Exact fractions\<close>

lemma div_even_exact: "0 < b \<Longrightarrow> div_even (q * b) b = q"
  by (simp add: div_even_def)

lemma bit_length_bound: "0 \<le> n \<Longrightarrow> n < 2 ^ k \<Longrightarrow> bit_length n \<le> int k"
proof (induction n arbitrary: k rule: bit_length.induct)
  case (1 n)
  show ?case
  proof (cases "n \<le> 0")
    case True
    then show ?thesis by (simp add: bit_length.simps [of n])
  next
    case False
    with 1(3) obtain k' where k: "k = Suc k'" by (cases k) auto
    with 1(3) have "n < 2 * 2 ^ k'" by simp
    then have "n div 2 < 2 ^ k'" by linarith
    with 1(1) [OF False, of k'] False show ?thesis
      by (subst bit_length.simps) (simp add: k)
  qed
qed

lemma round53_exact:
  assumes "0 < b" and "0 \<le> q" and "q < 2 ^ 53"
  obtains t where "round53 (q * b) b = (q * 2 ^ t, t)"
proof (cases "q = 0")
  case True
  then show thesis using that [of 0] by (simp add: round53_def)
next
  case False
  with assms(2) have "1 \<le> q" by simp
  with assms(1) have "b \<le> q * b" by simp
  then have "log2_floor (q * b) b = bit_length q - 1"
    using assms(1) by (simp add: log2_floor_def)
  with bit_length_bound [OF assms(2), of 53] assms(3) have t: "0 \<le> 52 - log2_floor (q * b) b"
    by simp
  let ?t = "nat (52 - log2_floor (q * b) b)"
  have eq: "q * b * 2 ^ ?t = q * 2 ^ ?t * b" by simp
  have "div_even (q * b * 2 ^ ?t) b = q * 2 ^ ?t"
    unfolding eq by (rule div_even_exact [OF assms(1)])
  with t False assms(1) show thesis
    by (intro that [of ?t]) (simp add: round53_def Let_def)
qed

lemma fraction_ns_exact:
  assumes "0 < scale" and "0 \<le> q" and "0 \<le> f" and "q < 2 ^ 53" and "f < 2 ^ 53" and "f * q < 2 ^ 53"
  shows "fraction_ns f scale (q * scale) = f * q"
proof -
  obtain s where s: "round53 (q * scale) scale = (q * 2 ^ s, s)"
    using round53_exact [OF assms(1,2,4)] .
  obtain t where t: "round53 f 1 = (f * 2 ^ t, t)"
    using round53_exact [of 1 f] assms(3,5) by auto
  have eq: "(f * 2 ^ t) * (q * 2 ^ s) = (f * q) * 2 ^ (s + t)"
    by (simp add: power_add)
  obtain u where u: "round53 ((f * q) * 2 ^ (s + t)) (2 ^ (s + t)) = ((f * q) * 2 ^ u, u)"
    using round53_exact [of "2 ^ (s + t)" "f * q"] assms(2,3,6) by auto
  show ?thesis
    by (simp only: fraction_ns_def s t Let_def prod.case eq u) simp
qed

section \<open>Digits\<close>

fun digits_value :: "int \<Rightarrow> string \<Rightarrow> int" where
  "digits_value x [] = x"
| "digits_value x (c # cs) = digits_value (x * 10 + digit_value c) cs"

lemma digit_value_range: "is_digit c \<Longrightarrow> 0 \<le> digit_value c \<and> digit_value c \<le> 9"
  by (simp add: is_digit_def byte_in_def digit_value_def)

lemma digits_value_append: "digits_value x (s @ t) = digits_value (digits_value x s) t"
  by (induction s arbitrary: x) auto

lemma digits_value_ge:
  "list_all is_digit ds \<Longrightarrow> 0 \<le> x \<Longrightarrow> x \<le> digits_value x ds"
proof (induction ds arbitrary: x)
  case (Cons c ds)
  have "x \<le> x * 10 + digit_value c" "0 \<le> x * 10 + digit_value c"
    using digit_value_range [of c] Cons.prems by auto
  with Cons.IH [of "x * 10 + digit_value c"] Cons.prems(1) show ?case by simp
qed simp

lemma digits_value_less:
  "list_all is_digit ds \<Longrightarrow> digits_value x ds < (x + 1) * 10 ^ length ds"
proof (induction ds arbitrary: x)
  case (Cons c ds)
  have le: "(x * 10 + digit_value c + 1) * 10 ^ length ds \<le> ((x + 1) * 10) * 10 ^ length ds"
    using digit_value_range [of c] Cons.prems by (intro mult_right_mono) auto
  have "digits_value (x * 10 + digit_value c) ds < (x * 10 + digit_value c + 1) * 10 ^ length ds"
    using Cons by simp
  from order.strict_trans2 [OF this le] have "digits_value (x * 10 + digit_value c) ds < ((x + 1) * 10) * 10 ^ length ds"
    .
  moreover have "(x + 1) * 10 * 10 ^ length ds = (x + 1) * 10 ^ length (c # ds)" by simp
  ultimately show ?case by (simp only: digits_value.simps)
qed simp

lemma digits_value_scaled:
  "digits_value x ds = x * 10 ^ length ds + digits_value 0 ds"
proof (induction ds arbitrary: x)
  case (Cons c ds)
  show ?case
    using Cons [of "x * 10 + digit_value c"] Cons [of "digit_value c"]
    by (simp add: algebra_simps)
qed simp

lemma digit_value_digit_char: "d < 10 \<Longrightarrow> digit_value (digit_char d) = int d"
  by (simp add: digit_value_def digit_char_def)

lemma digits_value_show: "0 \<le> n \<Longrightarrow> digits_value 0 (show_digits n) = n"
proof (induction n rule: show_digits.induct)
  case (1 n)
  then show ?case
    by (subst show_digits.simps) (auto simp: digits_value_append digit_value_digit_char)
qed

definition no_digit :: "string \<Rightarrow> bool" where
  "no_digit s \<longleftrightarrow> (case s of [] \<Rightarrow> True | c # _ \<Rightarrow> \<not> is_digit c)"

lemma leading_int_digits:
  "list_all is_digit ds \<Longrightarrow> no_digit rest \<Longrightarrow> 0 \<le> x \<Longrightarrow> digits_value x ds \<le> 2 ^ 63 \<Longrightarrow>
     leading_int x (ds @ rest) = Some (digits_value x ds, rest)"
proof (induction ds arbitrary: x)
  case Nil
  then show ?case by (cases rest) (auto simp: no_digit_def)
next
  case (Cons c ds)
  let ?y = "x * 10 + digit_value c"
  have c: "is_digit c" "0 \<le> digit_value c" using Cons.prems(1) digit_value_range [of c] by auto
  with digits_value_ge [of ds ?y] Cons.prems have "?y \<le> 2 ^ 63" by simp
  with c Cons.prems Cons.IH [of ?y] show ?case by (simp add: Let_def)
qed

lemma leading_fraction_digits:
  "list_all is_digit ds \<Longrightarrow> no_digit rest \<Longrightarrow> 0 \<le> x \<Longrightarrow> digits_value x ds < 2 ^ 62 \<Longrightarrow>
     leading_fraction x k False (ds @ rest) = (digits_value x ds, k * 10 ^ length ds, rest)"
proof (induction ds arbitrary: x k)
  case Nil
  then show ?case by (cases rest) (auto simp: no_digit_def)
next
  case (Cons c ds)
  let ?y = "x * 10 + digit_value c"
  have c: "is_digit c" "0 \<le> digit_value c" using Cons.prems(1) digit_value_range [of c] by auto
  with digits_value_ge [of ds ?y] Cons.prems have "?y < 2 ^ 62" by simp
  with c Cons.prems Cons.IH [of ?y "k * 10"] show ?case by (simp add: Let_def)
qed

text \<open>What \<open>fmtFrac\<close> prints: nothing, or the point and digits that stand for the fraction.\<close>

definition frac_text :: "nat \<Rightarrow> int \<Rightarrow> string \<Rightarrow> bool" where
  "frac_text prec r f \<longleftrightarrow>
    (if r = 0 then f = []
     else \<exists>ds k. f = CHR ''.'' # ds \<and> ds \<noteq> [] \<and> list_all is_digit ds \<and> length ds + k = prec \<and>
       digits_value 0 ds * 10 ^ k = r)"

lemma fmt_frac_printing:
  "0 \<le> v \<Longrightarrow> list_all is_digit acc \<Longrightarrow> acc \<noteq> [] \<Longrightarrow>
     \<exists>ds. fmt_frac prec v True acc = (CHR ''.'' # ds, v div 10 ^ prec) \<and> ds \<noteq> [] \<and>
       list_all is_digit ds \<and> length ds = prec + length acc \<and>
       digits_value 0 ds = (v mod 10 ^ prec) * 10 ^ length acc + digits_value 0 acc"
proof (induction prec arbitrary: v acc)
  case (Suc prec)
  let ?acc = "digit_char (nat (v mod 10)) # acc"
  have "list_all is_digit ?acc" using Suc.prems by (simp add: is_digit_digit_char)
  moreover have "0 \<le> v div 10" using Suc.prems(1) by linarith
  ultimately obtain ds where
    ds: "fmt_frac prec (v div 10) True ?acc = (CHR ''.'' # ds, v div 10 div 10 ^ prec)" "ds \<noteq> []"
      "list_all is_digit ds" "length ds = prec + Suc (length acc)"
      "digits_value 0 ds = (v div 10 mod 10 ^ prec) * 10 ^ Suc (length acc) + digits_value 0 ?acc"
    using Suc.IH [of "v div 10" ?acc] by auto
  have "digits_value 0 ?acc = v mod 10 * 10 ^ length acc + digits_value 0 acc"
    using digits_value_scaled [of "v mod 10" acc] by (simp add: digit_value_digit_char)
  moreover have "v mod 10 ^ Suc prec = 10 * (v div 10 mod 10 ^ prec) + v mod 10"
    by (simp add: zmod_zmult2_eq)
  ultimately show ?case
    using ds by (simp add: zdiv_zmult2_eq algebra_simps)
qed simp

lemma fmt_frac_text:
  "0 \<le> v \<Longrightarrow> \<exists>f. fmt_frac prec v False [] = (f, v div 10 ^ prec) \<and> frac_text prec (v mod 10 ^ prec) f"
proof (induction prec arbitrary: v)
  case 0
  then show ?case by (simp add: frac_text_def)
next
  case (Suc prec)
  have split: "v mod 10 ^ Suc prec = 10 * (v div 10 mod 10 ^ prec) + v mod 10"
    by (simp add: zmod_zmult2_eq)
  show ?case
  proof (cases "v mod 10 = 0")
    case True
    have "0 \<le> v div 10" using Suc.prems by linarith
    with Suc.IH [of "v div 10"] obtain f where
      f: "fmt_frac prec (v div 10) False [] = (f, v div 10 div 10 ^ prec)"
        "frac_text prec (v div 10 mod 10 ^ prec) f" by auto
    have "frac_text (Suc prec) (10 * r) f" if "frac_text prec r f" for r
    proof (cases "r = 0")
      case False
      with that obtain ds k where "f = CHR ''.'' # ds" "ds \<noteq> []" "list_all is_digit ds" "length ds + k = prec"
        "digits_value 0 ds * 10 ^ k = r" by (auto simp: frac_text_def)
      with False show ?thesis
        by (auto simp: frac_text_def intro!: exI [of _ ds] exI [of _ "Suc k"])
    qed (use that in \<open>simp add: frac_text_def\<close>)
    with f split True show ?thesis by (simp add: zdiv_zmult2_eq)
  next
    case False
    let ?acc = "[digit_char (nat (v mod 10))]"
    have "list_all is_digit ?acc" by (simp add: is_digit_digit_char)
    moreover have "0 \<le> v div 10" using Suc.prems by linarith
    ultimately obtain ds where
      "fmt_frac prec (v div 10) True ?acc = (CHR ''.'' # ds, v div 10 div 10 ^ prec)" "ds \<noteq> []"
      "list_all is_digit ds" "length ds = Suc prec"
      "digits_value 0 ds = (v div 10 mod 10 ^ prec) * 10 + v mod 10"
      using fmt_frac_printing [of "v div 10" ?acc prec] by (auto simp: digit_value_digit_char)
    moreover have "v mod 10 ^ Suc prec \<noteq> 0"
      using False mod_mod_cancel [of 10 "10 ^ Suc prec" v] by auto
    ultimately show ?thesis
      using False split by (auto simp: frac_text_def zdiv_zmult2_eq Let_def)
  qed
qed

section \<open>Reading a duration back\<close>

lemma is_digit_numeral: "is_digit c \<Longrightarrow> numeral_char c"
  by (simp add: numeral_char_def)

text \<open>The unit texts, and what may follow one.\<close>

definition unit_text :: "string \<Rightarrow> int \<Rightarrow> bool" where
  "unit_text u unit \<longleftrightarrow> unit_ns u = Some unit \<and> list_all (\<lambda>c. \<not> numeral_char c) u \<and> u \<noteq> [] \<and> 0 < unit"

definition next_term :: "string \<Rightarrow> bool" where
  "next_term s \<longleftrightarrow> (case s of [] \<Rightarrow> True | c # _ \<Rightarrow> is_digit c)"

lemma unit_texts:
  "unit_text ''ns'' 1" "unit_text [CHR 0xC2, CHR 0xB5, CHR ''s''] 1000" "unit_text ''ms'' 1000000"
  "unit_text ''s'' 1000000000" "unit_text ''m'' 60000000000" "unit_text ''h'' 3600000000000"
  by (simp_all add: unit_text_def unit_ns_def numeral_char_def is_digit_def byte_in_def byte_val_def)

lemma unit_spans:
  assumes "unit_text u unit" and "next_term rest"
  shows "takeWhile (\<lambda>c. \<not> numeral_char c) (u @ rest) = u"
    and "dropWhile (\<lambda>c. \<not> numeral_char c) (u @ rest) = rest"
    and "no_digit (u @ rest)" and "hd (u @ rest) \<noteq> CHR ''.''"
proof -
  have r: "rest = [] \<or> numeral_char (hd rest)"
    using assms(2) by (auto simp: next_term_def is_digit_numeral split: list.splits)
  have u: "\<forall>c \<in> set u. \<not> numeral_char c" "u \<noteq> []"
    using assms(1) by (auto simp: unit_text_def list_all_iff)
  show "takeWhile (\<lambda>c. \<not> numeral_char c) (u @ rest) = u"
    using r u(1) by (cases rest) (auto simp: takeWhile_append2)
  show "dropWhile (\<lambda>c. \<not> numeral_char c) (u @ rest) = rest"
    using r u(1) by (cases rest) (auto simp: dropWhile_append2)
  show "no_digit (u @ rest)" "hd (u @ rest) \<noteq> CHR ''.''"
    using u by (cases u; auto simp: no_digit_def numeral_char_def)+
qed

lemma duration_term_text:
  assumes "0 \<le> v" and "v \<le> 2 ^ 63 div unit" and "unit_text u unit" and "next_term rest"
    and "frac_text prec r f" and "f = [] \<or> unit = 10 ^ prec" and "prec \<le> 9"
    and "v * unit + r \<le> 2 ^ 63"
  shows "duration_term (show_int v @ f @ u @ rest) = Inr (v * unit + r, rest)"
proof -
  note spans = unit_spans [OF assms(3,4)]
  let ?ds = "show_digits v"
  have digits: "list_all is_digit ?ds" "?ds \<noteq> []" "is_digit (hd ?ds)" "digits_value 0 ?ds = v"
    using show_digits_digits [OF assms(1)] digits_value_show [OF assms(1)]
    by (auto simp: list_all_iff)
  have unit: "unit_ns u = Some unit" "u \<noteq> []" "0 < unit" using assms(3) by (auto simp: unit_text_def)
  have "v \<le> 2 ^ 63"
    using assms(2) unit(3) by (meson div_by_1 dual_order.trans int_div_le_self zero_less_numeral zero_less_power)
  moreover have "no_digit (f @ u @ rest)"
    using assms(5) spans(3) by (auto simp: frac_text_def no_digit_def is_digit_def byte_in_def byte_val_def
        split: if_splits)
  ultimately have li: "leading_int 0 (?ds @ f @ u @ rest) = Some (v, f @ u @ rest)"
    using leading_int_digits [of ?ds "f @ u @ rest" 0] digits by simp
  have head: "numeral_char (hd (?ds @ f @ u @ rest))" "length (f @ u @ rest) \<noteq> length (?ds @ f @ u @ rest)"
    using digits by (auto simp: is_digit_numeral)
  have fr: "\<exists>post x k. fraction_part (f @ u @ rest) = (post, x, k, u @ rest) \<and>
      (if 0 < x then fraction_ns x k unit else 0) = r"
  proof (cases "r = 0")
    case True
    with assms(5) have "f = []" by (simp add: frac_text_def)
    with True spans(4) unit(2) show ?thesis
      by (cases u) (auto simp: fraction_part_def)
  next
    case False
    with assms(5) obtain ds k where f: "f = CHR ''.'' # ds" "ds \<noteq> []" "list_all is_digit ds"
      "length ds + k = prec" "digits_value 0 ds * 10 ^ k = r"
      by (auto simp: frac_text_def)
    let ?x = "digits_value 0 ds"
    have unit': "unit = 10 ^ k * 10 ^ length ds"
      using assms(6) f(1,4) by (auto simp: power_add [symmetric] add.commute)
    have x: "0 \<le> ?x" "?x < 10 ^ length ds"
      using digits_value_ge [OF f(3)] digits_value_less [OF f(3), of 0] by simp_all
    have pow: "(10 :: int) ^ length ds \<le> 10 ^ 9" "(10 :: int) ^ k \<le> 10 ^ 9"
      using f(4) assms(7) power_increasing [of "length ds" 9 "10 :: int"] power_increasing [of k 9 "10 :: int"]
        power_increasing [of prec 9 "10 :: int"]
      by simp_all
    have "?x * 10 ^ k < 10 ^ length ds * 10 ^ k" using x by simp
    moreover have "(10 :: int) ^ length ds * 10 ^ k \<le> 10 ^ 9"
      using f(4) assms(7) power_increasing [of prec 9 "10 :: int"] by (simp add: power_add [symmetric])
    ultimately have "?x * 10 ^ k < 10 ^ 9" by (rule order.strict_trans2)
    then have small: "?x * 10 ^ k < 2 ^ 53" by simp
    have "fraction_ns ?x (10 ^ length ds) unit = ?x * 10 ^ k"
      unfolding unit' using x small pow
      by (intro fraction_ns_exact) auto
    moreover have "leading_fraction 0 1 False (ds @ u @ rest) = (?x, 10 ^ length ds, u @ rest)"
      using leading_fraction_digits [OF f(3) spans(3), of 0 1] x pow(1) by simp
    moreover have "0 < ?x" using False f(5) x(1) by (cases "?x = 0") auto
    ultimately show ?thesis
      using f by (auto simp: fraction_part_def)
  qed
  then obtain post x k where fp: "fraction_part (f @ u @ rest) = (post, x, k, u @ rest)"
      "(if 0 < x then fraction_ns x k unit else 0) = r" by blast
  have "show_int v = ?ds" using assms(1) by (simp add: show_int_def)
  with assms(2,8) li head digits(2) unit spans(1,2) fp show ?thesis
    by (simp add: duration_term_def Let_def)
qed

lemma duration_terms_step:
  assumes "duration_term s = Inr (v, rest)" and "0 \<le> d" and "0 \<le> v" and "d + v \<le> 2 ^ 63"
  shows "duration_terms d s = duration_terms (d + v) rest"
proof -
  have "s \<noteq> []" using assms(1) by (auto simp: duration_term_def)
  moreover have "(d + v) mod 2 ^ 64 = d + v" using assms(2-4) by (intro mod_pos_pos_trivial) auto
  ultimately show ?thesis
    using assms(1,4) by (subst duration_terms.simps) (simp add: Let_def)
qed

lemma duration_terms_Nil: "duration_terms d [] = Inr d"
  by (simp add: duration_terms.simps)

lemma next_term_show: "0 \<le> n \<Longrightarrow> next_term (show_int n @ t)"
  using show_digits_digits [of n] show_digits_nonempty [of n]
  by (cases "show_digits n") (auto simp: next_term_def show_int_def)

text \<open>Whole numbers of a unit, and the last term with its fraction.\<close>

lemma whole_term:
  assumes "0 \<le> v" and "0 \<le> d" and "d + v * unit \<le> 2 ^ 63" and "unit_text u unit" and "next_term rest"
  shows "duration_terms d (show_int v @ u @ rest) = duration_terms (d + v * unit) rest"
proof -
  have unit: "0 < unit" using assms(4) by (simp add: unit_text_def)
  then have "v * unit div unit \<le> 2 ^ 63 div unit"
    using assms(2,3) by (intro zdiv_mono1) auto
  with unit have "v \<le> 2 ^ 63 div unit" by simp
  with duration_term_text [of v unit u rest 0 0 "[]"] assms unit show ?thesis
    by (intro duration_terms_step) (auto simp: frac_text_def)
qed

lemma last_term:
  assumes "0 \<le> v" and "0 \<le> d" and "0 \<le> r" and "d + v * 10 ^ prec + r \<le> 2 ^ 63" and "unit_text u (10 ^ prec)"
    and "frac_text prec r f" and "prec \<le> 9"
  shows "duration_terms d (show_int v @ f @ u) = Inr (d + v * 10 ^ prec + r)"
proof -
  have "v * 10 ^ prec div 10 ^ prec \<le> 2 ^ 63 div 10 ^ prec"
    using assms(2-4) by (intro zdiv_mono1) auto
  then have "v \<le> 2 ^ 63 div 10 ^ prec" by simp
  with duration_term_text [of v "10 ^ prec" u "[]" prec r f] assms
  have "duration_term (show_int v @ f @ u) = Inr (v * 10 ^ prec + r, [])"
    by (simp add: next_term_def)
  from duration_terms_step [OF this assms(2)] assms show ?thesis
    by (simp add: duration_terms_Nil add.assoc)
qed

text \<open>The text of a duration, without its sign.\<close>

definition duration_body :: "int \<Rightarrow> string" where
  "duration_body u =
    (if u = 0 then ''0s''
     else if u < 1000 then show_int u @ ''ns''
     else if u < 1000000 then
       (let (f, v) = fmt_frac 3 u False [] in show_int v @ f @ [CHR 0xC2, CHR 0xB5, CHR ''s''])
     else if u < 1000000000 then (let (f, v) = fmt_frac 6 u False [] in show_int v @ f @ ''ms'')
     else
       (let (f, v) = fmt_frac 9 u False [];
            seconds = show_int (v mod 60) @ f @ ''s'';
            minutes = v div 60
        in if minutes = 0 then seconds
           else if minutes div 60 = 0 then show_int (minutes mod 60) @ ''m'' @ seconds
           else show_int (minutes div 60) @ ''h'' @ show_int (minutes mod 60) @ ''m'' @ seconds))"

lemma duration_string_body:
  "duration_string d = (if sint d < 0 then ''-'' @ duration_body (- sint d) else duration_body (sint d))"
  by (simp add: duration_string_def duration_body_def Let_def abs_if)

lemma clock_text:
  assumes "0 \<le> h" and "0 \<le> m" and "0 \<le> sec" and "0 \<le> r" and "frac_text 9 r f"
    and "u = ((h * 60 + m) * 60 + sec) * 1000000000 + r" and "u \<le> 2 ^ 63"
  shows "h = 0 \<Longrightarrow> m = 0 \<Longrightarrow> duration_terms 0 (show_int sec @ f @ ''s'') = Inr u"
    and "h = 0 \<Longrightarrow> duration_terms 0 (show_int m @ ''m'' @ show_int sec @ f @ ''s'') = Inr u"
    and "duration_terms 0 (show_int h @ ''h'' @ show_int m @ ''m'' @ show_int sec @ f @ ''s'') = Inr u"
proof -
  have s: "duration_terms d (show_int sec @ f @ ''s'') = Inr u" if "d = (h * 60 + m) * 60000000000" for d
  proof -
    have "d + sec * 10 ^ 9 + r = u" using assms(6) that by (simp add: algebra_simps)
    with last_term [of sec d r 9 "''s''" f] assms that unit_texts(4) show ?thesis by simp
  qed
  have m: "duration_terms d (show_int m @ ''m'' @ show_int sec @ f @ ''s'') = Inr u"
    if "d = h * 3600000000000" for d
  proof -
    have d: "d + m * 60000000000 = (h * 60 + m) * 60000000000" using that by (simp add: algebra_simps)
    moreover have "(h * 60 + m) * 60000000000 \<le> 2 ^ 63" using assms(3,4,6,7) by (simp add: algebra_simps)
    ultimately show ?thesis
      using whole_term [of m d 60000000000 "''m''" "show_int sec @ f @ ''s''"] assms(1-3) that
        unit_texts(5) next_term_show s by simp
  qed
  have "h * 3600000000000 \<le> 2 ^ 63" using assms(2-4,6,7) by (simp add: algebra_simps)
  then show "duration_terms 0 (show_int h @ ''h'' @ show_int m @ ''m'' @ show_int sec @ f @ ''s'') = Inr u"
    using whole_term [of h 0 3600000000000 "''h''" "show_int m @ ''m'' @ show_int sec @ f @ ''s''"]
      assms(1,2) unit_texts(6) next_term_show m by simp
  show "h = 0 \<Longrightarrow> m = 0 \<Longrightarrow> duration_terms 0 (show_int sec @ f @ ''s'') = Inr u"
    "h = 0 \<Longrightarrow> duration_terms 0 (show_int m @ ''m'' @ show_int sec @ f @ ''s'') = Inr u"
    using s [of 0] m [of 0] by simp_all
qed

lemma duration_terms_body:
  assumes "0 \<le> u" and "u \<le> 2 ^ 63"
  shows "duration_terms 0 (duration_body u) = Inr u"
proof -
  consider "u = 0" | "0 < u" "u < 1000" | "1000 \<le> u" "u < 1000000" | "1000000 \<le> u" "u < 1000000000"
    | "1000000000 \<le> u"
    using assms(1) by linarith
  then show ?thesis
  proof cases
    case 1
    then show ?thesis
      using whole_term [of 0 0 1000000000 "''s''" "[]"] unit_texts(4)
      by (simp add: duration_body_def next_term_def duration_terms_Nil show_int_def show_digits.simps
          digit_char_def char_of_bytes)
  next
    case 2
    with whole_term [of u 0 1 "''ns''" "[]"] unit_texts(1) assms show ?thesis
      by (simp add: duration_body_def next_term_def duration_terms_Nil)
  next
    case 3
    obtain f where f: "fmt_frac 3 u False [] = (f, u div 10 ^ 3)" "frac_text 3 (u mod 10 ^ 3) f"
      using fmt_frac_text [OF assms(1)] by blast
    have "duration_terms 0 (show_int (u div 10 ^ 3) @ f @ [CHR 0xC2, CHR 0xB5, CHR ''s'']) =
        Inr (0 + u div 10 ^ 3 * 10 ^ 3 + u mod 10 ^ 3)"
      using assms f(2) unit_texts(2) by (intro last_term) (auto simp: pos_imp_zdiv_nonneg_iff)
    with 3 f(1) show ?thesis by (simp add: duration_body_def)
  next
    case 4
    obtain f where f: "fmt_frac 6 u False [] = (f, u div 10 ^ 6)" "frac_text 6 (u mod 10 ^ 6) f"
      using fmt_frac_text [OF assms(1)] by blast
    have "duration_terms 0 (show_int (u div 10 ^ 6) @ f @ ''ms'') =
        Inr (0 + u div 10 ^ 6 * 10 ^ 6 + u mod 10 ^ 6)"
      using assms f(2) unit_texts(3) by (intro last_term) (auto simp: pos_imp_zdiv_nonneg_iff)
    with 4 f(1) show ?thesis by (simp add: duration_body_def)
  next
    case 5
    obtain f where f: "fmt_frac 9 u False [] = (f, u div 10 ^ 9)" "frac_text 9 (u mod 10 ^ 9) f"
      using fmt_frac_text [OF assms(1)] by blast
    define v where "v = u div 1000000000"
    define m where "m = v div 60"
    have pos: "0 \<le> v" "0 \<le> m" using assms(1) by (simp_all add: v_def m_def pos_imp_zdiv_nonneg_iff)
    have "u = v * 1000000000 + u mod 1000000000" "v = m * 60 + v mod 60" "m = m div 60 * 60 + m mod 60"
      by (simp_all add: v_def m_def)
    then have hms: "u = ((m div 60 * 60 + m mod 60) * 60 + v mod 60) * 1000000000 + u mod 1000000000"
      by metis
    note clock = clock_text [OF _ _ _ _ f(2) _ assms(2), of "m div 60" "m mod 60" "v mod 60"]
    have "duration_body u =
        (if m = 0 then show_int (v mod 60) @ f @ ''s''
         else if m div 60 = 0 then show_int (m mod 60) @ ''m'' @ show_int (v mod 60) @ f @ ''s''
         else show_int (m div 60) @ ''h'' @ show_int (m mod 60) @ ''m'' @ show_int (v mod 60) @ f @ ''s'')"
      using 5 f(1) by (simp add: duration_body_def Let_def v_def m_def)
    moreover have "0 \<le> m div 60" "0 \<le> m mod 60" "0 \<le> v mod 60" "0 \<le> u mod 10 ^ 9"
      using pos(2) by (simp_all add: pos_imp_zdiv_nonneg_iff)
    ultimately show ?thesis
      using clock hms by (simp split: if_split)
  qed
qed

lemma duration_terms_head:
  assumes "duration_terms 0 s = Inr u" and "s \<noteq> []"
  shows "numeral_char (hd s)" and "s \<noteq> ''0''"
proof -
  show "numeral_char (hd s)"
    using assms by (subst (asm) duration_terms.simps) (auto simp: duration_term_def split: if_splits)
  have "duration_terms 0 ''0'' = Inl MissingUnit" by code_simp
  with assms(1) show "s \<noteq> ''0''" by auto
qed

lemma duration_body_nonempty: "duration_body u \<noteq> []"
  by (simp add: duration_body_def Let_def split: prod.splits)

lemma ParseDuration_String: "ParseDuration (duration_string d) = Ok d"
proof -
  let ?u = "\<bar>sint d\<bar>"
  have range: "- (2 ^ 63) \<le> sint d" "sint d < 2 ^ 63"
    using sint_ge [of d] sint_lt [of d] by simp_all
  have body: "duration_terms 0 (duration_body ?u) = Inr ?u"
    using range by (intro duration_terms_body) auto
  note head = duration_terms_head [OF body duration_body_nonempty]
  have "\<not> numeral_char (CHR ''-'')" "\<not> numeral_char (CHR ''+'')"
    by (simp_all add: numeral_char_def is_digit_def byte_in_def byte_val_def)
  with head(1) obtain c cs where c: "duration_body ?u = c # cs" "c \<noteq> CHR ''-''" "c \<noteq> CHR ''+''"
    using duration_body_nonempty [of ?u] by (cases "duration_body ?u") auto
  show ?thesis
  proof (cases "sint d < 0")
    case True
    then have "duration_string d = CHR ''-'' # c # cs"
      using c(1) by (simp add: duration_string_body)
    moreover have "- word_of_int ?u = d"
      using True by (simp flip: of_int_minus) 
    ultimately show ?thesis
      using body head c by (auto simp: ParseDuration_def Let_def)
  next
    case False
    then have "duration_string d = c # cs"
      using c(1) by (simp add: duration_string_body)
    moreover have "word_of_int ?u = d" using False by simp
    ultimately show ?thesis
      using body head c range False by (auto simp: ParseDuration_def Let_def)
  qed
qed
end
