(* ===== verification/Outbox.thy ===== *)
theory Outbox
  imports Json Database Duration
begin

text \<open>
  \<open>internal/outbox\<close>: events appended in the transaction of the change they report, and the publisher
  that drains them into a sink with retries, exponential backoff and dead lettering.  A sink is any
  operation that does not write the database; the locale \<open>sink\<close> states that and carries the
  publisher's lemmas, \<open>LogSink\<close> interprets it.
\<close>

section \<open>Events\<close>

definition outbox_StatusPending :: string where "outbox_StatusPending = ''pending''"
definition outbox_StatusPublished :: string where "outbox_StatusPublished = ''published''"
definition outbox_StatusRetrying :: string where "outbox_StatusRetrying = ''retrying''"
definition outbox_StatusDeadLettered :: string where "outbox_StatusDeadLettered = ''dead_lettered''"

lemmas event_status_defs =
  outbox_StatusPending_def outbox_StatusPublished_def outbox_StatusRetrying_def outbox_StatusDeadLettered_def

record event =
  e_id :: string
  e_aggregate_type :: string
  e_aggregate_id :: string
  e_event_type :: string
  e_payload :: string

definition NewEvent ::
  "platform \<Rightarrow> string \<Rightarrow> string \<Rightarrow> string \<Rightarrow> goval \<Rightarrow> world \<Rightarrow> event go \<times> world" where
  "NewEvent pf aggregateType aggregateID eventType payload w =
    (case json_Marshal payload of
       Err e \<Rightarrow> (Err (Wrapf (''outbox: marshal '' @ eventType @ '' payload: '') e []), w)
     | Panic p \<Rightarrow> (Panic p, w)
     | Ok body \<Rightarrow>
        (let (u, w1) = new_uuid pf w
         in (Ok \<lparr>e_id = u, e_aggregate_type = aggregateType, e_aggregate_id = aggregateID,
                 e_event_type = eventType, e_payload = body\<rparr>, w1)))"

text \<open>The \<open>INSERT\<close> of \<open>Append\<close>: the table's defaults fill the other columns.\<close>

definition new_event_row :: "int \<Rightarrow> event \<Rightarrow> string \<Rightarrow> event_row" where
  "new_event_row now e payload =
    \<lparr>ev_id = e_id e, ev_aggregate_type = e_aggregate_type e, ev_aggregate_id = e_aggregate_id e,
     ev_event_type = e_event_type e, ev_payload = payload, ev_status = ''pending'',
     ev_retry_count = 0, ev_next_attempt_at = now, ev_created_at = now,
     ev_published_at = None, ev_last_error = None\<rparr>"

definition sql_insert_event :: "platform \<Rightarrow> int \<Rightarrow> event \<Rightarrow> unit stmt" where
  "sql_insert_event pf now e d =
    (case pf_jsonb pf (e_payload e) of
       None \<Rightarrow> Inl (Driver ''invalid input syntax for type json'')
     | Some payload \<Rightarrow>
        (if find_row ev_id (e_id e) (outbox_events d) \<noteq> None
         then Inl (Driver ''duplicate key value violates unique constraint outbox_events_pkey'')
         else Inr ((), d\<lparr>outbox_events := outbox_events d @ [new_event_row now e payload]\<rparr>)))"

fun Append :: "platform \<Rightarrow> event list \<Rightarrow> world \<Rightarrow> unit go \<times> world" where
  "Append pf [] w = (Ok (), w)"
| "Append pf (e # es) w =
    (case driver_call True (sql_insert_event pf (clock w) e) w of
       (Err er, w1) \<Rightarrow> (Err (Wrapf (''outbox: append '' @ e_event_type e @ '': '') er []), w1)
     | (Panic p, w1) \<Rightarrow> (Panic p, w1)
     | (Ok _, w1) \<Rightarrow> Append pf es w1)"

section \<open>The publisher\<close>

record publisher_options =
  po_Interval :: int64
  po_BatchSize :: int
  po_MaxRetries :: int
  po_BaseBackoff :: int64

record claimed =
  cl_event :: event
  cl_retry_count :: int

definition event_of :: "event_row \<Rightarrow> event" where
  "event_of r =
    \<lparr>e_id = ev_id r, e_aggregate_type = ev_aggregate_type r, e_aggregate_id = ev_aggregate_id r,
     e_event_type = ev_event_type r, e_payload = ev_payload r\<rparr>"

definition claimed_of :: "event_row \<Rightarrow> claimed" where
  "claimed_of r = \<lparr>cl_event = event_of r, cl_retry_count = ev_retry_count r\<rparr>"

lemma claimed_of_simps [simp]:
  "e_id (cl_event (claimed_of r)) = ev_id r"
  "e_event_type (cl_event (claimed_of r)) = ev_event_type r"
  "cl_event (claimed_of r) = event_of r"
  "cl_retry_count (claimed_of r) = ev_retry_count r"
  "e_id (event_of r) = ev_id r" "e_event_type (event_of r) = ev_event_type r"
  by (simp_all add: claimed_of_def event_of_def)

text \<open>
  The query of \<open>claim\<close>: the rows that are due, oldest first, without those other transactions have
  locked (\<open>locked\<close> holds their ids), and at most \<open>batchSize\<close> of them.
\<close>

definition due :: "int \<Rightarrow> event_row \<Rightarrow> bool" where
  "due now r \<longleftrightarrow> (ev_status r = ''pending'' \<or> ev_status r = ''retrying'') \<and> ev_next_attempt_at r \<le> now"

definition batch_rows :: "int \<Rightarrow> string list \<Rightarrow> int \<Rightarrow> event_row list \<Rightarrow> event_row list" where
  "batch_rows now locked batchSize rows =
    take (nat batchSize)
      (sort_by (\<lambda>a b. ev_created_at a \<le> ev_created_at b)
        (filter (\<lambda>r. due now r \<and> ev_id r \<notin> set locked) rows))"

definition sql_claim_batch :: "int \<Rightarrow> string list \<Rightarrow> int \<Rightarrow> claimed list stmt" where
  "sql_claim_batch now locked batchSize d =
    (if batchSize < 0 then Inl (Driver ''LIMIT must not be negative'')
     else Inr (map claimed_of (batch_rows now locked batchSize (outbox_events d)), d))"

definition claim_batch :: "string list \<Rightarrow> int \<Rightarrow> world \<Rightarrow> claimed list go \<times> world" where
  "claim_batch locked batchSize w =
    (case driver_call True (sql_claim_batch (clock w) locked batchSize) w of
       (Err e, w1) \<Rightarrow> (Err (Wrapf ''outbox: claim: '' e []), w1)
     | (Panic p, w1) \<Rightarrow> (Panic p, w1)
     | (Ok batch, w1) \<Rightarrow> (Ok batch, w1))"

definition published_row :: "int \<Rightarrow> event_row \<Rightarrow> event_row" where
  "published_row now r =
    r\<lparr>ev_status := ''published'', ev_published_at := Some now, ev_last_error := None\<rparr>"

definition sql_mark_published :: "int \<Rightarrow> string \<Rightarrow> unit stmt" where
  "sql_mark_published now eid d =
    Inr ((), d\<lparr>outbox_events :=
      update_rows (\<lambda>r. ev_id r = eid) (published_row now) (outbox_events d)\<rparr>)"

definition markPublished :: "string \<Rightarrow> world \<Rightarrow> unit go \<times> world" where
  "markPublished eid w =
    (case driver_call True (sql_mark_published (clock w) eid) w of
       (Err e, w1) \<Rightarrow> (Err (Wrapf ''outbox: mark published: '' e []), w1)
     | (Panic p, w1) \<Rightarrow> (Panic p, w1)
     | (Ok _, w1) \<Rightarrow> (Ok (), w1))"

definition failed_row :: "int \<Rightarrow> string \<Rightarrow> int \<Rightarrow> string \<Rightarrow> int \<Rightarrow> event_row \<Rightarrow> event_row" where
  "failed_row now status attempt cause wait r =
    r\<lparr>ev_status := status, ev_retry_count := attempt, ev_last_error := Some cause,
      ev_next_attempt_at := now + wait\<rparr>"

definition sql_record_failure ::
  "platform \<Rightarrow> int \<Rightarrow> string \<Rightarrow> string \<Rightarrow> int \<Rightarrow> string \<Rightarrow> string \<Rightarrow> unit stmt" where
  "sql_record_failure pf now eid status attempt cause backoff d =
    (case pf_interval pf backoff of
       None \<Rightarrow> Inl (Driver ''invalid input syntax for type interval'')
     | Some wait \<Rightarrow>
        (if \<not> fits_int4 attempt then Inl (Driver ''retry_count is out of range for int4'')
         else Inr ((), d\<lparr>outbox_events :=
                update_rows (\<lambda>r. ev_id r = eid) (failed_row now status attempt cause wait)
                  (outbox_events d)\<rparr>)))"

text \<open>\<open>BaseBackoff << min(attempt-1, 16)\<close>; a negative shift count panics.\<close>

definition backoff_for :: "publisher_options \<Rightarrow> int \<Rightarrow> int64 go" where
  "backoff_for opts attempt =
    (let shift = min (attempt - 1) 16
     in if shift < 0 then Panic ''runtime error: negative shift amount''
        else Ok (push_bit (nat shift) (po_BaseBackoff opts)))"

definition failure_status :: "publisher_options \<Rightarrow> int \<Rightarrow> string" where
  "failure_status opts attempt =
    (if po_MaxRetries opts \<le> attempt then outbox_StatusDeadLettered else outbox_StatusRetrying)"

definition recordFailure ::
  "platform \<Rightarrow> publisher_options \<Rightarrow> claimed \<Rightarrow> error \<Rightarrow> world \<Rightarrow> unit go \<times> world" where
  "recordFailure pf opts c cause w =
    (let attempt = cl_retry_count c + 1;
         status = failure_status opts attempt;
         w0 = (if po_MaxRetries opts \<le> attempt
               then emit (LogDeadLettered (e_id (cl_event c)) (e_event_type (cl_event c)) attempt
                            (error_text cause)) w
               else w)
     in case backoff_for opts attempt of
          Ok backoff \<Rightarrow>
            (case driver_call True
                    (sql_record_failure pf (clock w0) (e_id (cl_event c)) status attempt
                       (error_text cause) (duration_string backoff)) w0 of
               (Err e, w1) \<Rightarrow> (Err (Wrapf ''outbox: record failure: '' e []), w1)
             | (Panic p, w1) \<Rightarrow> (Panic p, w1)
             | (Ok _, w1) \<Rightarrow> (Ok (), w1))
        | Err e \<Rightarrow> (Err e, w0)
        | Panic p \<Rightarrow> (Panic p, w0))"

type_synonym sink_fn = "event \<Rightarrow> world \<Rightarrow> unit go \<times> world"

fun publish_all ::
  "platform \<Rightarrow> publisher_options \<Rightarrow> sink_fn \<Rightarrow> claimed list \<Rightarrow> world \<Rightarrow> unit go \<times> world" where
  "publish_all pf opts publish [] w = (Ok (), w)"
| "publish_all pf opts publish (c # batch) w =
    (case publish (cl_event c) w of
       (Panic p, w1) \<Rightarrow> (Panic p, w1)
     | (Err cause, w1) \<Rightarrow>
        (case recordFailure pf opts c cause w1 of
           (Ok _, w2) \<Rightarrow> publish_all pf opts publish batch w2
         | (r, w2) \<Rightarrow> (r, w2))
     | (Ok _, w1) \<Rightarrow>
        (case markPublished (e_id (cl_event c)) w1 of
           (Ok _, w2) \<Rightarrow> publish_all pf opts publish batch w2
         | (r, w2) \<Rightarrow> (r, w2)))"

definition drain_tx ::
  "platform \<Rightarrow> publisher_options \<Rightarrow> sink_fn \<Rightarrow> string list \<Rightarrow> world \<Rightarrow> unit go \<times> world" where
  "drain_tx pf opts publish locked w =
    (case claim_batch locked (po_BatchSize opts) w of
       (Err e, w1) \<Rightarrow> (Err e, w1)
     | (Panic p, w1) \<Rightarrow> (Panic p, w1)
     | (Ok batch, w1) \<Rightarrow> publish_all pf opts publish batch w1)"

definition drainBatch ::
  "platform \<Rightarrow> publisher_options \<Rightarrow> sink_fn \<Rightarrow> string list \<Rightarrow> world \<Rightarrow> unit go \<times> world" where
  "drainBatch pf opts publish locked = with_tx (drain_tx pf opts publish locked)"

text \<open>
  \<open>Run\<close>: a ticker, which panics on an interval that is not positive, then one drain per tick, at
  the times given, until the context is cancelled or the ticks are over.  An error is logged unless
  it is the cancellation; a panic ends the process.
\<close>

fun run_ticks ::
  "platform \<Rightarrow> publisher_options \<Rightarrow> sink_fn \<Rightarrow> string list \<Rightarrow> int list \<Rightarrow> world \<Rightarrow> unit go \<times> world" where
  "run_ticks pf opts publish locked [] w = (Ok (), w)"
| "run_ticks pf opts publish locked (t # ticks) w =
    (if cancelled w then (Ok (), w)
     else case drainBatch pf opts publish locked (w\<lparr>clock := t\<rparr>) of
            (Panic p, w1) \<Rightarrow> (Panic p, w1)
          | (Err e, w1) \<Rightarrow>
              run_ticks pf opts publish locked ticks
                (if errors_is e ctx_canceled then w1 else emit (LogDrain (error_text e)) w1)
          | (Ok _, w1) \<Rightarrow> run_ticks pf opts publish locked ticks w1)"

definition Run ::
  "platform \<Rightarrow> publisher_options \<Rightarrow> sink_fn \<Rightarrow> string list \<Rightarrow> int list \<Rightarrow> world \<Rightarrow> unit go \<times> world" where
  "Run pf opts publish locked ticks w =
    (if sint (po_Interval opts) \<le> 0 then (Panic ''non-positive interval for NewTicker'', w)
     else run_ticks pf opts publish locked ticks w)"

definition LogSink :: sink_fn where
  "LogSink e w =
    (Ok (), emit (LogPublished (e_id e) (e_event_type e) (e_aggregate_type e) (e_aggregate_id e)) w)"

section \<open>Append\<close>

lemma sql_insert_event_cases:
  assumes "sql_insert_event pf now e d = Inr (u, d')"
  obtains payload where "pf_jsonb pf (e_payload e) = Some payload"
    and "d' = d\<lparr>outbox_events := outbox_events d @ [new_event_row now e payload]\<rparr>"
    and "e_id e \<notin> ev_id ` set (outbox_events d)"
  using assms by (auto simp: sql_insert_event_def find_row_None_iff split: option.splits if_splits)

lemma db_ok_insert_event [schema]:
  "sql_insert_event pf now e d = Inr (u, d') \<Longrightarrow> db_ok d \<Longrightarrow> db_ok d'"
  by (erule sql_insert_event_cases)
     (auto simp: db_ok_def new_event_row_def event_row_ok_def event_statuses_def fits_int4_def)

lemma Append_env: "Append pf es w = (r, w') \<Longrightarrow> same_env w w'"
  by (induction pf es w rule: Append.induct)
     (auto split: prod.splits go.splits intro: same_env_trans dest!: driver_call_env)

text \<open>\<open>Append\<close> adds the rows of a prefix of the events, of all of them when it reports success.\<close>

lemma Append_rows:
  assumes "Append pf es w = (r, w')"
  shows "\<exists>n \<le> length es. \<exists>payloads. length payloads = n \<and>
     db w' = (db w)\<lparr>outbox_events := outbox_events (db w) @
       map2 (new_event_row (clock w)) (take n es) payloads\<rparr> \<and>
     list_all2 (\<lambda>e p. pf_jsonb pf (e_payload e) = Some p) (take n es) payloads \<and>
     (is_ok r \<longrightarrow> n = length es) \<and> (db_ok (db w) \<longrightarrow> db_ok (db w'))"
  using assms
proof (induction es arbitrary: w)
  case (Cons e es)
  obtain q w1 where q: "driver_call True (sql_insert_event pf (clock w) e) w = (q, w1)"
    by (cases "driver_call True (sql_insert_event pf (clock w) e) w")
  have clk: "clock w1 = clock w" using driver_call_env [OF q] by (simp add: same_env_def)
  from q show ?case
  proof (cases rule: driver_call_cases)
    case (ran a)
    then obtain p where p: "pf_jsonb pf (e_payload e) = Some p"
        "db w1 = (db w)\<lparr>outbox_events := outbox_events (db w) @ [new_event_row (clock w) e p]\<rparr>"
      by (auto elim: sql_insert_event_cases)
    have ok1: "db_ok (db w) \<longrightarrow> db_ok (db w1)" using ran(1) db_ok_insert_event by blast
    show ?thesis
    proof (cases "is_ok q")
      case True
      with Cons.prems q have "Append pf es w1 = (r, w')" by (auto simp: is_ok_iff)
      from Cons.IH [OF this] obtain n ps where
        n: "n \<le> length es" "length ps = n"
          "db w' = (db w1)\<lparr>outbox_events := outbox_events (db w1) @
             map2 (new_event_row (clock w1)) (take n es) ps\<rparr>"
          "list_all2 (\<lambda>e p. pf_jsonb pf (e_payload e) = Some p) (take n es) ps"
          "is_ok r \<longrightarrow> n = length es" "db_ok (db w1) \<longrightarrow> db_ok (db w')" by blast
      then show ?thesis using p ok1 clk by (intro exI [of _ "Suc n"] conjI exI [of _ "p # ps"]) auto
    next
      case False
      with Cons.prems q have "\<not> is_ok r" "w' = w1" by (auto split: go.splits)
      then show ?thesis using p ok1 by (intro exI [of _ 1] conjI exI [of _ "[p]"]) auto
    qed
  next
    case kept
    with Cons.prems q have "\<not> is_ok r" "db w' = db w" by (auto split: go.splits)
    then show ?thesis by (intro exI [of _ 0] conjI exI [of _ "[]"]) auto
  qed
qed (auto intro!: exI [of _ 0])

section \<open>What one drain does\<close>

text \<open>
  The step of a row of the batch: published because the sink took the event, or charged with a
  failed attempt because the sink refused it.
\<close>

definition attempted ::
  "platform \<Rightarrow> publisher_options \<Rightarrow> sink_fn \<Rightarrow> int \<Rightarrow> event_row \<Rightarrow> event_row \<Rightarrow> bool" where
  "attempted pf opts publish now r r' \<longleftrightarrow>
    (\<exists>w1 w2. publish (event_of r) w1 = (Ok (), w2)) \<and> r' = published_row now r \<or>
    (\<exists>e w1 w2 b wait.
       publish (event_of r) w1 = (Err e, w2) \<and>
       backoff_for opts (ev_retry_count r + 1) = Ok b \<and>
       pf_interval pf (duration_string b) = Some wait \<and> fits_int4 (ev_retry_count r + 1) \<and>
       r' = failed_row now (failure_status opts (ev_retry_count r + 1)) (ev_retry_count r + 1)
              (error_text e) wait r)"

lemma attempted_key: "attempted pf opts publish now r r' \<Longrightarrow> ev_id r' = ev_id r"
  by (auto simp: attempted_def published_row_def failed_row_def)

lemma attempted_row_ok:
  "attempted pf opts publish now r r' \<Longrightarrow> event_row_ok r \<Longrightarrow> event_row_ok r'"
  by (auto simp: attempted_def published_row_def failed_row_def event_row_ok_def
      event_statuses_def failure_status_def event_status_defs)

definition set_events :: "event_row list \<Rightarrow> database \<Rightarrow> database" where
  "set_events rows d = d\<lparr>outbox_events := rows\<rparr>"

lemma set_events_simps [simp]:
  "outbox_events (set_events rows d) = rows"
  "set_events rows (set_events rows' d) = set_events rows d"
  "set_events (outbox_events d) d = d"
  by (simp_all add: set_events_def)

lemma db_ok_set_events:
  "db_ok d \<Longrightarrow> map ev_id rows = map ev_id (outbox_events d) \<Longrightarrow> list_all event_row_ok rows \<Longrightarrow>
     db_ok (set_events rows d)"
  by (simp add: db_ok_def set_events_def)

text \<open>One row of the table stepped by a statement keyed on its id.\<close>

definition replace_row :: "event_row \<Rightarrow> event_row \<Rightarrow> event_row list \<Rightarrow> event_row list" where
  "replace_row x x' rows = map (\<lambda>r. if r = x then x' else r) rows"

lemma update_one_row:
  assumes "distinct (map ev_id rows)" and "x \<in> set rows"
  shows "update_rows (\<lambda>r. ev_id r = ev_id x) g rows = replace_row x (g x) rows"
  using assms by (auto simp: replace_row_def update_rows_def distinct_map dest: inj_onD)

lemma markPublished_effect:
  assumes "markPublished (ev_id x) w = (r, w')"
    and "distinct (map ev_id (outbox_events (db w)))" and "x \<in> set (outbox_events (db w))"
  shows "(db w' = set_events (replace_row x (published_row (clock w) x) (outbox_events (db w))) (db w) \<or> (\<not> is_ok r \<and> db w' = db w)) \<and> same_env w w'"
proof -
  obtain q w1 where q: "driver_call True (sql_mark_published (clock w) (ev_id x)) w = (q, w1)"
    by (cases "driver_call True (sql_mark_published (clock w) (ev_id x)) w")
  have "w' = w1" "is_ok r = is_ok q"
    using assms(1) q by (auto simp: markPublished_def split: go.splits)
  moreover have "db w1 = set_events (replace_row x (published_row (clock w) x) (outbox_events (db w))) (db w) \<or> (\<not> is_ok q \<and> db w1 = db w)"
    using q by (rule driver_call_cases)
      (auto simp: sql_mark_published_def update_one_row [OF assms(2,3)] set_events_def)
  ultimately show ?thesis using driver_call_env [OF q] by simp
qed

lemma recordFailure_effect:
  assumes "recordFailure pf opts (claimed_of x) e w = (r, w')"
    and "distinct (map ev_id (outbox_events (db w)))" and "x \<in> set (outbox_events (db w))"
  shows "((\<exists>b wait. backoff_for opts (ev_retry_count x + 1) = Ok b \<and>
            pf_interval pf (duration_string b) = Some wait \<and> fits_int4 (ev_retry_count x + 1) \<and>
            db w' = set_events (replace_row x
                (failed_row (clock w) (failure_status opts (ev_retry_count x + 1))
                  (ev_retry_count x + 1) (error_text e) wait x)
              (outbox_events (db w))) (db w)) \<or> (\<not> is_ok r \<and> db w' = db w)) \<and> clock w' = clock w"
proof -
  define n where "n = ev_retry_count x + 1"
  define w0 where "w0 = (if po_MaxRetries opts \<le> n
      then emit (LogDeadLettered (ev_id x) (ev_event_type x) n (error_text e)) w else w)"
  have w0: "db w0 = db w" "clock w0 = clock w" by (simp_all add: w0_def emit_def)
  have run: "(case backoff_for opts n of
        Ok b \<Rightarrow>
          (case driver_call True (sql_record_failure pf (clock w0) (ev_id x) (failure_status opts n) n
                  (error_text e) (duration_string b)) w0 of
             (Err e, w1) \<Rightarrow> (Err (Wrapf ''outbox: record failure: '' e []), w1)
           | (Panic p, w1) \<Rightarrow> (Panic p, w1)
           | (Ok _, w1) \<Rightarrow> (Ok (), w1))
      | Err e \<Rightarrow> (Err e, w0)
      | Panic p \<Rightarrow> (Panic p, w0)) = (r, w')"
    using assms(1) unfolding recordFailure_def Let_def claimed_of_simps n_def w0_def .
  show ?thesis
  proof (cases "backoff_for opts n")
    case (Ok b)
    let ?s = "sql_record_failure pf (clock w0) (ev_id x) (failure_status opts n) n (error_text e)
        (duration_string b)"
    obtain q w1 where q: "driver_call True ?s w0 = (q, w1)" by (cases "driver_call True ?s w0")
    have "w' = w1" "is_ok r = is_ok q"
      using run q Ok by (auto split: go.splits)
    moreover have "(\<exists>wait. pf_interval pf (duration_string b) = Some wait \<and> fits_int4 n \<and>
        db w1 = set_events (replace_row x
          (failed_row (clock w) (failure_status opts n) n (error_text e) wait x)
          (outbox_events (db w))) (db w)) \<or> (\<not> is_ok q \<and> db w1 = db w)"
      using q by (rule driver_call_cases)
        (auto simp: sql_record_failure_def update_one_row [OF assms(2,3)] set_events_def w0
          split: option.splits if_splits)
    moreover have "clock w1 = clock w" using driver_call_env [OF q] w0 by (simp add: same_env_def)
    ultimately show ?thesis using Ok unfolding n_def by auto
  qed (use run w0 in auto)
qed

lemma set_batch_rows:
  "set (batch_rows now locked n rows) \<subseteq> {r \<in> set rows. due now r \<and> ev_id r \<notin> set locked}"
  unfolding batch_rows_def by (rule order_trans [OF set_take_subset]) auto

lemma distinct_batch_keys:
  "distinct (map ev_id rows) \<Longrightarrow> distinct (map ev_id (batch_rows now locked n rows))"
  unfolding batch_rows_def take_map [symmetric]
  by (intro distinct_take) (simp add: distinct_map_sort_by distinct_map_filter)

lemma distinct_batch_rows:
  "distinct (map ev_id rows) \<Longrightarrow> distinct (batch_rows now locked n rows)"
  using distinct_batch_keys [of rows now locked n] unfolding distinct_map [of ev_id] by blast

section \<open>The sink's contract\<close>

text \<open>A sink delivers an event elsewhere: it does not write the orders database.\<close>

locale sink =
  fixes publish :: sink_fn
  assumes keeps_db: "publish e w = (r, w') \<Longrightarrow> db w' = db w"
    and keeps_clock: "publish e w = (r, w') \<Longrightarrow> clock w' = clock w"
begin

text \<open>One event of the batch: its row takes one step, no other row moves.\<close>

lemma publish_one:
  assumes "publish_all pf opts publish (claimed_of x # batch) w = (r, w')"
    and "distinct (map ev_id (outbox_events (db w)))" and "x \<in> set (outbox_events (db w))"
  obtains (stepped) x' w1 where "attempted pf opts publish (clock w) x x'"
      and "db w1 = set_events (replace_row x x' (outbox_events (db w))) (db w)"
      and "clock w1 = clock w"
      and "publish_all pf opts publish batch w1 = (r, w') \<or> (\<not> is_ok r \<and> w' = w1)"
  | (stopped) "\<not> is_ok r" and "db w' = db w" and "clock w' = clock w"
proof -
  obtain q w1 where q: "publish (event_of x) w = (q, w1)" by (cases "publish (event_of x) w")
  note w1 = keeps_db [OF q] keeps_clock [OF q]
  have in1: "distinct (map ev_id (outbox_events (db w1)))" "x \<in> set (outbox_events (db w1))"
    using assms(2,3) w1 by simp_all
  show thesis
  proof (cases q)
    case (Ok u)
    obtain m w2 where m: "markPublished (ev_id x) w1 = (m, w2)" by (cases "markPublished (ev_id x) w1")
    from markPublished_effect [OF m in1] have clk: "clock w2 = clock w"
      using w1 by (simp add: same_env_def)
    have rest: "publish_all pf opts publish batch w2 = (r, w') \<or> (\<not> is_ok r \<and> w' = w2)"
      and failed: "\<not> is_ok m \<Longrightarrow> \<not> is_ok r \<and> w' = w2"
      using assms(1) q Ok m by (auto split: go.splits)
    have "attempted pf opts publish (clock w) x (published_row (clock w) x)"
      using q Ok by (auto simp: attempted_def)
    note step = stepped [OF this _ clk rest]
    have "db w2 = set_events (replace_row x (published_row (clock w) x)
        (outbox_events (db w))) (db w) \<or> (\<not> is_ok m \<and> db w2 = db w)"
      using markPublished_effect [OF m in1] unfolding w1 by blast
    then show thesis using step failed stopped clk by blast
  next
    case (Err e)
    obtain m w2 where m: "recordFailure pf opts (claimed_of x) e w1 = (m, w2)"
      by (cases "recordFailure pf opts (claimed_of x) e w1")
    note eff = recordFailure_effect [OF m in1]
    have rest: "publish_all pf opts publish batch w2 = (r, w') \<or> (\<not> is_ok r \<and> w' = w2)"
      and failed: "\<not> is_ok m \<Longrightarrow> \<not> is_ok r \<and> w' = w2"
      using assms(1) q Err m by (auto split: go.splits)
    have alt: "(\<exists>x'. attempted pf opts publish (clock w) x x' \<and>
        db w2 = set_events (replace_row x x' (outbox_events (db w))) (db w)) \<or>
      (\<not> is_ok m \<and> db w2 = db w)"
      using eff [unfolded w1] q Err unfolding attempted_def by blast
    have clk: "clock w2 = clock w" using eff w1 by simp
    note step = stepped [OF _ _ clk rest]
    from alt show thesis using step failed stopped clk by blast
  next
    case (Panic p)
    with assms(1) q w1 stopped show thesis by auto
  qed
qed

text \<open>The whole batch.\<close>

lemma publish_all_effect:
  assumes "publish_all pf opts publish (map claimed_of brs) w = (r, w')"
    and "distinct (map ev_id (outbox_events (db w)))"
    and "set brs \<subseteq> set (outbox_events (db w))" and "distinct brs"
  shows "\<exists>f. db w' = set_events (map f (outbox_events (db w))) (db w) \<and>
    (\<forall>x \<in> set (outbox_events (db w)). f x = x \<or>
       (x \<in> set brs \<and> attempted pf opts publish (clock w) x (f x))) \<and>
    (is_ok r \<longrightarrow> (\<forall>x \<in> set brs. attempted pf opts publish (clock w) x (f x)))"
  using assms
proof (induction brs arbitrary: w)
  case Nil
  then show ?case by (auto intro: exI [of _ "\<lambda>x. x"])
next
  case (Cons x brs)
  let ?rows = "outbox_events (db w)"
  have x: "x \<in> set ?rows" using Cons.prems(3) by simp
  have "publish_all pf opts publish (claimed_of x # map claimed_of brs) w = (r, w')"
    using Cons.prems(1) by simp
  from this Cons.prems(2) x show ?case
  proof (cases rule: publish_one)
    case (stepped x' w1)
    let ?g = "\<lambda>r. if r = x then x' else r"
    have key: "ev_id x' = ev_id x" using stepped(1) by (rule attempted_key)
    have rows1: "outbox_events (db w1) = map ?g ?rows" by (simp add: stepped(2) replace_row_def)
    from stepped(4) show ?thesis
    proof
      assume run: "publish_all pf opts publish (map claimed_of brs) w1 = (r, w')"
      have keys1: "map ev_id (outbox_events (db w1)) = map ev_id ?rows"
        using key by (auto simp: rows1)
      have sub1: "set brs \<subseteq> set (outbox_events (db w1))"
        using Cons.prems(3,4) by (force simp: rows1 image_iff)
      have x'_new: "x' \<notin> set brs"
        using key x Cons.prems(2-4) by (auto simp: distinct_map dest: inj_onD)
      from Cons.IH [OF run _ sub1] keys1 Cons.prems(2,4) obtain f where
        f: "db w' = set_events (map f (outbox_events (db w1))) (db w1)"
          "\<forall>y \<in> set (outbox_events (db w1)). f y = y \<or>
             (y \<in> set brs \<and> attempted pf opts publish (clock w1) y (f y))"
          "is_ok r \<longrightarrow> (\<forall>y \<in> set brs. attempted pf opts publish (clock w1) y (f y))"
        by (auto simp del: set_map)
      have fx': "f x' = x'" using f(2) x'_new x by (auto simp: rows1)
      have fy: "f y = y \<or> (y \<in> set brs \<and> attempted pf opts publish (clock w) y (f y))"
        if "y \<in> set ?rows" "y \<noteq> x" for y
        using f(2) that stepped(3) by (auto simp: rows1)
      have "db w' = set_events (map (\<lambda>y. f (?g y)) ?rows) (db w)"
        by (simp add: f(1) stepped(2) replace_row_def comp_def del: map_eq_conv)
      then show ?thesis
        using fx' fy f(3) stepped(1,3) Cons.prems(4)
        by (intro exI [of _ "\<lambda>y. f (?g y)"] conjI) (simp only:, auto)
    next
      assume "\<not> is_ok r \<and> w' = w1"
      then show ?thesis using stepped(1,2) by (intro exI [of _ ?g]) (auto simp: replace_row_def)
    qed
  next
    case stopped
    then show ?thesis by (auto intro!: exI [of _ "\<lambda>x. x"])
  qed
qed

text \<open>The transaction: every row of the batch took a step, or nothing happened.\<close>

lemma drainBatch_cases:
  assumes "drainBatch pf opts publish locked w = (r, w')" and "db_ok (db w)"
  obtains (committed) f where "db w' = set_events (map f (outbox_events (db w))) (db w)"
      and "\<And>x. x \<in> set (outbox_events (db w)) \<Longrightarrow>
        if x \<in> set (batch_rows (clock w) locked (po_BatchSize opts) (outbox_events (db w)))
        then attempted pf opts publish (clock w) x (f x) else f x = x"
  | (unchanged) "db w' = db w" and "\<not> is_ok r"
proof -
  from assms(1) have tx: "with_tx (drain_tx pf opts publish locked) w = (r, w')"
    by (simp add: drainBatch_def)
  let ?brs = "batch_rows (clock w) locked (po_BatchSize opts) (outbox_events (db w))"
  from tx show thesis
  proof (cases rule: with_tx_cases)
    case (committed w0 w1)
    obtain q w2 where q: "claim_batch locked (po_BatchSize opts) w0 = (q, w2)"
      by (cases "claim_batch locked (po_BatchSize opts) w0")
    obtain batch where batch: "q = Ok batch" "publish_all pf opts publish batch w2 = (Ok (), w1)"
      using committed(3) q by (auto simp: drain_tx_def split: go.splits)
    have clk: "clock w0 = clock w" using committed(2) by (simp add: same_env_def)
    have call: "driver_call True (sql_claim_batch (clock w0) locked (po_BatchSize opts)) w0 =
        (Ok batch, w2)"
      using q batch(1) by (auto simp: claim_batch_def split: prod.splits go.splits)
    from driver_call_Ok [OF call] have b: "batch = map claimed_of ?brs" "db w2 = db w"
      using committed(1) clk by (auto simp: sql_claim_batch_def split: if_splits)
    have clk2: "clock w2 = clock w" using driver_call_env [OF call] clk by (simp add: same_env_def)
    have dist: "distinct (map ev_id (outbox_events (db w)))" using assms(2) by (simp add: db_ok_def)
    have sub: "set ?brs \<subseteq> set (outbox_events (db w))" using set_batch_rows by fast
    have "publish_all pf opts publish (map claimed_of ?brs) w2 = (Ok (), w1)"
      using batch(2) b(1) by simp
    from publish_all_effect [OF this] obtain f where
      "db w1 = set_events (map f (outbox_events (db w))) (db w)"
      "\<forall>x \<in> set (outbox_events (db w)). f x = x \<or>
         (x \<in> set ?brs \<and> attempted pf opts publish (clock w) x (f x))"
      "\<forall>x \<in> set ?brs. attempted pf opts publish (clock w) x (f x)"
      using b(2) clk2 dist sub distinct_batch_rows by auto
    with committed(4) show thesis by (intro that(1) [of f]) auto
  qed (use that(2) in auto)
qed

end

interpretation log_sink: sink LogSink
  by unfold_locales (auto simp: LogSink_def emit_def)

section \<open>The log sink, without faults\<close>

definition published_log :: "event_row \<Rightarrow> log_entry" where
  "published_log r =
    LogPublished (ev_id r) (ev_event_type r) (ev_aggregate_type r) (ev_aggregate_id r)"

definition publish_rows :: "int \<Rightarrow> event_row list \<Rightarrow> event_row list \<Rightarrow> event_row list" where
  "publish_rows now brs rows = map (\<lambda>r. if r \<in> set brs then published_row now r else r) rows"

lemma ev_id_publish_rows: "map ev_id (publish_rows now brs rows) = map ev_id rows"
  by (simp add: publish_rows_def published_row_def comp_def)

lemma publish_all_LogSink:
  assumes "quiet (length brs) w" and "distinct (map ev_id (outbox_events (db w)))"
    and "set brs \<subseteq> set (outbox_events (db w))" and "distinct brs"
  shows "publish_all pf opts LogSink (map claimed_of brs) w =
    (Ok (), (used (length brs) w)
       \<lparr>db := set_events (publish_rows (clock w) brs (outbox_events (db w))) (db w),
        logged := logged w @ map published_log brs\<rparr>)"
  using assms
proof (induction brs arbitrary: w)
  case Nil
  then show ?case by (simp add: publish_rows_def)
next
  case (Cons x brs)
  let ?rows = "outbox_events (db w)"
  let ?x = "published_row (clock w) x"
  let ?w1 = "w\<lparr>logged := logged w @ [published_log x]\<rparr>"
  let ?w2 = "(used 1 ?w1)\<lparr>db := set_events (replace_row x ?x ?rows) (db w)\<rparr>"
  have x: "x \<in> set ?rows" using Cons.prems(3) by simp
  have sink: "LogSink (event_of x) w = (Ok (), ?w1)"
    by (simp add: LogSink_def emit_def published_log_def event_of_def)
  have "quiet (Suc (length brs)) ?w1" using Cons.prems(1) by simp
  then have mark: "markPublished (ev_id x) ?w1 = (Ok (), ?w2)"
    using update_one_row [OF Cons.prems(2) x]
    by (simp add: markPublished_def driver_call_quiet run_stmt_def sql_mark_published_def
        set_events_def)
  have key: "ev_id ?x = ev_id x" by (simp add: published_row_def)
  have "x \<notin> set brs" "?x \<notin> set brs"
    using key x Cons.prems(2-4) by (auto simp: distinct_map dest: inj_onD)
  then have "set brs \<subseteq> set (replace_row x ?x ?rows)"
    and ids: "map ev_id (replace_row x ?x ?rows) = map ev_id ?rows"
    and rows: "publish_rows (clock w) brs (replace_row x ?x ?rows) =
      publish_rows (clock w) (x # brs) ?rows"
    using Cons.prems(3) key by (force simp: replace_row_def publish_rows_def)+
  then have "publish_all pf opts LogSink (map claimed_of brs) ?w2 =
    (Ok (), (used (length brs) ?w2)
       \<lparr>db := set_events (publish_rows (clock ?w2) brs (outbox_events (db ?w2))) (db ?w2),
        logged := logged ?w2 @ map published_log brs\<rparr>)"
    using Cons.prems(1,2,4) quiet_used [of "length brs" w]
    by (intro Cons.IH) (simp_all add: ids)
  with sink mark rows show ?case by simp
qed

definition drained :: "publisher_options \<Rightarrow> string list \<Rightarrow> world \<Rightarrow> event_row list" where
  "drained opts locked w =
    batch_rows (clock w) locked (po_BatchSize opts) (outbox_events (db w))"

lemma drain_tx_LogSink:
  assumes "quiet (Suc (length (drained opts locked w))) w" and "db_ok (db w)"
    and "0 \<le> po_BatchSize opts"
  shows "drain_tx pf opts LogSink locked w =
    (Ok (), (used (Suc (length (drained opts locked w))) w)
       \<lparr>db := set_events (publish_rows (clock w) (drained opts locked w) (outbox_events (db w))) (db w),
        logged := logged w @ map published_log (drained opts locked w)\<rparr>)"
proof -
  let ?brs = "drained opts locked w"
  have dist: "distinct (map ev_id (outbox_events (db w)))" using assms(2) by (simp add: db_ok_def)
  have "claim_batch locked (po_BatchSize opts) w = (Ok (map claimed_of ?brs), used 1 w)"
    using assms(1,3)
    by (simp add: claim_batch_def driver_call_quiet run_stmt_def sql_claim_batch_def drained_def used_def)
  moreover have "set ?brs \<subseteq> set (outbox_events (db w))"
    unfolding drained_def using set_batch_rows by fast
  moreover have "distinct ?brs" unfolding drained_def using dist by (rule distinct_batch_rows)
  ultimately show ?thesis
    using publish_all_LogSink [of ?brs "used 1 w" pf opts] quiet_used [OF assms(1)] dist
    by (simp add: drain_tx_def)
qed

lemma drainBatch_LogSink:
  assumes "calm w" and "db_ok (db w)" and "0 \<le> po_BatchSize opts"
  shows "drainBatch pf opts LogSink locked w =
    (Ok (), w\<lparr>db := set_events (publish_rows (clock w) (drained opts locked w) (outbox_events (db w))) (db w),
              logged := logged w @ map published_log (drained opts locked w)\<rparr>)"
proof -
  note q = calm_quiet [OF assms(1)]
  from drain_tx_LogSink [OF conjunct1 [OF q] assms(2,3)] q
  have run: "drain_tx pf opts LogSink locked w =
    (Ok (), w\<lparr>db := set_events (publish_rows (clock w) (drained opts locked w) (outbox_events (db w))) (db w),
              logged := logged w @ map published_log (drained opts locked w)\<rparr>)"
    by simp
  from with_tx_calm [of w "drain_tx pf opts LogSink locked", OF assms(1) run] assms(1)
  show ?thesis by (simp add: drainBatch_def calm_def)
qed

text \<open>The rows still to be delivered, and how many of them a drain leaves.\<close>

definition open_event :: "event_row \<Rightarrow> bool" where
  "open_event r \<longleftrightarrow> ev_status r = ''pending'' \<or> ev_status r = ''retrying''"

definition backlog :: "world \<Rightarrow> nat" where
  "backlog w = length (filter open_event (outbox_events (db w)))"

lemma mset_filter_publish_rows:
  assumes "distinct rows" and "set brs \<subseteq> {r \<in> set rows. open_event r}" and "distinct brs"
  shows "mset (filter open_event (publish_rows now brs rows)) + mset brs = mset (filter open_event rows)"
proof -
  let ?waiting = "filter open_event rows"
  have "filter open_event (publish_rows now brs rows) = filter (\<lambda>r. r \<notin> set brs) ?waiting"
    by (induction rows) (auto simp: publish_rows_def published_row_def open_event_def)
  then have "mset (filter open_event (publish_rows now brs rows)) = {#r \<in># mset ?waiting. r \<notin> set brs#}"
    by (simp only: mset_filter)
  moreover have "mset brs = mset (filter (\<lambda>r. r \<in> set brs) ?waiting)"
    using assms by (subst set_eq_iff_mset_eq_distinct [symmetric]) auto
  then have "mset brs = {#r \<in># mset ?waiting. r \<in> set brs#}" by (simp only: mset_filter)
  ultimately show ?thesis by (metis multiset_partition union_commute)
qed

lemma length_filter_publish_rows:
  assumes "distinct rows" and "set brs \<subseteq> {r \<in> set rows. open_event r}" and "distinct brs"
  shows "length (filter open_event (publish_rows now brs rows)) + length brs =
    length (filter open_event rows)"
  using arg_cong [OF mset_filter_publish_rows [OF assms, of now], of size] by (simp del: mset_filter)

lemma length_batch_rows:
  "length (batch_rows now locked n rows) =
     min (nat n) (length (filter (\<lambda>r. due now r \<and> ev_id r \<notin> set locked) rows))"
  by (simp add: batch_rows_def min.commute)

lemma db_ok_publish_rows:
  assumes "db_ok d"
  shows "db_ok (set_events (publish_rows now brs (outbox_events d)) d)"
proof (rule db_ok_set_events [OF assms ev_id_publish_rows])
  show "list_all event_row_ok (publish_rows now brs (outbox_events d))"
    using assms by (auto simp: db_ok_def list_all_iff publish_rows_def published_row_def
        event_row_ok_def event_statuses_def)
qed

text \<open>A row before and after some ticks: as it was, or published at one of them.\<close>

definition maybe_published :: "int list \<Rightarrow> event_row \<Rightarrow> event_row \<Rightarrow> bool" where
  "maybe_published ticks r r' \<longleftrightarrow>
    r' = r \<or> (open_event r \<and> (\<exists>t \<in> set ticks. r' =
      r\<lparr>ev_status := ''published'', ev_published_at := Some t, ev_last_error := None\<rparr>))"

lemma maybe_published_trans:
  assumes "list_all2 (maybe_published [t]) xs ys" and "list_all2 (maybe_published ts) ys zs"
  shows "list_all2 (maybe_published (t # ts)) xs zs"
  by (rule list_all2_trans [OF _ assms]) (auto simp: maybe_published_def open_event_def)

lemma run_ticks_LogSink:
  assumes "calm w" and "db_ok (db w)" and "0 < po_BatchSize opts"
    and "\<And>r t. r \<in> set (outbox_events (db w)) \<Longrightarrow> t \<in> set ticks \<Longrightarrow> ev_next_attempt_at r \<le> t"
  shows "\<exists>w' ds. run_ticks pf opts LogSink [] ticks w = (Ok (), w') \<and>
    backlog w' = backlog w - nat (po_BatchSize opts) * length ticks \<and>
    list_all2 (maybe_published ticks) (outbox_events (db w)) (outbox_events (db w')) \<and>
    logged w' = logged w @ map published_log ds \<and>
    mset (filter open_event (outbox_events (db w'))) + mset ds = mset (filter open_event (outbox_events (db w)))"
  using assms
proof (induction ticks arbitrary: w)
  case Nil
  show ?case by (intro exI [of _ w] exI [of _ "[]"]) (simp add: list_all2_refl maybe_published_def)
next
  case (Cons t ticks)
  let ?w = "w\<lparr>clock := t\<rparr>"
  let ?rows = "outbox_events (db w)"
  let ?brs = "drained opts [] ?w"
  let ?w1 = "?w\<lparr>db := set_events (publish_rows t ?brs ?rows) (db w),
              logged := logged w @ map published_log ?brs\<rparr>"
  have calm: "calm ?w" using Cons.prems(1) by (simp add: calm_def)
  have run: "drainBatch pf opts LogSink [] ?w = (Ok (), ?w1)"
    using drainBatch_LogSink [OF calm, of opts pf "[]"] Cons.prems(2,3) by simp
  have dist: "distinct (map ev_id ?rows)" using Cons.prems(2) by (simp add: db_ok_def)
  have due: "filter (\<lambda>r. due t r \<and> ev_id r \<notin> set []) ?rows = filter open_event ?rows"
    using Cons.prems(4) [of _ t] by (intro filter_cong) (auto simp: due_def open_event_def)
  have len: "length ?brs = min (nat (po_BatchSize opts)) (backlog w)"
    unfolding drained_def length_batch_rows backlog_def using due by simp
  have brs: "set ?brs \<subseteq> {r \<in> set ?rows. open_event r}"
    using set_batch_rows [of t "[]" "po_BatchSize opts" ?rows]
    by (auto simp: drained_def due_def open_event_def)
  with mset_filter_publish_rows [of ?rows ?brs t] dist distinct_batch_rows [OF dist]
  have left: "mset (filter open_event (outbox_events (db ?w1))) + mset ?brs = mset (filter open_event ?rows)"
    by (simp add: drained_def distinct_map)
  from arg_cong [OF this, of size] have "backlog ?w1 + length ?brs = backlog w"
    by (simp add: backlog_def del: mset_filter)
  with len have less: "backlog ?w1 = backlog w - nat (po_BatchSize opts)" by simp
  have rows: "list_all2 (maybe_published [t]) ?rows (outbox_events (db ?w1))"
    using brs by (auto simp: list_all2_conv_all_nth publish_rows_def maybe_published_def published_row_def)
  have "\<exists>w' ds. run_ticks pf opts LogSink [] ticks ?w1 = (Ok (), w') \<and>
      backlog w' = backlog ?w1 - nat (po_BatchSize opts) * length ticks \<and>
      list_all2 (maybe_published ticks) (outbox_events (db ?w1)) (outbox_events (db w')) \<and>
      logged w' = logged ?w1 @ map published_log ds \<and>
      mset (filter open_event (outbox_events (db w'))) + mset ds = mset (filter open_event (outbox_events (db ?w1)))"
  proof (rule Cons.IH)
    show "calm ?w1" using Cons.prems(1) by (simp add: calm_def)
    show "db_ok (db ?w1)" using db_ok_publish_rows [OF Cons.prems(2)] by simp
    show "0 < po_BatchSize opts" by fact
    show "ev_next_attempt_at r \<le> s" if "r \<in> set (outbox_events (db ?w1))" "s \<in> set ticks" for r s
      using that Cons.prems(4) by (auto simp: publish_rows_def published_row_def split: if_splits)
  qed
  then obtain w' ds where rest: "run_ticks pf opts LogSink [] ticks ?w1 = (Ok (), w')"
      "backlog w' = backlog ?w1 - nat (po_BatchSize opts) * length ticks"
      "list_all2 (maybe_published ticks) (outbox_events (db ?w1)) (outbox_events (db w'))"
      "logged w' = logged ?w1 @ map published_log ds"
      "mset (filter open_event (outbox_events (db w'))) + mset ds = mset (filter open_event (outbox_events (db ?w1)))"
    by blast
  have "run_ticks pf opts LogSink [] (t # ticks) w = (Ok (), w')"
    using run rest(1) Cons.prems(1) by (simp add: calm_def)
  moreover have "backlog w' = backlog w - nat (po_BatchSize opts) * length (t # ticks)"
    using rest(2) less by simp
  moreover have "list_all2 (maybe_published (t # ticks)) ?rows (outbox_events (db w'))"
    by (rule maybe_published_trans [OF rows rest(3)])
  moreover have "logged w' = logged w @ map published_log (?brs @ ds)" using rest(4) by simp
  moreover have "mset (filter open_event (outbox_events (db w'))) + mset (?brs @ ds) = mset (filter open_event ?rows)"
    using rest(5) left unfolding mset_append by (metis union_assoc union_commute)
  ultimately show ?case by blast
qed

text \<open>C18: the outbox drains.  With the log sink and without faults, a publisher with a positive batch size and
  interval that ticks often enough after all retry times have passed, batch size times ticks covering the
  events that wait, ends with every one of those events marked published at one of the ticks and every other
  row as it was; and the sink has been given each of them exactly once and nothing else.\<close>

theorem outbox_drains:
  assumes "calm w" and "db_ok (db w)" and "0 < po_BatchSize opts" and "0 < sint (po_Interval opts)"
    and "\<And>r t. r \<in> set (outbox_events (db w)) \<Longrightarrow> t \<in> set ticks \<Longrightarrow> ev_next_attempt_at r \<le> t"
    and "backlog w \<le> nat (po_BatchSize opts) * length ticks"
  shows "\<exists>w' ds. Run pf opts LogSink [] ticks w = (Ok (), w') \<and>
    list_all2 (\<lambda>r r'. if open_event r
        then \<exists>t \<in> set ticks. r' = r\<lparr>ev_status := ''published'', ev_published_at := Some t, ev_last_error := None\<rparr>
        else r' = r) (outbox_events (db w)) (outbox_events (db w')) \<and>
    logged w' = logged w @ map published_log ds \<and> mset ds = mset (filter open_event (outbox_events (db w)))"
proof -
  from run_ticks_LogSink [OF assms(1-3,5), of ticks pf] obtain w' ds where
    run: "run_ticks pf opts LogSink [] ticks w = (Ok (), w')" and "backlog w' = 0"
    and rows: "list_all2 (maybe_published ticks) (outbox_events (db w)) (outbox_events (db w'))"
    and sent: "logged w' = logged w @ map published_log ds"
      "mset (filter open_event (outbox_events (db w'))) + mset ds = mset (filter open_event (outbox_events (db w)))"
    using assms(6) by auto
  from \<open>backlog w' = 0\<close> have none: "filter open_event (outbox_events (db w')) = []" by (simp add: backlog_def)
  then have closed: "\<not> open_event r'" if "r' \<in> set (outbox_events (db w'))" for r'
    using that by (auto simp: filter_empty_conv)
  have "list_all2 (\<lambda>r r'. if open_event r
        then \<exists>t \<in> set ticks. r' = r\<lparr>ev_status := ''published'', ev_published_at := Some t, ev_last_error := None\<rparr>
        else r' = r) (outbox_events (db w)) (outbox_events (db w'))"
    by (rule list.rel_mono_strong [OF rows]) (use closed in \<open>auto simp: maybe_published_def\<close>)
  with run sent none assms(4) show ?thesis by (auto simp: Run_def)
qed

definition sample_options :: publisher_options where
  "sample_options = \<lparr>po_Interval = 1000000000, po_BatchSize = 50, po_MaxRetries = 5,
     po_BaseBackoff = 1000000000\<rparr>"

definition sample_event :: event where
  "sample_event = \<lparr>e_id = ''u0'', e_aggregate_type = ''order'', e_aggregate_id = ''ord_1'',
     e_event_type = ''OrderCreated'', e_payload = ''{}''\<rparr>"

definition outbox_world :: world where
  "outbox_world = sample_world\<lparr>db := empty_db\<lparr>outbox_events := [new_event_row 1000 sample_event ''{}'']\<rparr>\<rparr>"

lemma outbox_world_facts:
  "calm outbox_world" "db_ok (db outbox_world)"
  "outbox_events (db outbox_world) = [new_event_row 1000 sample_event ''{}'']"
  by (simp_all add: outbox_world_def sample_world_def calm_def db_ok_def empty_db_def
      new_event_row_def event_row_ok_def event_statuses_def fits_int4_def)

theorem outbox_drains_witness:
  "\<exists>w'. Run sample_platform sample_options LogSink [] [2000] outbox_world = (Ok (), w') \<and>
    map ev_status (outbox_events (db w')) = [''published''] \<and>
    logged w' = logged outbox_world @ [LogPublished ''u0'' ''OrderCreated'' ''order'' ''ord_1'']"
proof -
  have "open_event (new_event_row 1000 sample_event ''{}'')" by (simp add: open_event_def new_event_row_def)
  with outbox_drains [of outbox_world sample_options "[2000]" sample_platform] show ?thesis
    by (auto simp: outbox_world_facts sample_options_def backlog_def list_all2_Cons1 published_log_def
        new_event_row_def sample_event_def)
qed

section \<open>Safety of the drain, for any sink and any faults\<close>

context sink
begin

lemma drainBatch_db_ok [schema]:
  assumes "drainBatch pf opts publish locked w = (r, w')" and "db_ok (db w)"
  shows "db_ok (db w')"
  using assms
proof (cases rule: drainBatch_cases)
  case (committed f)
  let ?rows = "outbox_events (db w)"
  have step: "f x = x \<or> attempted pf opts publish (clock w) x (f x)" if "x \<in> set ?rows" for x
    using committed(2) [OF that] by (auto split: if_splits)
  have "map ev_id (map f ?rows) = map ev_id ?rows"
    using step attempted_key by fastforce
  moreover have "list_all event_row_ok (map f ?rows)"
    using assms(2) step attempted_row_ok by (fastforce simp: db_ok_def list_all_iff)
  ultimately show ?thesis
    using db_ok_set_events [OF assms(2)] committed(1) by simp
qed (use assms(2) in simp)

end

text \<open>C13: a drain is all or nothing and touches only its batch.  Whatever the sink answers and
  whatever fails, either the database is exactly as before and the publisher does not hear of
  success, or every row of the batch took its one step and no other row of any table changed: a
  row became \<open>published\<close> only if the sink accepted its event, and it was charged with a failed
  attempt only if the sink refused it.\<close>

theorem drainBatch_correct:
  assumes "sink publish" and "db_ok (db w)"
    and "drainBatch pf opts publish locked w = (r, w')"
  shows "db_ok (db w') \<and>
    ((db w' = db w \<and> \<not> is_ok r) \<or>
     (\<exists>f. db w' = set_events (map f (outbox_events (db w))) (db w) \<and>
        (\<forall>x \<in> set (outbox_events (db w)).
           if x \<in> set (batch_rows (clock w) locked (po_BatchSize opts) (outbox_events (db w)))
           then attempted pf opts publish (clock w) x (f x) else f x = x)))"
proof
  show "db_ok (db w')" using sink.drainBatch_db_ok [OF assms(1,3,2)] .
  from sink.drainBatch_cases [OF assms(1,3,2)] show
    "(db w' = db w \<and> \<not> is_ok r) \<or>
     (\<exists>f. db w' = set_events (map f (outbox_events (db w))) (db w) \<and>
        (\<forall>x \<in> set (outbox_events (db w)).
           if x \<in> set (batch_rows (clock w) locked (po_BatchSize opts) (outbox_events (db w)))
           then attempted pf opts publish (clock w) x (f x) else f x = x))"
    by metis
qed

theorem drainBatch_correct_witness:
  "db_ok (db (snd (drainBatch sample_platform sample_options LogSink [] outbox_world)))"
  using drainBatch_correct [OF log_sink.sink_axioms outbox_world_facts(2) prod.collapse [symmetric]]
  by blast

text \<open>
  The bookkeeping of one event: the attempts charged stay below the limit while it is open and never
  pass it.
\<close>

definition event_inv :: "publisher_options \<Rightarrow> event_row \<Rightarrow> bool" where
  "event_inv opts r \<longleftrightarrow>
    0 \<le> ev_retry_count r \<and> ev_retry_count r \<le> max 1 (po_MaxRetries opts) \<and>
    (open_event r \<longrightarrow> ev_retry_count r < max 1 (po_MaxRetries opts))"

text \<open>\<open>evolved opts r r'\<close>: the same event later on.\<close>

definition evolved :: "publisher_options \<Rightarrow> event_row \<Rightarrow> event_row \<Rightarrow> bool" where
  "evolved opts r r' \<longleftrightarrow>
    event_of r' = event_of r \<and> ev_created_at r' = ev_created_at r \<and>
    ev_retry_count r \<le> ev_retry_count r' \<and> event_inv opts r' \<and> (\<not> open_event r \<longrightarrow> r' = r)"

lemma evolved_refl: "event_inv opts r \<Longrightarrow> evolved opts r r"
  by (simp add: evolved_def)

lemma evolved_trans: "evolved opts a b \<Longrightarrow> evolved opts b c \<Longrightarrow> evolved opts a c"
  by (auto simp: evolved_def)

lemma attempted_evolved:
  assumes "attempted pf opts publish now r r'" and "event_inv opts r" and "open_event r"
  shows "evolved opts r r'"
  using assms
  by (auto simp: attempted_def evolved_def event_inv_def open_event_def event_of_def
      published_row_def failed_row_def failure_status_def event_status_defs split: if_splits)

lemma due_open: "due now r \<Longrightarrow> open_event r"
  by (simp add: due_def open_event_def)

context sink
begin

lemma drainBatch_evolves:
  assumes "drainBatch pf opts publish locked w = (r, w')" and "db_ok (db w)"
    and "list_all (event_inv opts) (outbox_events (db w))"
  shows "list_all2 (evolved opts) (outbox_events (db w)) (outbox_events (db w'))"
  using assms(1,2)
proof (cases rule: drainBatch_cases)
  case (committed f)
  have "evolved opts x (f x)" if "x \<in> set (outbox_events (db w))" for x
    using committed(2) [OF that] that assms(3) attempted_evolved evolved_refl due_open
      set_batch_rows [of "clock w" locked "po_BatchSize opts" "outbox_events (db w)"]
    by (auto simp: list_all_iff split: if_splits)
  then show ?thesis by (simp add: committed(1) list_all2_map2 list_all2_same)
next
  case unchanged
  then show ?thesis using assms(3) evolved_refl by (auto simp: list_all2_same list_all_iff)
qed

lemma run_ticks_evolves:
  assumes "run_ticks pf opts publish locked ticks w = (r, w')" and "db_ok (db w)"
    and "list_all (event_inv opts) (outbox_events (db w))"
  shows "list_all2 (evolved opts) (outbox_events (db w)) (outbox_events (db w')) \<and> db_ok (db w')"
  using assms
proof (induction ticks arbitrary: w)
  case Nil
  then show ?case using evolved_refl by (auto simp: list_all2_same list_all_iff)
next
  case (Cons t ticks)
  show ?case
  proof (cases "cancelled w")
    case True
    with Cons.prems show ?thesis using evolved_refl by (auto simp: list_all2_same list_all_iff)
  next
    case False
    obtain q w1 where q: "drainBatch pf opts publish locked (w\<lparr>clock := t\<rparr>) = (q, w1)"
      by (cases "drainBatch pf opts publish locked (w\<lparr>clock := t\<rparr>)")
    have step: "list_all2 (evolved opts) (outbox_events (db w)) (outbox_events (db w1))"
      using drainBatch_evolves [OF q] Cons.prems(2,3) by simp
    have ok1: "db_ok (db w1)" using drainBatch_db_ok [OF q] Cons.prems(2) by simp
    have inv1: "list_all (event_inv opts) (outbox_events (db w1))"
      using step by (auto simp: list_all2_conv_all_nth list_all_length evolved_def)
    show ?thesis
    proof (cases "\<exists>p. q = Panic p")
      case True
      with Cons.prems(1) q False have "w' = w1" by auto
      with step ok1 show ?thesis by simp
    next
      case go: False
      obtain w2 where w2: "db w2 = db w1" "run_ticks pf opts publish locked ticks w2 = (r, w')"
        using Cons.prems(1) q False go that [of w1] that [of "emit (LogDrain _) w1"]
        by (cases q) (auto simp: emit_def split: if_splits)
      from Cons.IH [OF w2(2)] w2(1) ok1 inv1 have
        "list_all2 (evolved opts) (outbox_events (db w1)) (outbox_events (db w')) \<and> db_ok (db w')"
        by simp
      with step show ?thesis
        using list_all2_trans [of "evolved opts" "evolved opts" "evolved opts"] evolved_trans by blast
    qed
  qed
qed

lemma Run_evolves:
  assumes "Run pf opts publish locked ticks w = (r, w')" and "db_ok (db w)"
    and "list_all (event_inv opts) (outbox_events (db w))"
  shows "list_all2 (evolved opts) (outbox_events (db w)) (outbox_events (db w')) \<and> db_ok (db w')"
  using assms run_ticks_evolves [of pf opts locked ticks w r w'] evolved_refl
  by (auto simp: Run_def list_all2_same list_all_iff split: if_splits)

end

text \<open>C17: retries are bounded and nothing is lost.  Over any run of the publisher, with any sink and
  any faults, the table keeps its rows in order with their identity, payload and creation time; the
  attempts charged to an event never exceed \<open>MaxRetries\<close> and an event that has used them up is no
  longer open; and an event once published or dead lettered never changes again.\<close>

theorem retries_bounded_nothing_lost:
  assumes "sink publish" and "db_ok (db w)"
    and "list_all (event_inv opts) (outbox_events (db w))"
    and "Run pf opts publish locked ticks w = (r, w')"
  shows "list_all2 (\<lambda>x x'. event_of x' = event_of x \<and> ev_created_at x' = ev_created_at x \<and>
      ev_retry_count x' \<le> max 1 (po_MaxRetries opts) \<and>
      (ev_retry_count x' = max 1 (po_MaxRetries opts) \<longrightarrow> \<not> open_event x') \<and>
      (\<not> open_event x \<longrightarrow> x' = x)) (outbox_events (db w)) (outbox_events (db w'))"
  using sink.Run_evolves [OF assms(1,4,2,3)]
  by (elim conjE list_all2_mono) (auto simp: evolved_def event_inv_def)

definition broken_sink :: sink_fn where
  "broken_sink e w = (Err (Errorf ''broker down''), w)"

lemma broken_sink: "sink broken_sink"
  by unfold_locales (auto simp: broken_sink_def)

theorem retries_bounded_nothing_lost_witness:
  "length (outbox_events (db (snd (Run sample_platform sample_options broken_sink [] [2000, 3000]
      outbox_world)))) = 1"
  using list_all2_lengthD [OF retries_bounded_nothing_lost [OF broken_sink outbox_world_facts(2) _
        prod.collapse [symmetric], of sample_options sample_platform "[]" "[2000, 3000]"]]
  by (simp add: outbox_world_facts(3) event_inv_def new_event_row_def sample_options_def)

text \<open>C37: the backoff doubles exactly.  With a base of less than about 39 hours the wait after the
  \<open>n\<close>th failed attempt is the base times two to the \<open>n - 1\<close>, capped at two to the 16: no overflow
  and no negative wait, whatever the number of attempts.\<close>

theorem backoff_doubles:
  assumes "1 \<le> attempt" and "0 \<le> sint (po_BaseBackoff opts)" and "sint (po_BaseBackoff opts) < 2 ^ 47"
  shows "\<exists>d. backoff_for opts attempt = Ok d \<and>
    sint d = sint (po_BaseBackoff opts) * 2 ^ nat (min (attempt - 1) 16)"
proof -
  let ?n = "nat (min (attempt - 1) 16)" and ?b = "sint (po_BaseBackoff opts)"
  have "(2::int) ^ ?n \<le> 2 ^ 16" by (intro power_increasing) auto
  then have "?b * 2 ^ ?n < 2 ^ 47 * 2 ^ 16"
    using assms(2,3) by (intro mult_less_le_imp_less) auto
  then have "sint (word_of_int (?b * 2 ^ ?n) :: int64) = ?b * 2 ^ ?n"
    using assms(2) by (intro sint_word_of_int_fits) (auto intro: order_trans [of _ 0])
  moreover have "word_of_int (?b * 2 ^ ?n) = push_bit ?n (po_BaseBackoff opts)"
    by (simp add: push_bit_eq_mult wi_hom_mult [symmetric])
  ultimately show ?thesis using assms(1) by (auto simp: backoff_for_def Let_def)
qed

theorem backoff_doubles_witness:
  "\<exists>d. backoff_for sample_options 5 = Ok d \<and> sint d = 16000000000"
  using backoff_doubles [of 5 sample_options] by (simp add: sample_options_def)

text \<open>Publishers share the work fairly.  A batch holds the oldest due events that nobody has
  locked, as many as there are up to the batch size, oldest first; and a second publisher that
  claims while the first still holds its locks gets none of the first one's events.\<close>

theorem batches_oldest_first_and_disjoint:
  "\<exists>rest. mset (batch_rows now locked n rows @ rest) =
      mset (filter (\<lambda>r. due now r \<and> ev_id r \<notin> set locked) rows) \<and>
    sorted_wrt (\<lambda>x y. ev_created_at x \<le> ev_created_at y) (batch_rows now locked n rows @ rest) \<and>
    length (batch_rows now locked n rows) =
      min (nat n) (length (filter (\<lambda>r. due now r \<and> ev_id r \<notin> set locked) rows)) \<and>
    ev_id ` set (batch_rows now locked n rows) \<inter>
      ev_id ` set (batch_rows now (locked @ map ev_id (batch_rows now locked n rows)) m rows) = {}"
proof -
  let ?le = "\<lambda>x y. ev_created_at x \<le> ev_created_at y"
  let ?due = "filter (\<lambda>r. due now r \<and> ev_id r \<notin> set locked) rows"
  let ?rest = "drop (nat n) (sort_by ?le ?due)"
  have split: "batch_rows now locked n rows @ ?rest = sort_by ?le ?due"
    by (simp add: batch_rows_def)
  have "sorted_wrt ?le (sort_by ?le ?due)" by (rule sorted_sort_by) auto
  moreover have "ev_id ` set (batch_rows now locked n rows) \<inter>
      ev_id ` set (batch_rows now (locked @ map ev_id (batch_rows now locked n rows)) m rows) = {}"
    using set_batch_rows [of now "locked @ map ev_id (batch_rows now locked n rows)" m rows]
    by (fastforce simp: image_iff)
  ultimately show ?thesis
    using split length_batch_rows by (intro exI [of _ ?rest]) (simp del: mset_append)
qed

text \<open>Delivery is at least once, not exactly once.  When the sink has taken the whole batch but the
  commit fails, the rows are as before and the next drain delivers every event of the batch again:
  consumers have to deduplicate on the event id.\<close>

theorem failed_commit_redelivers:
  assumes "\<not> cancelled w" and "db_ok (db w)" and "0 \<le> po_BatchSize opts"
    and "script w = replicate (length (drained opts locked w) + 2) Fine @ [Refused m]"
  shows "\<exists>w1 w2. drainBatch pf opts LogSink locked w =
      (Err (Wrapf ''postgres: commit: '' (Driver m) []), w1) \<and> db w1 = db w \<and>
    drainBatch pf opts LogSink locked w1 = (Ok (), w2) \<and>
    logged w2 = logged w @ map published_log (drained opts locked w)
                         @ map published_log (drained opts locked w)"
proof -
  let ?brs = "drained opts locked w"
  let ?w0 = "used (Suc 0) w"
  have brs: "drained opts locked ?w0 = ?brs" by (simp add: drained_def)
  have q: "quiet (Suc (Suc (length ?brs))) w" using assms(1,4) by (simp add: quiet_def list_all_iff)
  have began: "driver_call True (\<lambda>d. Inr ((), d)) w = (Ok (), ?w0)"
    by (simp add: driver_call_quiet [OF q] run_stmt_def used_def)
  let ?w1 = "(used (Suc (length ?brs)) ?w0)
       \<lparr>db := set_events (publish_rows (clock w) ?brs (outbox_events (db w))) (db w),
        logged := logged w @ map published_log ?brs\<rparr>"
  have "drain_tx pf opts LogSink locked ?w0 = (Ok (), ?w1)"
    using drain_tx_LogSink [of opts locked ?w0 pf] quiet_used [OF q] assms(2,3) by (simp add: brs)
  moreover have "script ?w1 = [Refused m]" using assms(4) by simp
  ultimately obtain w1 where w1: "drainBatch pf opts LogSink locked w =
      (Err (Wrapf ''postgres: commit: '' (Driver m) []), w1)" "db w1 = db w" "clock w1 = clock w"
      "logged w1 = logged w @ map published_log ?brs" "calm w1"
    using began assms(1)
    by (simp add: drainBatch_def with_tx_def driver_call_def rollback_def run_stmt_def calm_def)
  from drainBatch_LogSink [OF w1(5), of opts pf locked] w1 assms(2,3) show ?thesis
    by (simp add: drained_def)
qed

theorem failed_commit_redelivers_witness:
  "\<exists>w1 w2. drainBatch sample_platform sample_options LogSink []
       (outbox_world\<lparr>script := [Fine, Fine, Fine, Refused ''connection reset'']\<rparr>) =
      (Err (Wrapf ''postgres: commit: '' (Driver ''connection reset'') []), w1) \<and>
    drainBatch sample_platform sample_options LogSink [] w1 = (Ok (), w2) \<and> length (logged w2) = 2"
proof -
  let ?w = "outbox_world\<lparr>script := [Fine, Fine, Fine, Refused ''connection reset'']\<rparr>"
  have len: "length (drained sample_options [] ?w) = 1"
    by (simp add: drained_def length_batch_rows outbox_world_facts(3) due_def new_event_row_def
        sample_options_def) (simp add: outbox_world_def sample_world_def)
  have "logged ?w = []" by (simp add: outbox_world_def sample_world_def)
  with len failed_commit_redelivers [of ?w sample_options "[]" "''connection reset''" sample_platform]
    outbox_world_facts(1,2) show ?thesis
    by (auto simp: calm_def sample_options_def numeral_eq_Suc)
qed

end
