(* ===== verification/Publisher_Race.thy ===== *)
theory Publisher_Race
  imports Outbox
begin

text \<open>
  Several publishers on one table.  Each runs \<open>drainBatch\<close> of \<open>internal/outbox/publisher.go\<close> statement by
  statement in a transaction of its own: \<open>SELECT ... FOR UPDATE SKIP LOCKED\<close>, then for every event of the
  batch the call of the sink and one \<open>UPDATE\<close>, then the commit.  Between two of these any other
  publisher, and any transaction that appends events, may run.  The relation \<open>fleet_step\<close> has one rule per
  action, with the SQL of the publisher; its theorems justify that the rest of the development takes a
  drain as one step.
\<close>

section \<open>The publishers\<close>

text \<open>
  An open transaction: the time it began, which is what \<open>now()\<close> returns throughout, the events it has
  claimed and those still to be published, the database as it sees it with its own writes, and what the
  sink answered, by event id (\<open>None\<close> for accepted).
\<close>

record publication =
  tx_now :: int
  tx_batch :: "claimed list"
  tx_pending :: "claimed list"
  tx_view :: database
  tx_answers :: "(string \<times> error option) list"

text \<open>
  All publishers: the committed database, the open transactions, the ids of the events the sink has
  accepted so far, and of those it accepted in transactions that were rolled back.
\<close>

record fleet =
  ft_table :: database
  ft_open :: "nat \<Rightarrow> publication option"
  ft_delivered :: "string list"
  ft_wasted :: "string list"

definition claim_ids :: "publication \<Rightarrow> string list" where
  "claim_ids t = map (\<lambda>c. e_id (cl_event c)) (tx_batch t)"

definition locked_ids :: "fleet \<Rightarrow> string set" where
  "locked_ids s = {i. \<exists>p t. ft_open s p = Some t \<and> i \<in> set (claim_ids t)}"

definition accepted :: "publication \<Rightarrow> string list" where
  "accepted t = map fst (filter (\<lambda>a. snd a = None) (tx_answers t))"

text \<open>A commit makes the versions of the locked rows visible.\<close>

definition commit_rows :: "publication \<Rightarrow> event_row list \<Rightarrow> event_row list" where
  "commit_rows t rows =
    map (\<lambda>r. if ev_id r \<in> set (claim_ids t)
             then (case find_row ev_id (ev_id r) (outbox_events (tx_view t)) of Some r' \<Rightarrow> r' | None \<Rightarrow> r)
             else r) rows"

definition commit_tx :: "publication \<Rightarrow> database \<Rightarrow> database" where
  "commit_tx t d = set_events (commit_rows t (outbox_events d)) d"

abbreviation runs :: "fleet \<Rightarrow> nat \<Rightarrow> publication option \<Rightarrow> fleet" where
  "runs s p x \<equiv> s\<lparr>ft_open := (ft_open s)(p := x)\<rparr>"

text \<open>
  A failed statement, a panic or a refused commit rolls the transaction back at any point; a commit whose
  answer is lost has committed.
\<close>

inductive fleet_step :: "platform \<Rightarrow> publisher_options \<Rightarrow> fleet \<Rightarrow> fleet \<Rightarrow> bool" for pf opts where
  claims:
    "ft_open s p = None \<Longrightarrow> set locked = locked_ids s \<Longrightarrow>
       sql_claim_batch now locked (po_BatchSize opts) (ft_table s) = Inr (batch, d) \<Longrightarrow>
       fleet_step pf opts s (runs s p (Some
         \<lparr>tx_now = now, tx_batch = batch, tx_pending = batch, tx_view = d, tx_answers = []\<rparr>))"
| accepts:
    "ft_open s p = Some t \<Longrightarrow> tx_pending t = c # rest \<Longrightarrow>
       sql_mark_published (tx_now t) (e_id (cl_event c)) (tx_view t) = Inr (u, d) \<Longrightarrow>
       fleet_step pf opts s ((runs s p (Some (t\<lparr>tx_pending := rest, tx_view := d,
           tx_answers := tx_answers t @ [(e_id (cl_event c), None)]\<rparr>)))
         \<lparr>ft_delivered := ft_delivered s @ [e_id (cl_event c)]\<rparr>)"
| accepts_unmarked:
    "ft_open s p = Some t \<Longrightarrow> tx_pending t = c # rest \<Longrightarrow>
       fleet_step pf opts s ((runs s p None)
         \<lparr>ft_delivered := ft_delivered s @ [e_id (cl_event c)],
          ft_wasted := ft_wasted s @ accepted t @ [e_id (cl_event c)]\<rparr>)"
| refuses:
    "ft_open s p = Some t \<Longrightarrow> tx_pending t = c # rest \<Longrightarrow> attempt = cl_retry_count c + 1 \<Longrightarrow>
       backoff_for opts attempt = Ok backoff \<Longrightarrow>
       sql_record_failure pf (tx_now t) (e_id (cl_event c)) (failure_status opts attempt) attempt
         (error_text cause) (duration_string backoff) (tx_view t) = Inr (u, d) \<Longrightarrow>
       fleet_step pf opts s (runs s p (Some (t\<lparr>tx_pending := rest, tx_view := d,
         tx_answers := tx_answers t @ [(e_id (cl_event c), Some cause)]\<rparr>)))"
| commits:
    "ft_open s p = Some t \<Longrightarrow> tx_pending t = [] \<Longrightarrow>
       fleet_step pf opts s ((runs s p None)\<lparr>ft_table := commit_tx t (ft_table s)\<rparr>)"
| rolls_back:
    "ft_open s p = Some t \<Longrightarrow>
       fleet_step pf opts s ((runs s p None)\<lparr>ft_wasted := ft_wasted s @ accepted t\<rparr>)"
| elsewhere:
    "outbox_events d = outbox_events (ft_table s) @ rows \<Longrightarrow> db_ok d \<Longrightarrow>
       list_all (\<lambda>r. ev_status r = ''pending'') rows \<Longrightarrow>
       fleet_step pf opts s (s\<lparr>ft_table := d\<rparr>)"

abbreviation fleet_steps :: "platform \<Rightarrow> publisher_options \<Rightarrow> fleet \<Rightarrow> fleet \<Rightarrow> bool" where
  "fleet_steps pf opts \<equiv> (fleet_step pf opts)\<^sup>*\<^sup>*"

definition idle_fleet :: "database \<Rightarrow> fleet" where
  "idle_fleet d = \<lparr>ft_table = d, ft_open = (\<lambda>_. None), ft_delivered = [], ft_wasted = []\<rparr>"

section \<open>A sink that gives recorded answers\<close>

definition answering :: "(string \<times> error option) list \<Rightarrow> sink_fn" where
  "answering answers e w =
    (case map_of answers (e_id e) of Some (Some cause) \<Rightarrow> Err cause | _ \<Rightarrow> Ok (), w)"

interpretation recorded: sink "answering answers" for answers
  by unfold_locales (auto simp: answering_def)

text \<open>What it makes of a row is determined, and more answers for other events do not change it.\<close>

lemma attempted_det:
  "attempted pf opts (answering as) now r r1 \<Longrightarrow> attempted pf opts (answering as) now r r2 \<Longrightarrow> r1 = r2"
  by (auto simp: attempted_def answering_def split: option.splits)

lemma attempted_more:
  assumes "attempted pf opts (answering as) now r r'" and "ev_id r \<in> fst ` set as"
  shows "attempted pf opts (answering (as @ bs)) now r r'"
proof -
  obtain a where "map_of as (ev_id r) = Some a"
    using assms(2) by (metis domIff dom_map_of_conv_image_fst not_None_eq)
  with assms(1) show ?thesis by (auto simp: attempted_def answering_def)
qed

lemma attempted_accepted:
  "map_of as (ev_id r) = Some None \<Longrightarrow> attempted pf opts (answering as) now r (published_row now r)"
  by (simp add: attempted_def answering_def)

lemma attempted_refused:
  assumes "map_of as (ev_id r) = Some (Some cause)" and "backoff_for opts (ev_retry_count r + 1) = Ok b"
    and "pf_interval pf (duration_string b) = Some wait" and "fits_int4 (ev_retry_count r + 1)"
  shows "attempted pf opts (answering as) now r
    (failed_row now (failure_status opts (ev_retry_count r + 1)) (ev_retry_count r + 1) (error_text cause) wait r)"
  using assms by (auto simp: attempted_def answering_def)

text \<open>Without faults such a sink lets the publisher finish its batch.\<close>

lemma markPublished_calm: "calm w \<Longrightarrow> \<exists>w'. markPublished eid w = (Ok (), w') \<and> calm w'"
  by (simp add: markPublished_def driver_call_calm run_stmt_def sql_mark_published_def calm_def)

lemma recordFailure_calm:
  assumes "calm w" and "backoff_for opts (ev_retry_count r + 1) = Ok b"
    and "pf_interval pf (duration_string b) = Some wait" and "fits_int4 (ev_retry_count r + 1)"
  shows "\<exists>w'. recordFailure pf opts (claimed_of r) cause w = (Ok (), w') \<and> calm w'"
proof -
  have "calm (emit e w)" for e using assms(1) by (simp add: calm_def emit_def)
  with assms show ?thesis
    by (simp add: recordFailure_def Let_def driver_call_calm run_stmt_def sql_record_failure_def)
       (simp add: calm_def)
qed

lemma publish_all_answering:
  assumes "calm w" and "list_all (\<lambda>r. \<exists>r'. attempted pf opts (answering as) now r r') brs"
  shows "\<exists>w'. publish_all pf opts (answering as) (map claimed_of brs) w = (Ok (), w') \<and> calm w'"
  using assms
proof (induction brs arbitrary: w)
  case (Cons r brs)
  show ?case
  proof (cases "\<exists>cause. map_of as (ev_id r) = Some (Some cause)")
    case False
    then have "answering as (event_of r) w = (Ok (), w)"
      by (auto simp: answering_def split: option.split)
    with markPublished_calm [OF Cons.prems(1), of "ev_id r"] Cons show ?thesis by auto
  next
    case True
    then obtain cause where c: "map_of as (ev_id r) = Some (Some cause)" by blast
    with Cons.prems(2) obtain b wait where "backoff_for opts (ev_retry_count r + 1) = Ok b"
        "pf_interval pf (duration_string b) = Some wait" "fits_int4 (ev_retry_count r + 1)"
      by (auto simp: attempted_def answering_def)
    from recordFailure_calm [OF Cons.prems(1) this, of cause] c Cons show ?thesis
      by (auto simp: answering_def)
  qed
qed simp

text \<open>So a drain alone on the table, with everybody else's events locked, takes exactly a given batch.\<close>

lemma batch_rows_exact:
  assumes "distinct (map ev_id rows)" and "set brs \<subseteq> set rows" and "distinct brs"
    and "\<forall>r \<in> set brs. due now r" and "int (length brs) \<le> n"
    and "locked = map ev_id (filter (\<lambda>r. r \<notin> set brs) rows)"
  shows "set (batch_rows now locked n rows) = set brs"
proof -
  have "due now r \<and> ev_id r \<notin> set locked \<longleftrightarrow> r \<in> set brs" if "r \<in> set rows" for r
    using that assms(1,2,4,6) by (auto simp: distinct_map dest: inj_onD)
  then have "filter (\<lambda>r. due now r \<and> ev_id r \<notin> set locked) rows = filter (\<lambda>r. r \<in> set brs) rows"
    by (intro filter_cong) auto
  moreover have "length (filter (\<lambda>r. r \<in> set brs) rows) = length brs"
  proof -
    have "distinct rows" using assms(1) by (simp add: distinct_map)
    then have "length (filter (\<lambda>r. r \<in> set brs) rows) = card (set brs \<inter> set rows)"
      by (simp add: distinct_card [symmetric] Int_def conj_commute)
    also have "set brs \<inter> set rows = set brs" using assms(2) by blast
    finally show ?thesis using assms(3) by (simp add: distinct_card)
  qed
  ultimately have "batch_rows now locked n rows =
      sort_by (\<lambda>a b. ev_created_at a \<le> ev_created_at b) (filter (\<lambda>r. r \<in> set brs) rows)"
    using assms(5) by (simp add: batch_rows_def)
  then show ?thesis using assms(2) by auto
qed

lemma serial_drain:
  assumes "calm w" and "db_ok (db w)" and "0 \<le> po_BatchSize opts"
    and "set brs \<subseteq> set (outbox_events (db w))" and "distinct brs" and "\<forall>r \<in> set brs. due (clock w) r"
    and "int (length brs) \<le> po_BatchSize opts"
    and "\<forall>r \<in> set brs. attempted pf opts (answering as) (clock w) r (f r)"
    and "locked = map ev_id (filter (\<lambda>r. r \<notin> set brs) (outbox_events (db w)))"
  shows "\<exists>w'. drainBatch pf opts (answering as) locked w = (Ok (), w') \<and>
    db w' = set_events (map (\<lambda>r. if r \<in> set brs then f r else r) (outbox_events (db w))) (db w)"
proof -
  let ?rows = "outbox_events (db w)"
  let ?batch = "batch_rows (clock w) locked (po_BatchSize opts) ?rows"
  have dist: "distinct (map ev_id ?rows)" using assms(2) by (simp add: db_ok_def)
  have batch: "set ?batch = set brs" by (rule batch_rows_exact [OF dist assms(4-7,9)])
  have "list_all (\<lambda>r. \<exists>r'. attempted pf opts (answering as) (clock w) r r') ?batch"
    using assms(8) batch by (auto simp: list_all_iff)
  from publish_all_answering [OF assms(1) this] obtain w1 where
    "publish_all pf opts (answering as) (map claimed_of ?batch) w = (Ok (), w1)" "calm w1" by blast
  then have "drain_tx pf opts (answering as) locked w = (Ok (), w1)"
    using assms(1,3)
    by (simp add: drain_tx_def claim_batch_def driver_call_calm run_stmt_def sql_claim_batch_def)
  from with_tx_calm [where fn = "drain_tx pf opts (answering as) locked", OF assms(1) this \<open>calm w1\<close>] have run:
    "drainBatch pf opts (answering as) locked w = (Ok (), w1)" by (simp add: drainBatch_def)
  from run assms(2) show ?thesis
  proof (cases rule: recorded.drainBatch_cases)
    case (committed g)
    have "g x = (if x \<in> set brs then f x else x)" if "x \<in> set ?rows" for x
      using committed(2) [OF that] batch assms(8) attempted_det by (auto split: if_splits)
    then have "map g ?rows = map (\<lambda>r. if r \<in> set brs then f r else r) ?rows" by simp
    with run committed(1) show ?thesis by auto
  qed simp
qed

section \<open>The invariant\<close>

text \<open>
  An open transaction holds rows of the table that are still due, at most a batch of them; those it is
  done with it sees as its sink's answers left them, the others as they are in the table.
\<close>

definition tx_sound :: "platform \<Rightarrow> publisher_options \<Rightarrow> event_row list \<Rightarrow> publication \<Rightarrow> event_row list \<Rightarrow> event_row list \<Rightarrow> bool" where
  "tx_sound pf opts rows t finished pend \<longleftrightarrow>
    tx_batch t = map claimed_of (finished @ pend) \<and> tx_pending t = map claimed_of pend \<and>
    map fst (tx_answers t) = map ev_id finished \<and>
    set (finished @ pend) \<subseteq> set rows \<and> distinct (map ev_id (finished @ pend)) \<and>
    (\<forall>r \<in> set (finished @ pend). due (tx_now t) r) \<and>
    0 \<le> po_BatchSize opts \<and> int (length (finished @ pend)) \<le> po_BatchSize opts \<and>
    (\<forall>r \<in> set finished. \<exists>r'. find_row ev_id (ev_id r) (outbox_events (tx_view t)) = Some r' \<and>
       attempted pf opts (answering (tx_answers t)) (tx_now t) r r') \<and>
    (\<forall>r \<in> set pend. find_row ev_id (ev_id r) (outbox_events (tx_view t)) = Some r)"

definition fleet_inv :: "platform \<Rightarrow> publisher_options \<Rightarrow> fleet \<Rightarrow> bool" where
  "fleet_inv pf opts s \<longleftrightarrow> db_ok (ft_table s) \<and>
    (\<forall>p t. ft_open s p = Some t \<longrightarrow>
       (\<exists>finished pend. tx_sound pf opts (outbox_events (ft_table s)) t finished pend)) \<and>
    (\<forall>p q t u. ft_open s p = Some t \<longrightarrow> ft_open s q = Some u \<longrightarrow> p \<noteq> q \<longrightarrow>
       set (claim_ids t) \<inter> set (claim_ids u) = {})"

lemma tx_soundD:
  assumes "tx_sound pf opts rows t finished pend"
  shows "set (finished @ pend) \<subseteq> set rows" and "\<And>r. r \<in> set (finished @ pend) \<Longrightarrow> due (tx_now t) r"
    and "map fst (tx_answers t) = map ev_id finished" and "distinct (map fst (tx_answers t))"
    and "\<And>r. r \<in> set finished \<Longrightarrow> \<exists>r'. find_row ev_id (ev_id r) (outbox_events (tx_view t)) = Some r' \<and>
       attempted pf opts (answering (tx_answers t)) (tx_now t) r r'"
  using assms by (simp_all add: tx_sound_def)

lemma tx_sound_ids: "tx_sound pf opts rows t finished pend \<Longrightarrow> claim_ids t = map ev_id (finished @ pend)"
  by (simp add: tx_sound_def claim_ids_def)

text \<open>The effect of a commit is that of the drain alone.\<close>

lemma commit_is_serial:
  assumes "tx_sound pf opts (outbox_events d) t finished []" and "db_ok d"
  shows "\<exists>locked w w'. calm w \<and> db w = d \<and> clock w = tx_now t \<and>
    drainBatch pf opts (answering (tx_answers t)) locked w = (Ok (), w') \<and> db w' = commit_tx t d"
proof -
  note sound = assms(1) [unfolded tx_sound_def append_Nil2]
  let ?w = "\<lparr>db = d, script = [], cancelled = False, clock = tx_now t, uuids = 0, logged = []\<rparr>"
  let ?f = "\<lambda>r. case find_row ev_id (ev_id r) (outbox_events (tx_view t)) of Some r' \<Rightarrow> r' | None \<Rightarrow> r"
  let ?locked = "map ev_id (filter (\<lambda>r. r \<notin> set finished) (outbox_events d))"
  have dist: "distinct (map ev_id (outbox_events d))" using assms(2) by (simp add: db_ok_def)
  have "\<exists>w'. drainBatch pf opts (answering (tx_answers t)) ?locked ?w = (Ok (), w') \<and>
      db w' = set_events (map (\<lambda>r. if r \<in> set finished then ?f r else r) (outbox_events (db ?w))) (db ?w)"
    by (rule serial_drain) (use sound assms(2) in \<open>force simp: calm_def distinct_map\<close>)+
  then obtain w' where w': "drainBatch pf opts (answering (tx_answers t)) ?locked ?w = (Ok (), w')"
    "db w' = set_events (map (\<lambda>r. if r \<in> set finished then ?f r else r) (outbox_events d)) d" by auto
  have "ev_id r \<in> set (claim_ids t) \<longleftrightarrow> r \<in> set finished" if "r \<in> set (outbox_events d)" for r
    using that sound dist tx_sound_ids [OF assms(1)] by (auto simp: distinct_map dest: inj_onD)
  then have "commit_rows t (outbox_events d) = map (\<lambda>r. if r \<in> set finished then ?f r else r) (outbox_events d)"
    by (auto simp: commit_rows_def)
  with w'(2) have "db w' = commit_tx t d" by (simp add: commit_tx_def)
  moreover have "calm ?w" "db ?w = d" "clock ?w = tx_now t" by (simp_all add: calm_def)
  ultimately show ?thesis using w'(1) by blast
qed

text \<open>How the statements keep an open transaction sound.\<close>

lemma tx_sound_rows:
  assumes "tx_sound pf opts rows t finished pend"
    and "\<And>r. r \<in> set rows \<Longrightarrow> ev_id r \<in> set (claim_ids t) \<Longrightarrow> r \<in> set rows'"
  shows "tx_sound pf opts rows' t finished pend"
proof -
  have "set (finished @ pend) \<subseteq> set rows'"
    using assms tx_sound_ids [OF assms(1)] by (auto simp: tx_sound_def)
  with assms(1) show ?thesis by (simp add: tx_sound_def)
qed

lemma tx_sound_claimed:
  assumes "sql_claim_batch now locked (po_BatchSize opts) d = Inr (batch, d')" and "db_ok d"
  shows "\<exists>brs. tx_sound pf opts (outbox_events d)
      \<lparr>tx_now = now, tx_batch = batch, tx_pending = batch, tx_view = d', tx_answers = []\<rparr> [] brs \<and>
    batch = map claimed_of brs \<and> (\<forall>r \<in> set brs. ev_id r \<notin> set locked)"
proof -
  let ?brs = "batch_rows now locked (po_BatchSize opts) (outbox_events d)"
  have keys: "distinct (map ev_id (outbox_events d))" using assms(2) by (simp add: db_ok_def)
  have "int (length ?brs) \<le> po_BatchSize opts" if "0 \<le> po_BatchSize opts"
    using that by (simp add: length_batch_rows)
  moreover have "find_row ev_id (ev_id r) (outbox_events d) = Some r" if "r \<in> set ?brs" for r
    using that set_batch_rows [of now locked "po_BatchSize opts" "outbox_events d"] keys
    by (auto simp: find_row_eq_Some)
  ultimately show ?thesis
    using assms set_batch_rows [of now locked "po_BatchSize opts" "outbox_events d"]
      distinct_batch_keys [OF keys, of now locked "po_BatchSize opts"]
    by (intro exI [of _ ?brs]) (auto simp: tx_sound_def sql_claim_batch_def split: if_splits)
qed

text \<open>One event: the sink has answered \<open>a\<close> and the row has been updated by \<open>g\<close>.\<close>

lemma tx_sound_answered:
  assumes "tx_sound pf opts rows t finished (r # pend)"
    and "outbox_events d = update_rows (\<lambda>x. ev_id x = ev_id r) g (outbox_events (tx_view t))"
    and "\<And>x. ev_id (g x) = ev_id x"
    and "\<And>as. map_of as (ev_id r) = Some a \<Longrightarrow> attempted pf opts (answering as) (tx_now t) r (g r)"
  shows "tx_sound pf opts rows (t\<lparr>tx_pending := map claimed_of pend, tx_view := d,
      tx_answers := tx_answers t @ [(ev_id r, a)]\<rparr>) (finished @ [r]) pend"
proof -
  note sound = assms(1) [unfolded tx_sound_def]
  let ?as = "tx_answers t @ [(ev_id r, a)]"
  have new: "ev_id r \<notin> fst ` set (tx_answers t)"
    using sound by (metis (no_types, lifting) distinct_append distinct.simps(2) list.set_map map_append
        list.simps(9) disjoint_iff list.set_intros(1))
  then have "map_of ?as (ev_id r) = Some a"
    by (simp add: map_add_def map_of_eq_None_iff [THEN iffD2])
  then have r: "attempted pf opts (answering ?as) (tx_now t) r (g r)" by (rule assms(4))
  have view: "find_row ev_id k (outbox_events d) =
      map_option (\<lambda>x. if ev_id x = ev_id r then g x else x) (find_row ev_id k (outbox_events (tx_view t)))" for k
    unfolding assms(2) by (rule find_row_update [where key = ev_id and f = g, OF assms(3)])
  have "\<exists>x'. find_row ev_id (ev_id x) (outbox_events d) = Some x' \<and>
      attempted pf opts (answering ?as) (tx_now t) x x'" if "x \<in> set finished" for x
  proof -
    from that sound obtain x' where x': "find_row ev_id (ev_id x) (outbox_events (tx_view t)) = Some x'"
        "attempted pf opts (answering (tx_answers t)) (tx_now t) x x'" by blast
    have "ev_id x \<in> fst ` set (tx_answers t)" using that sound by (metis list.set_map image_eqI)
    moreover from this new have "ev_id x \<noteq> ev_id r" by metis
    ultimately show ?thesis
      using x' attempted_more view [of "ev_id x"] attempted_key [OF x'(2)] new by auto
  qed
  moreover have "find_row ev_id (ev_id x) (outbox_events d) = Some x" if "x \<in> set pend" for x
    using that sound view by (auto simp: image_iff)
  moreover have "find_row ev_id (ev_id r) (outbox_events d) = Some (g r)"
    using sound view by simp
  ultimately show ?thesis
    using sound r unfolding tx_sound_def by simp
qed


lemma sql_mark_published_answered:
  assumes "sql_mark_published (tx_now t) (ev_id r) (tx_view t) = Inr (u, d)"
    and "tx_sound pf opts rows t finished (r # pend)"
  shows "tx_sound pf opts rows (t\<lparr>tx_pending := map claimed_of pend, tx_view := d,
      tx_answers := tx_answers t @ [(ev_id r, None)]\<rparr>) (finished @ [r]) pend"
  using assms
  by (intro tx_sound_answered [where g = "published_row (tx_now t)"] attempted_accepted)
     (auto simp: sql_mark_published_def published_row_def)

lemma sql_record_failure_answered:
  assumes "sql_record_failure pf (tx_now t) (ev_id r) (failure_status opts (ev_retry_count r + 1))
      (ev_retry_count r + 1) (error_text cause) (duration_string b) (tx_view t) = Inr (u, d)"
    and "backoff_for opts (ev_retry_count r + 1) = Ok b"
    and "tx_sound pf opts rows t finished (r # pend)"
  shows "tx_sound pf opts rows (t\<lparr>tx_pending := map claimed_of pend, tx_view := d,
      tx_answers := tx_answers t @ [(ev_id r, Some cause)]\<rparr>) (finished @ [r]) pend"
proof -
  let ?n = "ev_retry_count r + 1"
  obtain wait where wait: "pf_interval pf (duration_string b) = Some wait" "fits_int4 ?n"
    "outbox_events d = update_rows (\<lambda>x. ev_id x = ev_id r)
       (failed_row (tx_now t) (failure_status opts ?n) ?n (error_text cause) wait) (outbox_events (tx_view t))"
    using assms(1) by (auto simp: sql_record_failure_def split: option.splits if_splits)
  show ?thesis
  proof (rule tx_sound_answered [OF assms(3) wait(3)])
    show "ev_id (failed_row (tx_now t) (failure_status opts ?n) ?n (error_text cause) wait x) = ev_id x" for x
      by (simp add: failed_row_def)
    show "attempted pf opts (answering as) (tx_now t) r
        (failed_row (tx_now t) (failure_status opts ?n) ?n (error_text cause) wait r)"
      if "map_of as (ev_id r) = Some (Some cause)" for as
      using that assms(2) wait(1,2) by (rule attempted_refused)
  qed
qed

text \<open>The three parts of the invariant when one publisher moves.\<close>

lemma fleet_inv_tx:
  "fleet_inv pf opts s \<Longrightarrow> ft_open s p = Some t \<Longrightarrow>
     \<exists>finished pend. tx_sound pf opts (outbox_events (ft_table s)) t finished pend"
  by (simp add: fleet_inv_def)

lemma fleet_inv_disjoint:
  "fleet_inv pf opts s \<Longrightarrow> ft_open s p = Some t \<Longrightarrow> ft_open s q = Some u \<Longrightarrow> p \<noteq> q \<Longrightarrow>
     set (claim_ids t) \<inter> set (claim_ids u) = {}"
  unfolding fleet_inv_def by blast

lemma fleet_inv_move:
  assumes "fleet_inv pf opts s" and "ft_table s' = ft_table s" and "ft_open s' = (ft_open s)(p := x)"
    and "\<And>t. x = Some t \<Longrightarrow> \<exists>finished pend. tx_sound pf opts (outbox_events (ft_table s)) t finished pend"
    and "\<And>t q u. x = Some t \<Longrightarrow> ft_open s q = Some u \<Longrightarrow> p \<noteq> q \<Longrightarrow> set (claim_ids t) \<inter> set (claim_ids u) = {}"
  shows "fleet_inv pf opts s'"
  unfolding fleet_inv_def
proof (intro conjI allI impI)
  show "db_ok (ft_table s')" using assms(1,2) by (simp add: fleet_inv_def)
  show "\<exists>finished pend. tx_sound pf opts (outbox_events (ft_table s')) t finished pend"
    if "ft_open s' q = Some t" for q t
    using that assms(2,3) assms(4) [of t] fleet_inv_tx [OF assms(1)] by (auto split: if_splits)
  show "set (claim_ids t) \<inter> set (claim_ids u) = {}"
    if "ft_open s' q = Some t" "ft_open s' r = Some u" "q \<noteq> r" for q r t u
    using that assms(3) assms(5) [of t r u] assms(5) [of u q t] fleet_inv_disjoint [OF assms(1), of q t r u]
    by (cases "q = p"; cases "r = p") (auto simp: Int_commute)
qed

lemma fleet_inv_answer:
  assumes "fleet_inv pf opts s" and "ft_open s p = Some t" and "ft_table s' = ft_table s"
    and "ft_open s' = (ft_open s)(p := Some t')" and "tx_batch t' = tx_batch t"
    and "tx_sound pf opts (outbox_events (ft_table s)) t' finished pend"
  shows "fleet_inv pf opts s'"
  using assms(1,3,4)
proof (rule fleet_inv_move)
  show "\<exists>finished pend. tx_sound pf opts (outbox_events (ft_table s)) v finished pend" if "Some t' = Some v" for v
    using that assms(6) by blast
  show "set (claim_ids v) \<inter> set (claim_ids u) = {}"
    if "Some t' = Some v" "ft_open s q = Some u" "p \<noteq> q" for v q u
    using fleet_inv_disjoint [OF assms(1,2) that(2,3)] that(1) assms(5) by (simp add: claim_ids_def)
qed

lemma tx_sound_next:
  assumes "fleet_inv pf opts s" and "ft_open s p = Some t" and "tx_pending t = c # rest"
  obtains finished r pend where "tx_sound pf opts (outbox_events (ft_table s)) t finished (r # pend)"
    and "c = claimed_of r" and "rest = map claimed_of pend"
proof -
  obtain finished brs where sound: "tx_sound pf opts (outbox_events (ft_table s)) t finished brs"
    using fleet_inv_tx [OF assms(1,2)] by blast
  moreover from this assms(3) obtain r pend where "brs = r # pend" "c = claimed_of r" "rest = map claimed_of pend"
    by (cases brs) (auto simp: tx_sound_def)
  ultimately show thesis using that by blast
qed

lemma commit_fleet_inv:
  assumes "fleet_inv pf opts s" and "ft_open s p = Some t" and "tx_pending t = []"
  shows "fleet_inv pf opts ((runs s p None)\<lparr>ft_table := commit_tx t (ft_table s)\<rparr>)"
proof -
  have ok: "db_ok (ft_table s)" using assms(1) by (simp add: fleet_inv_def)
  obtain finished where "tx_sound pf opts (outbox_events (ft_table s)) t finished []"
    using fleet_inv_tx [OF assms(1,2)] assms(3) by (auto simp: tx_sound_def)
  from commit_is_serial [OF this ok] have "db_ok (commit_tx t (ft_table s))"
    using recorded.drainBatch_db_ok ok by metis
  moreover have "\<exists>finished pend. tx_sound pf opts (outbox_events (commit_tx t (ft_table s))) u finished pend"
    if other: "ft_open s q = Some u" "q \<noteq> p" for q u
  proof -
    obtain finished pend where u: "tx_sound pf opts (outbox_events (ft_table s)) u finished pend"
      using fleet_inv_tx [OF assms(1) other(1)] by blast
    have "r \<in> set (outbox_events (commit_tx t (ft_table s)))"
      if "r \<in> set (outbox_events (ft_table s))" "ev_id r \<in> set (claim_ids u)" for r
      using that fleet_inv_disjoint [OF assms(1) other(1) assms(2) other(2)]
      by (force simp: commit_tx_def commit_rows_def)
    then show ?thesis using tx_sound_rows [OF u] by blast
  qed
  ultimately show ?thesis
    using fleet_inv_disjoint [OF assms(1)] unfolding fleet_inv_def by (auto split: if_splits)
qed

lemma claims_fleet_inv:
  assumes "fleet_inv pf opts s" and "set locked = locked_ids s"
    and "sql_claim_batch now locked (po_BatchSize opts) (ft_table s) = Inr (batch, d)"
  shows "fleet_inv pf opts (runs s p (Some
      \<lparr>tx_now = now, tx_batch = batch, tx_pending = batch, tx_view = d, tx_answers = []\<rparr>))"
proof -
  have ok: "db_ok (ft_table s)" using assms(1) by (simp add: fleet_inv_def)
  obtain brs where brs: "tx_sound pf opts (outbox_events (ft_table s))
      \<lparr>tx_now = now, tx_batch = batch, tx_pending = batch, tx_view = d, tx_answers = []\<rparr> [] brs"
    "\<forall>r \<in> set brs. ev_id r \<notin> locked_ids s"
    using tx_sound_claimed [OF assms(3) ok] assms(2) by auto
  show ?thesis
  proof (rule fleet_inv_move [OF assms(1)])
    show "set (claim_ids t) \<inter> set (claim_ids u) = {}"
      if "Some \<lparr>tx_now = now, tx_batch = batch, tx_pending = batch, tx_view = d, tx_answers = []\<rparr> = Some t"
        "ft_open s q = Some u" for t q u
      using that tx_sound_ids [OF brs(1)] brs(2) by (auto simp: locked_ids_def)
  qed (use brs(1) in auto)
qed

lemma fleet_inv_step:
  "fleet_step pf opts s s' \<Longrightarrow> fleet_inv pf opts s \<Longrightarrow> fleet_inv pf opts s'"
proof (induction rule: fleet_step.induct)
  case (claims s p locked now batch d)
  then show ?case by (intro claims_fleet_inv)
next
  case (accepts s p t c rest u d)
  from accepts(4,1,2) obtain finished r pend where
    r: "tx_sound pf opts (outbox_events (ft_table s)) t finished (r # pend)"
      "c = claimed_of r" "rest = map claimed_of pend" by (rule tx_sound_next)
  show ?case
    by (rule fleet_inv_answer [OF accepts(4,1) _ _ _ sql_mark_published_answered [OF _ r(1)]])
       (use accepts(3) r(2,3) in simp_all)
next
  case (refuses s p t c rest attempt backoff cause u d)
  from refuses(6,1,2) obtain finished r pend where
    r: "tx_sound pf opts (outbox_events (ft_table s)) t finished (r # pend)"
      "c = claimed_of r" "rest = map claimed_of pend" by (rule tx_sound_next)
  show ?case
    by (rule fleet_inv_answer [OF refuses(6,1) _ _ _ sql_record_failure_answered [OF _ _ r(1)]])
       (use refuses(3-5) r(2,3) in simp_all)
next
  case (commits s p t)
  then show ?case by (intro commit_fleet_inv)
next
  case (elsewhere d s rows)
  have "\<exists>finished pend. tx_sound pf opts (outbox_events d) t finished pend" if "ft_open s p = Some t" for p t
    using fleet_inv_tx [OF elsewhere(4) that] tx_sound_rows elsewhere(1) by (metis UnCI set_append)
  with elsewhere show ?case by (simp add: fleet_inv_def)
qed (auto intro: fleet_inv_move)

lemma fleet_inv_idle: "db_ok d \<Longrightarrow> fleet_inv pf opts (idle_fleet d)"
  by (simp add: fleet_inv_def idle_fleet_def)

lemma fleet_inv_steps: "fleet_steps pf opts s s' \<Longrightarrow> fleet_inv pf opts s \<Longrightarrow> fleet_inv pf opts s'"
  by (induction rule: rtranclp_induct) (auto intro: fleet_inv_step)


section \<open>What is delivered\<close>

definition published_in :: "database \<Rightarrow> string \<Rightarrow> bool" where
  "published_in d i \<longleftrightarrow> (\<exists>r \<in> set (outbox_events d). ev_id r = i \<and> ev_status r = ''published'')"

definition in_flight :: "(nat \<Rightarrow> publication option) \<Rightarrow> string \<Rightarrow> bool" where
  "in_flight open_txs i \<longleftrightarrow> (\<exists>p t. open_txs p = Some t \<and> i \<in> set (accepted t))"

lemma accepted_claimed:
  assumes "fleet_inv pf opts s" and "ft_open s p = Some t"
  shows "set (accepted t) \<subseteq> set (claim_ids t)" and "distinct (accepted t)"
proof -
  obtain finished pend where sound: "tx_sound pf opts (outbox_events (ft_table s)) t finished pend"
    using fleet_inv_tx [OF assms] by blast
  then have fst: "map fst (tx_answers t) = map ev_id finished" and dist: "distinct (map ev_id finished)"
    by (simp_all add: tx_sound_def)
  have "set (accepted t) \<subseteq> set (map fst (tx_answers t))" by (auto simp: accepted_def)
  then show "set (accepted t) \<subseteq> set (claim_ids t)" unfolding fst tx_sound_ids [OF sound] by auto
  from dist show "distinct (accepted t)"
    unfolding fst [symmetric] accepted_def by (rule distinct_map_filter)
qed

lemma claimed_not_published:
  assumes "fleet_inv pf opts s" and "ft_open s p = Some t" and "i \<in> set (claim_ids t)"
  shows "\<not> published_in (ft_table s) i"
proof -
  obtain finished pend where sound: "tx_sound pf opts (outbox_events (ft_table s)) t finished pend"
    using fleet_inv_tx [OF assms(1,2)] by blast
  have "i \<in> ev_id ` set (finished @ pend)" using assms(3) tx_sound_ids [OF sound] by auto
  then obtain r where r: "r \<in> set (outbox_events (ft_table s))" "ev_id r = i" "due (tx_now t) r"
    using tx_soundD(1,2) [OF sound] by blast
  have "distinct (map ev_id (outbox_events (ft_table s)))" using assms(1) by (simp add: fleet_inv_def db_ok_def)
  then have "r' = r" if "r' \<in> set (outbox_events (ft_table s))" "ev_id r' = i" for r'
    using that r(1,2) by (metis distinct_map inj_onD)
  then show ?thesis using r(3) by (auto simp: published_in_def due_def)
qed

lemma next_not_published:
  assumes "fleet_inv pf opts s" and "ft_open s p = Some t" and "tx_pending t = c # rest"
  shows "\<not> published_in (ft_table s) (e_id (cl_event c))"
proof (rule claimed_not_published [OF assms(1,2)])
  from assms obtain finished r pend where "tx_sound pf opts (outbox_events (ft_table s)) t finished (r # pend)"
    "c = claimed_of r" by (rule tx_sound_next)
  with tx_sound_ids show "e_id (cl_event c) \<in> set (claim_ids t)" by fastforce
qed

text \<open>One publisher's part of what is in flight.\<close>

lemma in_flight_split:
  assumes "fleet_inv pf opts s" and "ft_open s p = Some t"
  shows "of_bool (in_flight (ft_open s) i) =
    count_list (accepted t) i + (of_bool (in_flight ((ft_open s)(p := None)) i) :: nat)"
proof -
  have one: "count_list (accepted t) i = of_bool (i \<in> set (accepted t))"
    using accepted_claimed(2) [OF assms] by (simp add: distinct_count_one)
  have "\<not> in_flight ((ft_open s)(p := None)) i" if "i \<in> set (accepted t)"
    using that accepted_claimed(1) [OF assms(1)] assms(2) fleet_inv_disjoint [OF assms] unfolding in_flight_def
    by (auto split: if_splits) blast
  moreover have "in_flight (ft_open s) i \<longleftrightarrow> i \<in> set (accepted t) \<or> in_flight ((ft_open s)(p := None)) i"
  proof
    assume "in_flight (ft_open s) i"
    then obtain q u where u: "ft_open s q = Some u" "i \<in> set (accepted u)" by (auto simp: in_flight_def)
    with assms(2) show "i \<in> set (accepted t) \<or> in_flight ((ft_open s)(p := None)) i"
      by (cases "q = p") (auto simp: in_flight_def)
  qed (use assms(2) in \<open>auto simp: in_flight_def split: if_splits\<close>)
  ultimately show ?thesis unfolding one by auto
qed

lemma in_flight_same:
  assumes "\<And>i. (\<exists>t. x = Some t \<and> i \<in> set (accepted t)) \<longleftrightarrow> (\<exists>t. ts p = Some t \<and> i \<in> set (accepted t))"
  shows "in_flight (ts(p := x)) i \<longleftrightarrow> in_flight ts i"
  unfolding in_flight_def using assms by (metis fun_upd_apply)

text \<open>A commit publishes what the sink accepted and nothing else.\<close>

lemma commit_publishes:
  assumes "fleet_inv pf opts s" and "ft_open s p = Some t" and "tx_pending t = []"
  shows "published_in (commit_tx t (ft_table s)) i \<longleftrightarrow> published_in (ft_table s) i \<or> i \<in> set (accepted t)"
proof -
  let ?rows = "outbox_events (ft_table s)"
  let ?f = "\<lambda>r. if ev_id r \<in> set (claim_ids t)
     then (case find_row ev_id (ev_id r) (outbox_events (tx_view t)) of Some r' \<Rightarrow> r' | None \<Rightarrow> r) else r"
  obtain finished where sound: "tx_sound pf opts ?rows t finished []"
    using fleet_inv_tx [OF assms(1,2)] assms(3) by (auto simp: tx_sound_def)
  have ids: "set (claim_ids t) = ev_id ` set finished" using tx_sound_ids [OF sound] by simp
  have sub: "set finished \<subseteq> set ?rows" using tx_soundD(1) [OF sound] by simp
  note dist = tx_soundD(4) [OF sound]
  have row: "ev_id (?f r) = ev_id r \<and> (ev_status (?f r) = ''published'' \<longleftrightarrow> ev_id r \<in> set (accepted t))"
    if r: "r \<in> set finished" for r
  proof -
    from tx_soundD(5) [OF sound r] obtain r' where
      r': "find_row ev_id (ev_id r) (outbox_events (tx_view t)) = Some r'"
        "attempted pf opts (answering (tx_answers t)) (tx_now t) r r'" by blast
    have "ev_id r \<in> set (map fst (tx_answers t))" using r tx_soundD(3) [OF sound] by simp
    then obtain a where "(ev_id r, a) \<in> set (tx_answers t)" by auto
    with dist have m: "map_of (tx_answers t) (ev_id r) = Some a" by simp
    have "ev_id r \<in> set (accepted t) \<longleftrightarrow> a = None"
    proof -
      have "ev_id r \<in> set (accepted t) \<longleftrightarrow> (ev_id r, None) \<in> set (tx_answers t)"
        by (force simp: accepted_def)
      also have "\<dots> \<longleftrightarrow> map_of (tx_answers t) (ev_id r) = Some None"
        using dist by (simp add: map_of_eq_Some_iff)
      finally show ?thesis by (simp add: m)
    qed
    moreover have "ev_status r' = ''published'' \<longleftrightarrow> a = None"
      using r'(2) m by (cases a) (auto simp: attempted_def answering_def published_row_def failed_row_def
          failure_status_def event_status_defs split: if_splits)
    ultimately show ?thesis using r r' attempted_key [OF r'(2)] by (simp add: ids)
  qed
  have distr: "distinct (map ev_id ?rows)" using assms(1) by (simp add: fleet_inv_def db_ok_def)
  then have cl: "ev_id r \<in> set (claim_ids t) \<longleftrightarrow> r \<in> set finished" if "r \<in> set ?rows" for r
    using that sub by (auto simp: ids distinct_map dest: inj_onD)
  have "published_in (commit_tx t (ft_table s)) i \<longleftrightarrow>
      (\<exists>r \<in> set ?rows. ev_id (?f r) = i \<and> ev_status (?f r) = ''published'')"
    unfolding published_in_def commit_tx_def set_events_simps commit_rows_def set_map bex_simps by (rule refl)
  also have "\<dots> \<longleftrightarrow> (\<exists>r \<in> set ?rows. ev_id r = i \<and>
      (if r \<in> set finished then i \<in> set (accepted t) else ev_status r = ''published''))"
  proof (intro bex_cong refl)
    fix r assume r: "r \<in> set ?rows"
    show "ev_id (?f r) = i \<and> ev_status (?f r) = ''published'' \<longleftrightarrow> ev_id r = i \<and>
        (if r \<in> set finished then i \<in> set (accepted t) else ev_status r = ''published'')"
    proof (cases "r \<in> set finished")
      case True
      with row [OF True] show ?thesis by auto
    next
      case False
      with cl [OF r] show ?thesis by simp
    qed
  qed
  also have "\<dots> \<longleftrightarrow> published_in (ft_table s) i \<or> i \<in> set (accepted t)"
  proof -
    have "\<exists>r \<in> set finished. ev_id r = i" if "i \<in> set (accepted t)"
      using that accepted_claimed(1) [OF assms(1,2)] ids by (auto simp: image_iff)
    moreover have "r \<notin> set finished" if "r \<in> set ?rows" "ev_status r = ''published''" for r
      using that tx_soundD(2) [OF sound, of r] by (auto simp: due_def)
    ultimately show ?thesis using sub unfolding published_in_def by auto
  qed
  finally show ?thesis .
qed

text \<open>Every delivery is accounted for.\<close>

definition deliveries_balance :: "database \<Rightarrow> fleet \<Rightarrow> bool" where
  "deliveries_balance d s \<longleftrightarrow>
    (\<forall>i. count_list (ft_delivered s) i = count_list (ft_wasted s) i + of_bool (in_flight (ft_open s) i) +
         of_bool (published_in (ft_table s) i \<and> \<not> published_in d i)) \<and>
    (\<forall>i. published_in d i \<longrightarrow> published_in (ft_table s) i \<and> i \<notin> set (ft_delivered s))"


lemma deliveries_balance_step:
  assumes "fleet_step pf opts s s'" and "fleet_inv pf opts s" and "deliveries_balance d s"
  shows "deliveries_balance d s'"
  using assms(1)
proof cases
  case (claims p locked now batch d')
  let ?t = "\<lparr>tx_now = now, tx_batch = batch, tx_pending = batch, tx_view = d', tx_answers = []\<rparr>"
  have "in_flight ((ft_open s)(p := Some ?t)) i = in_flight (ft_open s) i" for i
    using claims(2) by (intro in_flight_same) (simp add: accepted_def)
  with claims(1) assms(3) show ?thesis by (simp add: deliveries_balance_def)
next
  case (accepts p t c rest u d')
  let ?i = "e_id (cl_event c)"
  let ?t = "t\<lparr>tx_pending := rest, tx_view := d', tx_answers := tx_answers t @ [(?i, None)]\<rparr>"
  have new: "accepted ?t = accepted t @ [?i]" by (simp add: accepted_def)
  have open': "ft_open s' p = Some ?t" "(ft_open s')(p := None) = (ft_open s)(p := None)"
    using accepts(1) by auto
  note in_flight_split [OF assms(2) accepts(2)]
    in_flight_split [OF fleet_inv_step [OF assms(1,2)] open'(1), unfolded open'(2) new]
  moreover have "\<not> published_in d ?i"
    using assms(3) next_not_published [OF assms(2) accepts(2,3)] by (auto simp: deliveries_balance_def)
  ultimately show ?thesis using assms(3) accepts(1) by (auto simp: deliveries_balance_def)
next
  case (accepts_unmarked p t c rest)
  have "\<not> published_in d (e_id (cl_event c))"
    using assms(3) next_not_published [OF assms(2) accepts_unmarked(2,3)] by (auto simp: deliveries_balance_def)
  with in_flight_split [OF assms(2) accepts_unmarked(2)] assms(3) accepts_unmarked(1)
  show ?thesis by (auto simp: deliveries_balance_def)
next
  case (refuses p t c rest attempt backoff cause u d')
  let ?i = "e_id (cl_event c)"
  let ?t = "t\<lparr>tx_pending := rest, tx_view := d', tx_answers := tx_answers t @ [(?i, Some cause)]\<rparr>"
  have "accepted ?t = accepted t" by (simp add: accepted_def)
  then have "in_flight ((ft_open s)(p := Some ?t)) i = in_flight (ft_open s) i" for i
    using refuses(2) by (intro in_flight_same) simp
  with refuses(1) assms(3) show ?thesis by (simp add: deliveries_balance_def)
next
  case (commits p t)
  have "count_list (accepted t) i = of_bool (i \<in> set (accepted t))" for i
    using accepted_claimed(2) [OF assms(2) commits(2)] by (rule distinct_count_one)
  note in_flight_split [OF assms(2) commits(2), unfolded this]
  moreover have "\<not> published_in (ft_table s) i" if "i \<in> set (accepted t)" for i
    using that accepted_claimed(1) [OF assms(2) commits(2)] claimed_not_published [OF assms(2) commits(2)] by blast
  moreover have "published_in (ft_table s') i \<longleftrightarrow> published_in (ft_table s) i \<or> i \<in> set (accepted t)" for i
    using commit_publishes [OF assms(2) commits(2,3)] commits(1) by simp
  ultimately show ?thesis using assms(3) commits(1) unfolding deliveries_balance_def
    by (auto simp: of_bool_def)
next
  case (rolls_back p t)
  with in_flight_split [OF assms(2) rolls_back(2)] assms(3)
  show ?thesis by (auto simp: deliveries_balance_def)
next
  case (elsewhere d' rows)
  have "published_in d' i = published_in (ft_table s) i" for i
    using elsewhere(2,4) by (auto simp: published_in_def list_all_iff)
  with elsewhere(1) assms(3) show ?thesis by (simp add: deliveries_balance_def)
qed


lemma deliveries_balance_steps:
  assumes "fleet_steps pf opts (idle_fleet d) s" and "db_ok d"
  shows "fleet_inv pf opts s \<and> deliveries_balance d s"
  using assms(1)
proof (induction rule: rtranclp_induct)
  case base
  have "deliveries_balance d (idle_fleet d)"
    by (simp add: deliveries_balance_def idle_fleet_def in_flight_def)
  with fleet_inv_idle [OF assms(2)] show ?case by blast
next
  case (step s s')
  then show ?case using fleet_inv_step deliveries_balance_step by blast
qed

text \<open>One publisher's drain of the sample table, up to its commit.\<close>

definition sample_publication :: publication where
  "sample_publication =
    \<lparr>tx_now = 2000, tx_batch = [claimed_of (new_event_row 1000 sample_event ''{}'')], tx_pending = [],
     tx_view = set_events [published_row 2000 (new_event_row 1000 sample_event ''{}'')] (db outbox_world),
     tx_answers = [(''u0'', None)]\<rparr>"

definition sample_fleet :: fleet where
  "sample_fleet = (idle_fleet (db outbox_world))
    \<lparr>ft_open := (\<lambda>_. None)(0 := Some sample_publication), ft_delivered := [''u0'']\<rparr>"

lemma sample_fleet_steps: "fleet_steps sample_platform sample_options (idle_fleet (db outbox_world)) sample_fleet"
proof -
  let ?r = "new_event_row 1000 sample_event ''{}''"
  let ?t = "\<lparr>tx_now = 2000, tx_batch = [claimed_of ?r], tx_pending = [claimed_of ?r], tx_view = db outbox_world,
     tx_answers = []\<rparr>"
  let ?s = "runs (idle_fleet (db outbox_world)) 0 (Some ?t)"
  have "fleet_step sample_platform sample_options (idle_fleet (db outbox_world)) ?s"
    by (rule claims [where locked = "[]"])
       (simp_all add: idle_fleet_def locked_ids_def sql_claim_batch_def sample_options_def batch_rows_def
          outbox_world_facts(3) due_def new_event_row_def)
  moreover have "fleet_step sample_platform sample_options ?s sample_fleet"
  proof -
    have id: "ev_id ?r = ''u0''" by (simp add: new_event_row_def sample_event_def)
    have "sql_mark_published 2000 ''u0'' (db outbox_world) =
        Inr ((), set_events [published_row 2000 ?r] (db outbox_world))"
      by (simp add: sql_mark_published_def set_events_def update_rows_def outbox_world_facts(3) id)
    then show ?thesis
      using accepts [of ?s 0 ?t "claimed_of ?r" "[]" "()" _ sample_platform sample_options]
      by (simp add: id sample_fleet_def sample_publication_def idle_fleet_def)
  qed
  ultimately show ?thesis by (rule converse_rtranclp_into_rtranclp [OF _ r_into_rtranclp])
qed

lemma sample_fleet_commits: "fleet_step sample_platform sample_options sample_fleet
    ((runs sample_fleet 0 None)\<lparr>ft_table := commit_tx sample_publication (ft_table sample_fleet)\<rparr>)"
  by (rule commits) (simp_all add: sample_fleet_def sample_publication_def)

section \<open>What concurrency cannot change\<close>

text \<open>C10: concurrent publishers are serialisable.  Any number of publishers drain one table, their statements
  interleaved with each other's and with transactions that append events, and failing at any point: every
  step either leaves the committed table alone, or appends pending events, or is the commit of one publisher,
  and then it takes the table to exactly what one undisturbed \<open>drainBatch\<close> at that transaction's time, with a
  sink that gives the same answers, would have made of it at that moment.\<close>

theorem concurrent_drains_are_serial:
  assumes "db_ok d" and "fleet_steps pf opts (idle_fleet d) s" and "fleet_step pf opts s s'"
  shows "db_ok (ft_table s') \<and>
    (ft_table s' = ft_table s \<or>
     (\<exists>rows. outbox_events (ft_table s') = outbox_events (ft_table s) @ rows \<and>
        list_all (\<lambda>r. ev_status r = ''pending'') rows) \<or>
     (\<exists>p t locked w w'. ft_open s p = Some t \<and> ft_open s' = (ft_open s)(p := None) \<and>
        calm w \<and> db w = ft_table s \<and> clock w = tx_now t \<and>
        drainBatch pf opts (answering (tx_answers t)) locked w = (Ok (), w') \<and> db w' = ft_table s'))"
proof
  have inv: "fleet_inv pf opts s" using deliveries_balance_steps [OF assms(2,1)] by blast
  from fleet_inv_step [OF assms(3) this] show "db_ok (ft_table s')" by (simp add: fleet_inv_def)
  from assms(3) show "ft_table s' = ft_table s \<or>
     (\<exists>rows. outbox_events (ft_table s') = outbox_events (ft_table s) @ rows \<and>
        list_all (\<lambda>r. ev_status r = ''pending'') rows) \<or>
     (\<exists>p t locked w w'. ft_open s p = Some t \<and> ft_open s' = (ft_open s)(p := None) \<and>
        calm w \<and> db w = ft_table s \<and> clock w = tx_now t \<and>
        drainBatch pf opts (answering (tx_answers t)) locked w = (Ok (), w') \<and> db w' = ft_table s')"
  proof cases
    case (commits p t)
    obtain finished where sound: "tx_sound pf opts (outbox_events (ft_table s)) t finished []"
      using fleet_inv_tx [OF inv commits(2)] commits(3) by (auto simp: tx_sound_def)
    have "db_ok (ft_table s)" using inv by (simp add: fleet_inv_def)
    from commit_is_serial [OF sound this] commits(1,2) show ?thesis
      by (intro disjI2) force
  qed auto
qed

theorem concurrent_drains_are_serial_witness:
  "db_ok (commit_tx sample_publication (db outbox_world))"
  using concurrent_drains_are_serial [OF outbox_world_facts(2) sample_fleet_steps sample_fleet_commits]
  by (simp add: sample_fleet_def idle_fleet_def)

text \<open>C11: concurrent publishers deliver once, up to rollbacks.  In every state that publishers of one table can
  reach, an event has been accepted by the sink exactly as often as transactions that accepted it were rolled
  back, plus once if an open transaction has had it accepted, plus once if the table says it is published and
  did not at the start; and an event that was published at the start stays so and is never delivered
  again.  So no interleaving loses a delivery or makes a second one: duplicates come from rollbacks only.\<close>

theorem delivered_once_unless_rolled_back:
  assumes "db_ok d" and "fleet_steps pf opts (idle_fleet d) s"
  shows "count_list (ft_delivered s) i = count_list (ft_wasted s) i + of_bool (in_flight (ft_open s) i) +
      of_bool (published_in (ft_table s) i \<and> \<not> published_in d i) \<and>
    \<not> (in_flight (ft_open s) i \<and> published_in (ft_table s) i) \<and>
    (published_in d i \<longrightarrow> published_in (ft_table s) i \<and> i \<notin> set (ft_delivered s))"
proof -
  from deliveries_balance_steps [OF assms(2,1)] have inv: "fleet_inv pf opts s" and bal: "deliveries_balance d s"
    by blast+
  have "\<not> published_in (ft_table s) i" if "ft_open s p = Some t" "i \<in> set (accepted t)" for p t
    using that accepted_claimed(1) [OF inv that(1)] claimed_not_published [OF inv that(1)] by blast
  then have "\<not> (in_flight (ft_open s) i \<and> published_in (ft_table s) i)" by (auto simp: in_flight_def)
  with bal show ?thesis by (simp add: deliveries_balance_def)
qed

theorem delivered_once_unless_rolled_back_witness:
  "\<not> published_in (db outbox_world) ''u0'' \<and> in_flight (ft_open sample_fleet) ''u0''"
proof -
  have "count_list (ft_delivered sample_fleet) ''u0'' = 1" "ft_wasted sample_fleet = []"
    "ft_table sample_fleet = db outbox_world"
    by (simp_all add: sample_fleet_def idle_fleet_def)
  with delivered_once_unless_rolled_back [OF outbox_world_facts(2) sample_fleet_steps, of "''u0''"]
  show ?thesis by (cases "in_flight (ft_open sample_fleet) ''u0''") auto
qed

end
