(* ===== verification/Domain.thy ===== *)
theory Domain
  imports Prelude
begin

text \<open>
  The order aggregate, \<open>services/order/domain\<close>: the sentinel errors of \<open>errors.go\<close>, the lifecycle
  states and their legal edges, \<open>CanTransitionTo\<close>, \<open>TransitionTo\<close>, \<open>Total\<close> with the wrap-around
  of \<open>int64\<close>, and \<open>Validate\<close>.  The lemmas show the shape of the lifecycle graph (it is acyclic,
  its terminal states, the edges an unknown payment may take), that a rejected transition leaves
  the order as it was, which check of \<open>Validate\<close> fires first, and when \<open>Total\<close> is the exact sum.
\<close>

section \<open>Sentinel errors\<close>

definition ErrIllegalTransition :: error where
  "ErrIllegalTransition = Sentinel ''illegal order status transition''"

definition ErrMissingCustomer :: error where
  "ErrMissingCustomer = Sentinel ''customer_id is required''"

definition ErrMissingPaymentMethod :: error where
  "ErrMissingPaymentMethod = Sentinel ''payment_method_id is required''"

definition ErrNoItems :: error where
  "ErrNoItems = Sentinel ''at least one item is required''"

definition ErrInvalidQuantity :: error where
  "ErrInvalidQuantity = Sentinel ''item quantity must be positive''"

definition ErrOrderNotFound :: error where
  "ErrOrderNotFound = Sentinel ''order not found''"

lemmas domain_errors =
  ErrIllegalTransition_def ErrMissingCustomer_def ErrMissingPaymentMethod_def ErrNoItems_def
  ErrInvalidQuantity_def ErrOrderNotFound_def

section \<open>The lifecycle\<close>

datatype status =
    StatusPending | StatusInventoryReserved | StatusPaymentPending | StatusPaymentSucceeded
  | StatusPaymentFailed | StatusConfirmed | StatusCancelled | StatusExpired
  | StatusAwaitingReconciliation | StatusManualReview

text \<open>The string each constant of the Go type \<open>Status\<close> stands for.\<close>

fun status_text :: "status \<Rightarrow> string" where
  "status_text StatusPending = ''pending''"
| "status_text StatusInventoryReserved = ''inventory_reserved''"
| "status_text StatusPaymentPending = ''payment_pending''"
| "status_text StatusPaymentSucceeded = ''payment_succeeded''"
| "status_text StatusPaymentFailed = ''payment_failed''"
| "status_text StatusConfirmed = ''confirmed''"
| "status_text StatusCancelled = ''cancelled''"
| "status_text StatusExpired = ''expired''"
| "status_text StatusAwaitingReconciliation = ''awaiting_reconciliation''"
| "status_text StatusManualReview = ''manual_review''"

definition AllStatuses :: "status list" where
  "AllStatuses =
    [StatusPending, StatusInventoryReserved, StatusPaymentPending,
     StatusPaymentSucceeded, StatusPaymentFailed, StatusConfirmed,
     StatusCancelled, StatusExpired, StatusAwaitingReconciliation,
     StatusManualReview]"

text \<open>A Go string read back from the database as a \<open>Status\<close>.\<close>

definition parse_status :: "string \<Rightarrow> status option" where
  "parse_status s = find (\<lambda>st. status_text st = s) AllStatuses"

text \<open>The map \<open>transitions\<close>: a status absent as a key has the empty list of a missing map entry.\<close>

fun transitions :: "status \<Rightarrow> status list" where
  "transitions StatusPending = [StatusInventoryReserved, StatusCancelled, StatusExpired]"
| "transitions StatusInventoryReserved = [StatusPaymentPending, StatusCancelled]"
| "transitions StatusPaymentPending =
     [StatusPaymentSucceeded, StatusPaymentFailed, StatusAwaitingReconciliation]"
| "transitions StatusPaymentSucceeded = [StatusConfirmed, StatusManualReview]"
| "transitions StatusPaymentFailed = [StatusCancelled]"
| "transitions StatusAwaitingReconciliation =
     [StatusPaymentSucceeded, StatusPaymentFailed, StatusManualReview]"
| "transitions _ = []"

fun any_allowed :: "status list \<Rightarrow> status \<Rightarrow> bool" where
  "any_allowed [] next = False"
| "any_allowed (allowed # rest) next = (if allowed = next then True else any_allowed rest next)"

definition CanTransitionTo :: "status \<Rightarrow> status \<Rightarrow> bool" where
  "CanTransitionTo s next = any_allowed (transitions s) next"

section \<open>Items and orders\<close>

record item =
  sku :: string
  quantity :: int64
  unit_price :: int64

record order =
  o_id :: string
  o_customer_id :: string
  o_status :: status
  o_total_amount :: int64
  o_currency :: string
  o_payment_method_id :: string
  o_items :: "item list"
  o_created_at :: int
  o_updated_at :: int

text \<open>
  \<open>TransitionTo\<close> has a pointer receiver: the model returns the order as it stands afterwards
  together with the error, \<open>None\<close> for \<open>nil\<close>.
\<close>

definition TransitionTo :: "order \<Rightarrow> status \<Rightarrow> error option \<times> order" where
  "TransitionTo ord next =
    (if \<not> CanTransitionTo (o_status ord) next
     then (Some (Wrapf '''' ErrIllegalTransition
                 ('': '' @ status_text (o_status ord) @ '' -> '' @ status_text next)), ord)
     else (None, ord\<lparr>o_status := next\<rparr>))"

fun total_from :: "int64 \<Rightarrow> item list \<Rightarrow> int64" where
  "total_from acc [] = acc"
| "total_from acc (it # items) = total_from (acc + unit_price it * quantity it) items"

definition Total :: "item list \<Rightarrow> int64" where
  "Total items = total_from 0 items"

fun check_quantities :: "item list \<Rightarrow> error option" where
  "check_quantities [] = None"
| "check_quantities (it # items) =
    (if sint (quantity it) \<le> 0 then Some (Wrapf '''' ErrInvalidQuantity ('': sku '' @ sku it))
     else check_quantities items)"

definition Validate :: "string \<Rightarrow> string \<Rightarrow> item list \<Rightarrow> error option" where
  "Validate customerID paymentMethodID items =
    (if customerID = '''' then Some ErrMissingCustomer
     else if paymentMethodID = '''' then Some ErrMissingPaymentMethod
     else if length items = 0 then Some ErrNoItems
     else check_quantities items)"

section \<open>The lifecycle graph\<close>

lemma any_allowed_iff: "any_allowed xs s \<longleftrightarrow> s \<in> set xs"
  by (induction xs) auto

lemma CanTransitionTo_iff [simp]: "CanTransitionTo s next \<longleftrightarrow> next \<in> set (transitions s)"
  by (simp add: CanTransitionTo_def any_allowed_iff)

lemma set_AllStatuses: "set AllStatuses = UNIV"
  by (auto simp: AllStatuses_def intro: status.exhaust)

lemma distinct_AllStatuses: "distinct AllStatuses"
  by (simp add: AllStatuses_def)

lemma status_text_inject [simp]: "status_text s = status_text t \<longleftrightarrow> s = t"
  by (cases s; cases t) simp_all

lemma parse_status_text [simp]: "parse_status (status_text s) = Some s"
  by (cases s) (simp_all add: parse_status_def AllStatuses_def)

lemma parse_status_SomeD: "parse_status t = Some s \<Longrightarrow> status_text s = t"
  by (auto simp: parse_status_def find_Some_iff)

text \<open>How many transitions an order in this state can still make.\<close>

fun remaining :: "status \<Rightarrow> nat" where
  "remaining StatusPending = 5"
| "remaining StatusInventoryReserved = 4"
| "remaining StatusPaymentPending = 3"
| "remaining StatusAwaitingReconciliation = 2"
| "remaining StatusPaymentSucceeded = 1"
| "remaining StatusPaymentFailed = 1"
| "remaining _ = 0"

lemma remaining_decreases: "t \<in> set (transitions s) \<Longrightarrow> remaining t < remaining s"
  by (cases s) auto

lemma remaining_le: "remaining s \<le> 5"
  by (cases s) auto

definition terminal :: "status \<Rightarrow> bool" where
  "terminal s \<longleftrightarrow> transitions s = []"

lemma terminal_iff:
  "terminal s \<longleftrightarrow> s \<in> {StatusConfirmed, StatusCancelled, StatusExpired, StatusManualReview}"
  by (cases s) (auto simp: terminal_def)

text \<open>
  A run of \<open>TransitionTo\<close> calls on one order, whatever states the caller asks for: the number of
  calls that were accepted and the order at the end.
\<close>

fun transition_run :: "order \<Rightarrow> status list \<Rightarrow> nat \<times> order" where
  "transition_run ord [] = (0, ord)"
| "transition_run ord (next # rest) =
     (case TransitionTo ord next of
        (Some e, ord') \<Rightarrow> transition_run ord' rest
      | (None, ord') \<Rightarrow> let (n, ord'') = transition_run ord' rest in (Suc n, ord''))"

lemma TransitionTo_None:
  "TransitionTo ord next = (None, ord') \<longleftrightarrow>
     next \<in> set (transitions (o_status ord)) \<and> ord' = ord\<lparr>o_status := next\<rparr>"
  by (auto simp: TransitionTo_def)

lemma TransitionTo_Some:
  "TransitionTo ord next = (Some e, ord') \<Longrightarrow>
     next \<notin> set (transitions (o_status ord)) \<and> ord' = ord \<and> errors_is e ErrIllegalTransition"
  by (auto simp: TransitionTo_def split: if_splits)

lemma transition_run_remaining:
  "transition_run ord nexts = (n, ord') \<Longrightarrow> n + remaining (o_status ord') \<le> remaining (o_status ord)"
proof (induction nexts arbitrary: ord n)
  case (Cons nxt rest)
  show ?case
  proof (cases "nxt \<in> set (transitions (o_status ord))")
    case True
    with Cons.prems obtain m where
      m: "transition_run (ord\<lparr>o_status := nxt\<rparr>) rest = (m, ord')" "n = Suc m"
      by (auto simp: TransitionTo_def split: prod.splits)
    from Cons.IH [OF m(1)] remaining_decreases [OF True] m(2) show ?thesis by simp
  next
    case False
    with Cons.prems have "transition_run ord rest = (n, ord')"
      by (simp add: TransitionTo_def)
    then show ?thesis by (rule Cons.IH)
  qed
qed simp

text \<open>An order's lifecycle ends.  Whatever sequence of states a caller asks \<open>TransitionTo\<close> for,
  at most five of the calls are accepted from \<open>pending\<close> (fewer from a later state), and once the
  order is in a state outside \<open>transitions\<close> no call is: the order stays exactly as it was.\<close>

theorem lifecycle_terminates:
  "fst (transition_run ord nexts) \<le> remaining (o_status ord) \<and> remaining (o_status ord) \<le> 5 \<and>
   (terminal (o_status ord) \<longrightarrow> transition_run ord nexts = (0, ord))"
proof -
  obtain n ord' where run: "transition_run ord nexts = (n, ord')"
    by (cases "transition_run ord nexts")
  have "terminal (o_status ord) \<Longrightarrow> transition_run ord nexts = (0, ord)"
    by (induction nexts) (auto simp: terminal_def TransitionTo_def)
  with transition_run_remaining [OF run] run remaining_le show ?thesis by auto
qed

definition sample_order :: order where
  "sample_order = \<lparr>o_id = ''ord_1'', o_customer_id = ''cust_1'', o_status = StatusPending,
     o_total_amount = 150000, o_currency = ''NGN'', o_payment_method_id = ''pm_ok'',
     o_items = [\<lparr>sku = ''playstation-5'', quantity = 1, unit_price = 150000\<rparr>],
     o_created_at = 0, o_updated_at = 0\<rparr>"

theorem lifecycle_terminates_witness:
  "transition_run (sample_order\<lparr>o_status := StatusExpired\<rparr>) [StatusPending, StatusConfirmed] =
     (0, sample_order\<lparr>o_status := StatusExpired\<rparr>)"
  using lifecycle_terminates [of "sample_order\<lparr>o_status := StatusExpired\<rparr>"
      "[StatusPending, StatusConfirmed]"]
  by (simp add: terminal_def)

text \<open>C35: an unknown payment never triggers compensation.  An order awaiting reconciliation cannot be
  cancelled or expired directly, and no sequence of legal transitions takes it to \<open>cancelled\<close> or
  \<open>expired\<close> unless the payment has first been found to have failed: along every path that does
  not leave \<open>payment_failed\<close> those two states are out of reach.\<close>

theorem unknown_payment_not_compensated:
  assumes "(\<lambda>s t. CanTransitionTo s t \<and> s \<noteq> StatusPaymentFailed)\<^sup>*\<^sup>* StatusAwaitingReconciliation s"
  shows "s \<in> {StatusAwaitingReconciliation, StatusPaymentSucceeded, StatusPaymentFailed,
              StatusManualReview, StatusConfirmed}"
  using assms
proof (induction rule: rtranclp_induct)
  case base
  show ?case by simp
next
  case (step s t)
  then show ?case by auto
qed

theorem unknown_payment_not_compensated_witness:
  "(\<lambda>s t. CanTransitionTo s t \<and> s \<noteq> StatusPaymentFailed)\<^sup>*\<^sup>* StatusAwaitingReconciliation StatusConfirmed \<and>
     StatusConfirmed \<notin> {StatusCancelled, StatusExpired}"
proof -
  let ?R = "\<lambda>s t. CanTransitionTo s t \<and> s \<noteq> StatusPaymentFailed"
  have "?R StatusAwaitingReconciliation StatusPaymentSucceeded"
    and "?R StatusPaymentSucceeded StatusConfirmed"
    by simp_all
  then have path: "?R\<^sup>*\<^sup>* StatusAwaitingReconciliation StatusConfirmed"
    by (rule converse_rtranclp_into_rtranclp [OF _ r_into_rtranclp])
  from unknown_payment_not_compensated [OF this] path show ?thesis by auto
qed

text \<open>A rejected transition changes nothing.  \<open>TransitionTo\<close> succeeds exactly on the legal edges
  and then changes the status and no other field; otherwise it returns an error that
  \<open>errors.Is\<close> recognises as \<open>ErrIllegalTransition\<close> and the order is the one it was given.\<close>

theorem TransitionTo_correct:
  "case TransitionTo ord next of
     (None, ord') \<Rightarrow> CanTransitionTo (o_status ord) next \<and> ord' = ord\<lparr>o_status := next\<rparr>
   | (Some e, ord') \<Rightarrow> \<not> CanTransitionTo (o_status ord) next \<and> ord' = ord \<and>
       errors_is e ErrIllegalTransition"
  by (simp add: TransitionTo_def)

section \<open>Validation and totals\<close>

lemma check_quantities_None_iff:
  "check_quantities items = None \<longleftrightarrow> (\<forall>it \<in> set items. 0 < sint (quantity it))"
  by (induction items) auto

lemma check_quantities_find:
  "check_quantities items =
     map_option (\<lambda>it. Wrapf '''' ErrInvalidQuantity ('': sku '' @ sku it))
       (find (\<lambda>it. sint (quantity it) \<le> 0) items)"
  by (induction items) auto

lemma Validate_None_iff:
  "Validate c p items = None \<longleftrightarrow>
     c \<noteq> '''' \<and> p \<noteq> '''' \<and> items \<noteq> [] \<and> (\<forall>it \<in> set items. 0 < sint (quantity it))"
  by (simp add: Validate_def check_quantities_None_iff)

text \<open>\<open>Validate\<close> accepts exactly the commands with a customer, a payment method, at least one
  item and only positive quantities.  Otherwise it reports the first of these that is missing, in
  that order, and for a quantity the sku of the first offending item.\<close>

theorem Validate_correct:
  "Validate c p items =
    (if c = '''' then Some ErrMissingCustomer
     else if p = '''' then Some ErrMissingPaymentMethod
     else if items = [] then Some ErrNoItems
     else map_option (\<lambda>it. Wrapf '''' ErrInvalidQuantity ('': sku '' @ sku it))
            (find (\<lambda>it. sint (quantity it) \<le> 0) items)) \<and>
   (Validate c p items = None \<longleftrightarrow>
     c \<noteq> '''' \<and> p \<noteq> '''' \<and> items \<noteq> [] \<and> list_all (\<lambda>it. 0 < sint (quantity it)) items)"
  by (simp add: Validate_def check_quantities_find find_None_iff list_all_iff not_le Ball_def)

text \<open>The total an order would have with unbounded integers.\<close>

definition exact_total :: "item list \<Rightarrow> int" where
  "exact_total items = sum_list (map (\<lambda>it. sint (unit_price it) * sint (quantity it)) items)"

lemma word_of_int_mult_sint: "word_of_int (sint a * sint b) = (a * b :: int64)"
  by (simp add: wi_hom_mult [symmetric])

lemma total_from_exact: "total_from acc items = acc + word_of_int (exact_total items)"
proof (induction items arbitrary: acc)
  case (Cons it items)
  have "unit_price it * quantity it = word_of_int (sint (unit_price it) * sint (quantity it))"
    by (simp add: word_of_int_mult_sint)
  with Cons.IH show ?case by (simp add: exact_total_def add.assoc wi_hom_add)
qed (simp add: exact_total_def)

lemma Total_exact: "Total items = word_of_int (exact_total items)"
  by (simp add: Total_def total_from_exact)

lemma exact_total_nonneg:
  "(\<And>it. it \<in> set items \<Longrightarrow> 0 \<le> sint (unit_price it) \<and> 0 \<le> sint (quantity it)) \<Longrightarrow>
     0 \<le> exact_total items"
  by (auto simp: exact_total_def intro!: sum_list_nonneg)

lemma exact_total_le:
  assumes "\<And>it. it \<in> set items \<Longrightarrow> 0 \<le> sint (unit_price it) \<and> sint (unit_price it) \<le> p"
    and "\<And>it. it \<in> set items \<Longrightarrow> 0 \<le> sint (quantity it) \<and> sint (quantity it) \<le> q"
  shows "exact_total items \<le> int (length items) * (p * q)"
  using assms
proof (induction items)
  case (Cons it items)
  then have "sint (unit_price it) * sint (quantity it) \<le> p * q"
    by (intro mult_mono) (force+)
  moreover from Cons have "exact_total items \<le> int (length items) * (p * q)"
    by simp
  ultimately show ?case by (simp add: exact_total_def algebra_simps)
qed (simp add: exact_total_def)

text \<open>\<open>Total\<close> is the exact sum of price times quantity whenever that sum fits \<open>int64\<close>, and in
  general the exact sum modulo two to the 64, read as a signed number.\<close>

theorem Total_correct:
  "Total items = word_of_int (exact_total items) \<and>
   (- (2 ^ 63) \<le> exact_total items \<and> exact_total items < 2 ^ 63 \<longrightarrow>
      sint (Total items) = exact_total items)"
  using sint_word_of_int_fits by (simp add: Total_exact)

theorem Total_correct_witness:
  "sint (Total (o_items sample_order)) = 150000"
  using Total_correct [of "o_items sample_order"] by (simp add: exact_total_def sample_order_def)

end
