(* ===== verification/Httpx.thy ===== *)
theory Httpx
  imports Json Database
begin

text \<open>
  The HTTP shell, \<open>internal/httpx\<close>: \<open>WriteJSON\<close> and \<open>WriteError\<close>, the request id, recovery and
  access log middlewares with the \<open>statusRecorder\<close>, health and readiness, and the chain
  \<open>NewServer\<close> builds.  Of \<open>net/http\<close> it models the response writer the source writes through: the
  header map, the one final status line, the body, and the wrappers put around it.
\<close>

section \<open>Requests, contexts and response writers\<close>

type_synonym header = "(string \<times> string) list"

definition header_get :: "header \<Rightarrow> string \<Rightarrow> string" where
  "header_get h k = (case map_of h k of None \<Rightarrow> [] | Some v \<Rightarrow> v)"

definition header_set :: "header \<Rightarrow> string \<Rightarrow> string \<Rightarrow> header" where
  "header_set h k v = (k, v) # filter (\<lambda>e. fst e \<noteq> k) h"

lemma header_get_set [simp]:
  "header_get (header_set h k v) k' = (if k' = k then v else header_get h k')"
  by (induction h) (auto simp: header_get_def header_set_def)

text \<open>The values \<open>context.WithValue\<close> adds under the two private key types.\<close>

record gocontext =
  cx_request_id :: "string option"
  cx_idempotency_key :: "string option"

record request =
  rq_method :: string
  rq_path :: string
  rq_header :: header
  rq_body :: string
  rq_body_fails :: "nat option"
  rq_ctx :: gocontext

text \<open>
  The wrappers: \<open>statusCapture\<close> of the idempotency middleware and \<open>statusRecorder\<close> of the access
  log.  The head of \<open>rw_layers\<close> is the outermost writer, the one the handler holds.
\<close>

datatype layer = Capture int | Recorder int bool

record rw =
  rw_header :: header
  rw_sent :: "(int \<times> header) option"
  rw_body :: string
  rw_layers :: "layer list"

definition set_header :: "string \<Rightarrow> string \<Rightarrow> rw \<Rightarrow> rw" where
  "set_header k v b = b\<lparr>rw_header := header_set (rw_header b) k v\<rparr>"

definition informational :: "int \<Rightarrow> bool" where
  "informational code \<longleftrightarrow> 100 \<le> code \<and> code \<le> 199 \<and> code \<noteq> 101"

definition final_code :: "int \<Rightarrow> bool" where
  "final_code code \<longleftrightarrow> 100 \<le> code \<and> code \<le> 999 \<and> \<not> informational code"

text \<open>\<open>net/http\<close>'s own \<open>WriteHeader\<close>: only the first final code counts, a bad code panics.\<close>

definition base_write_header :: "int \<Rightarrow> rw \<Rightarrow> unit go \<times> rw" where
  "base_write_header code b =
    (if rw_sent b \<noteq> None then (Ok (), b)
     else if code < 100 \<or> 999 < code
     then (Panic (''invalid WriteHeader code '' @ show_int code), b)
     else if informational code then (Ok (), b)
     else (Ok (), b\<lparr>rw_sent := Some (code, rw_header b)\<rparr>))"

definition body_allowed :: "int \<Rightarrow> bool" where
  "body_allowed code \<longleftrightarrow> \<not> (100 \<le> code \<and> code \<le> 199) \<and> code \<noteq> 204 \<and> code \<noteq> 304"

definition base_write :: "string \<Rightarrow> rw \<Rightarrow> rw" where
  "base_write bs b =
    (let b1 = (if rw_sent b = None then b\<lparr>rw_sent := Some (200, rw_header b)\<rparr> else b)
     in case rw_sent b1 of
          Some (code, _) \<Rightarrow> if body_allowed code then b1\<lparr>rw_body := rw_body b1 @ bs\<rparr> else b1
        | None \<Rightarrow> b1)"

text \<open>\<open>statusCapture\<close> notes the status, or 200 for a body without one, and delegates to the writer it wraps.\<close>

definition capture_WriteHeader ::
  "(int \<Rightarrow> rw \<Rightarrow> unit go \<times> layer list \<times> rw) \<Rightarrow> int \<Rightarrow> int \<Rightarrow> rw \<Rightarrow> unit go \<times> layer list \<times> rw" where
  "capture_WriteHeader inner s code b = (let (r, ls', b') = inner code b in (r, Capture code # ls', b'))"

definition capture_Write ::
  "(string \<Rightarrow> rw \<Rightarrow> unit go \<times> layer list \<times> rw) \<Rightarrow> int \<Rightarrow> string \<Rightarrow> rw \<Rightarrow> unit go \<times> layer list \<times> rw" where
  "capture_Write inner s bs b =
    (let (r, ls', b') = inner bs b in (r, Capture (if s = 0 then 200 else s) # ls', b'))"

lemmas capture_defs [simp] = capture_WriteHeader_def capture_Write_def

fun write_header_from :: "layer list \<Rightarrow> int \<Rightarrow> rw \<Rightarrow> unit go \<times> layer list \<times> rw" where
  "write_header_from [] code b = (let (r, b') = base_write_header code b in (r, [], b'))"
| "write_header_from (Capture s # ls) code b =
    capture_WriteHeader (write_header_from ls) s code b"
| "write_header_from (Recorder s written # ls) code b =
    (if written then (Ok (), Recorder s written # ls, b)
     else let (r, ls', b') = write_header_from ls code b in (r, Recorder code True # ls', b'))"

lemma write_header_from_length:
  "write_header_from ls code b = (r, ls', b') \<Longrightarrow> length ls' = length ls"
proof (induction ls arbitrary: r ls' b')
  case (Cons l ls)
  then show ?case by (cases l) (auto split: prod.splits if_splits)
qed (auto split: prod.splits)

function write_from :: "layer list \<Rightarrow> string \<Rightarrow> rw \<Rightarrow> unit go \<times> layer list \<times> rw" where
  "write_from [] bs b = (Ok (), [], base_write bs b)"
| "write_from (Capture s # ls) bs b =
    capture_Write (write_from ls) s bs b"
| "write_from (Recorder s written # ls) bs b =
    (if written
     then let (r, ls', b') = write_from ls bs b in (r, Recorder s written # ls', b')
     else (case write_header_from ls 200 b of
             (Ok _, ls1, b1) \<Rightarrow>
               (let (r, ls', b') = write_from ls1 bs b1 in (r, Recorder 200 True # ls', b'))
           | (r, ls1, b1) \<Rightarrow> (r, Recorder 200 True # ls1, b1)))"
  by pat_completeness auto
termination
  by (relation "measure (\<lambda>(ls, bs, b). length ls)")
     (auto dest!: write_header_from_length [OF sym])

definition write_header :: "int \<Rightarrow> rw \<Rightarrow> unit go \<times> rw" where
  "write_header code b =
    (let (r, ls, b') = write_header_from (rw_layers b) code b in (r, b'\<lparr>rw_layers := ls\<rparr>))"

definition write_bytes :: "string \<Rightarrow> rw \<Rightarrow> unit go \<times> rw" where
  "write_bytes bs b = (let (r, ls, b') = write_from (rw_layers b) bs b in (r, b'\<lparr>rw_layers := ls\<rparr>))"

definition push_layer :: "layer \<Rightarrow> rw \<Rightarrow> rw" where
  "push_layer l b = b\<lparr>rw_layers := l # rw_layers b\<rparr>"

definition pop_layer :: "rw \<Rightarrow> rw" where
  "pop_layer b = b\<lparr>rw_layers := tl (rw_layers b)\<rparr>"

text \<open>The status the outermost wrapper has recorded.\<close>

definition top_status :: "rw \<Rightarrow> int" where
  "top_status b =
    (case rw_layers b of Capture s # _ \<Rightarrow> s | Recorder s _ # _ \<Rightarrow> s | [] \<Rightarrow> 0)"

type_synonym handler = "request \<Rightarrow> rw \<Rightarrow> world \<Rightarrow> unit go \<times> rw \<times> world"

section \<open>JSON responses\<close>

definition WriteJSON :: "int \<Rightarrow> goval \<Rightarrow> rw \<Rightarrow> unit go \<times> rw" where
  "WriteJSON code v b =
    (let b1 = set_header ''Content-Type'' ''application/json'' b in
     if v = VNil then write_header code b1
     else case json_Marshal v of
            Ok body \<Rightarrow>
              (case write_header code b1 of
                 (Ok _, b2) \<Rightarrow> write_bytes body b2
               | (r, b2) \<Rightarrow> (r, b2))
          | _ \<Rightarrow> write_header 500 b1)"

text \<open>The envelope \<open>ErrorResponse\<close>; \<open>omitempty\<close> drops nil details.\<close>

definition error_json :: "string \<Rightarrow> string \<Rightarrow> json option \<Rightarrow> json" where
  "error_json code message details =
    JObj [(''error'',
      JObj ([(''code'', JStr code), (''message'', JStr message)] @
            (case details of None \<Rightarrow> [] | Some d \<Rightarrow> [(''details'', d)])))]"

definition WriteError :: "int \<Rightarrow> string \<Rightarrow> string \<Rightarrow> json option \<Rightarrow> rw \<Rightarrow> unit go \<times> rw" where
  "WriteError status code message details b =
    WriteJSON status (VJson (error_json code message details)) b"

section \<open>Middlewares\<close>

definition RequestIDFromContext :: "gocontext \<Rightarrow> string" where
  "RequestIDFromContext cx = (case cx_request_id cx of None \<Rightarrow> [] | Some rid \<Rightarrow> rid)"

definition RequestID :: "platform \<Rightarrow> handler \<Rightarrow> handler" where
  "RequestID pf nxt r b w =
    (let given = header_get (rq_header r) ''X-Request-Id'';
         (rid, w1) = (if given = [] then new_uuid pf w else (given, w))
     in nxt (r\<lparr>rq_ctx := (rq_ctx r)\<lparr>cx_request_id := Some rid\<rparr>\<rparr>)
            (set_header ''X-Request-Id'' rid b) w1)"

definition Recovery :: "handler \<Rightarrow> handler" where
  "Recovery nxt r b w =
    (case nxt r b w of
       (Panic v, b1, w1) \<Rightarrow>
         (let w2 = emit (LogPanic v (rq_path r)) w1;
              (res, b2) = WriteError 500 ''internal_error'' ''internal error'' None b1
          in (res, b2, w2))
     | other \<Rightarrow> other)"

definition RequestLogging :: "handler \<Rightarrow> handler" where
  "RequestLogging nxt r b w =
    (case nxt r (push_layer (Recorder 200 False) b) w of
       (Panic v, b1, w1) \<Rightarrow> (Panic v, pop_layer b1, w1)
     | (res, b1, w1) \<Rightarrow>
         (res, pop_layer b1,
          emit (LogRequest (rq_method r) (rq_path r) (top_status b1)
                 (RequestIDFromContext (rq_ctx r))) w1))"

definition Health :: handler where
  "Health r b w =
    (let (res, b1) = WriteJSON 200 (VJson (JObj [(''status'', JStr ''ok'')])) b in (res, b1, w))"

text \<open>\<open>check\<close> is \<open>pool.Ping\<close> in the order service: a driver call that reads nothing.\<close>

definition Ready :: "(world \<Rightarrow> unit go \<times> world) \<Rightarrow> handler" where
  "Ready check r b w =
    (case check w of
       (Err e, w1) \<Rightarrow>
         (let (res, b1) = WriteError 503 ''not_ready'' ''a dependency is unavailable'' None b
          in (res, b1, w1))
     | (Panic p, w1) \<Rightarrow> (Panic p, b, w1)
     | (Ok _, w1) \<Rightarrow>
         (let (res, b1) = WriteJSON 200 (VJson (JObj [(''status'', JStr ''ready'')])) b
          in (res, b1, w1)))"

definition ping :: "world \<Rightarrow> unit go \<times> world" where
  "ping w = driver_call True (\<lambda>d. Inr ((), d)) w"

text \<open>The chain of \<open>NewServer\<close>; the tracing wrapper outside it passes requests through.\<close>

definition NewServer :: "platform \<Rightarrow> handler \<Rightarrow> handler" where
  "NewServer pf h = RequestID pf (RequestLogging (Recovery h))"

text \<open>
  What the client gets: nothing when the handler's panic reaches \<open>net/http\<close>, which drops the
  connection, otherwise the status sent, or 200 when the handler returned without sending one.
\<close>

record response =
  rs_status :: int
  rs_header :: header
  rs_body :: string

definition fresh_rw :: rw where
  "fresh_rw = \<lparr>rw_header = [], rw_sent = None, rw_body = [], rw_layers = []\<rparr>"

definition finish :: "rw \<Rightarrow> response" where
  "finish b =
    (case rw_sent b of
       Some (code, h) \<Rightarrow> \<lparr>rs_status = code, rs_header = h, rs_body = rw_body b\<rparr>
     | None \<Rightarrow> \<lparr>rs_status = 200, rs_header = rw_header b, rs_body = rw_body b\<rparr>)"

definition serve :: "handler \<Rightarrow> request \<Rightarrow> world \<Rightarrow> response option \<times> world" where
  "serve h r w =
    (case h r fresh_rw (w\<lparr>cancelled := False\<rparr>) of
       (Ok _, b, w1) \<Rightarrow> (Some (finish b), w1)
     | (_, b, w1) \<Rightarrow> (None, w1))"

section \<open>What a handler may do to the writer\<close>

text \<open>
  A Go handler reaches its response writer through the writer's methods only, and a middleware
  wraps a writer only while the next handler runs.  \<open>wrote b b'\<close> says that \<open>b'\<close> came from \<open>b\<close>
  that way; it is the contract of \<open>http.Handler\<close> every handler of the service keeps.
\<close>

inductive wrote :: "rw \<Rightarrow> rw \<Rightarrow> bool" where
  wrote_refl: "wrote b b"
| wrote_set: "wrote b (set_header k v b)"
| wrote_header: "write_header code b = (r, b') \<Longrightarrow> wrote b b'"
| wrote_body: "write_bytes bs b = (r, b') \<Longrightarrow> wrote b b'"
| wrote_wrap: "wrote (push_layer l b) b' \<Longrightarrow> wrote b (pop_layer b')"
| wrote_trans: "wrote a b \<Longrightarrow> wrote b c \<Longrightarrow> wrote a c"

declare wrote_refl [simp, intro]

fun same_kind :: "layer \<Rightarrow> layer \<Rightarrow> bool" where
  "same_kind (Capture _) (Capture _) = True"
| "same_kind (Recorder _ _) (Recorder _ _) = True"
| "same_kind _ _ = False"

lemma same_kind_refl [simp]: "same_kind l l"
  by (cases l) auto

lemma same_kind_trans: "same_kind a b \<Longrightarrow> same_kind b c \<Longrightarrow> same_kind a c"
  by (cases a; cases b; cases c) auto

text \<open>
  The access log's recorder sits directly on \<open>net/http\<close>'s writer.  \<open>in_sync\<close>: once it has recorded
  a final status that is the one sent, and before that nothing has been sent and it reads 200.
\<close>

definition in_sync :: "layer list \<Rightarrow> rw \<Rightarrow> bool" where
  "in_sync ls b \<longleftrightarrow> (ls \<noteq> [] \<longrightarrow>
    (case last ls of
       Recorder s written \<Rightarrow>
         (if written then final_code s \<longrightarrow> (\<exists>h. rw_sent b = Some (s, h))
          else s = 200 \<and> rw_sent b = None)
     | Capture _ \<Rightarrow> True))"

definition grown :: "layer list \<Rightarrow> rw \<Rightarrow> layer list \<Rightarrow> rw \<Rightarrow> bool" where
  "grown ls b ls' b' \<longleftrightarrow>
    list_all2 same_kind ls ls' \<and>
    (\<forall>x. rw_sent b = Some x \<longrightarrow> rw_sent b' = Some x) \<and>
    (\<exists>more. rw_body b' = rw_body b @ more) \<and>
    (in_sync ls b \<longrightarrow> in_sync ls' b')"

lemma grown_refl [simp]: "grown ls b ls b"
  by (simp add: grown_def list_all2_refl)

lemma grown_trans: "grown ls b ls' b' \<Longrightarrow> grown ls' b' ls'' b'' \<Longrightarrow> grown ls b ls'' b''"
  unfolding grown_def
  by (auto intro: list_all2_trans [of same_kind same_kind same_kind] same_kind_trans)

lemma in_sync_Cons: "ls \<noteq> [] \<Longrightarrow> in_sync (l # ls) b = in_sync ls b"
  by (simp add: in_sync_def)

lemma in_sync_update [simp]:
  "in_sync ls (b\<lparr>rw_layers := x\<rparr>) = in_sync ls b"
  "in_sync ls (b\<lparr>rw_header := h\<rparr>) = in_sync ls b"
  by (simp_all add: in_sync_def cong: layer.case_cong)

lemma in_sync_Capture: "in_sync [Capture s] b"
  by (simp add: in_sync_def)

lemma grown_Cons:
  assumes "grown ls b ls' b'" and "same_kind l l'"
    and "ls = [] \<Longrightarrow> in_sync [l] b \<Longrightarrow> in_sync [l'] b'"
  shows "grown (l # ls) b (l' # ls') b'"
proof -
  have "ls = [] \<longleftrightarrow> ls' = []"
    using assms(1) by (auto simp: grown_def)
  with assms show ?thesis
    by (cases "ls = []") (auto simp: grown_def in_sync_Cons)
qed

lemma base_write_header_grown:
  "base_write_header code b = (r, b') \<Longrightarrow> grown [] b [] b'"
  by (auto simp: base_write_header_def grown_def in_sync_def split: if_splits)

lemma base_write_header_sent:
  "base_write_header code b = (r, b') \<Longrightarrow> rw_sent b = None \<Longrightarrow> final_code code \<Longrightarrow>
     r = Ok () \<and> rw_sent b' = Some (code, rw_header b)"
  by (auto simp: base_write_header_def final_code_def split: if_splits)

lemma base_write_grown: "grown [] b [] (base_write bs b)"
  by (auto simp: base_write_def grown_def in_sync_def Let_def split: option.splits)

lemma write_header_from_grown:
  "write_header_from ls code b = (r, ls', b') \<Longrightarrow> grown ls b ls' b'"
proof (induction ls arbitrary: r ls' b')
  case Nil
  then show ?case by (auto split: prod.splits dest: base_write_header_grown)
next
  case (Cons l ls)
  show ?case
  proof (cases l)
    case (Capture s)
    with Cons obtain ls1 where "grown ls b ls1 b'" "ls' = Capture code # ls1"
      by (auto split: prod.splits)
    with Capture show ?thesis by (auto intro!: grown_Cons simp: in_sync_Capture)
  next
    case (Recorder s written)
    show ?thesis
    proof (cases written)
      case True
      with Cons.prems Recorder show ?thesis by simp
    next
      case False
      with Cons.prems Recorder obtain ls1 where
        1: "write_header_from ls code b = (r, ls1, b')" "ls' = Recorder code True # ls1"
        by (auto split: prod.splits)
      then have g: "grown ls b ls1 b'" using Cons.IH by blast
      have "in_sync [Recorder code True] b'" if "in_sync [l] b" "ls = []"
        using that 1 Recorder False base_write_header_sent
        by (auto simp: in_sync_def split: prod.splits)
      with g 1 Recorder show ?thesis by (auto intro!: grown_Cons)
    qed
  qed
qed

lemma base_write_sent: "rw_sent b = Some x \<Longrightarrow> rw_sent (base_write bs b) = Some x"
  by (auto simp: base_write_def Let_def split: option.splits prod.splits)

lemma write_from_grown: "write_from ls bs b = (r, ls', b') \<Longrightarrow> grown ls b ls' b'"
proof (induction ls bs b arbitrary: r ls' b' rule: write_from.induct)
  case (1 bs b)
  then show ?case by (auto simp: base_write_grown)
next
  case (2 s ls bs b)
  obtain ls1 where 1: "write_from ls bs b = (r, ls1, b')"
      "ls' = Capture (if s = 0 then 200 else s) # ls1"
    using "2.prems" by (auto split: prod.splits)
  with "2.IH" show ?case by (auto intro!: grown_Cons simp: in_sync_Capture)
next
  case (3 s written ls bs b)
  show ?case
  proof (cases written)
    case True
    then obtain ls1 where 1: "write_from ls bs b = (r, ls1, b')" "ls' = Recorder s True # ls1"
      using "3.prems" by (auto split: prod.splits)
    with "3.IH"(1) True have "grown ls b ls1 b'" by blast
    with 1 True show ?thesis
      by (auto intro!: grown_Cons simp: in_sync_def grown_def)
  next
    case False
    obtain q ls1 b1 where h: "write_header_from ls 200 b = (q, ls1, b1)"
      by (cases "write_header_from ls 200 b")
    note g = write_header_from_grown [OF h]
    have sent: "q = Ok () \<and> (\<exists>x. rw_sent b1 = Some (200, x))"
      if "ls = []" "in_sync [Recorder s written] b"
      using that h False base_write_header_sent
      by (auto simp: in_sync_def final_code_def informational_def split: prod.splits)
    show ?thesis
    proof (cases q)
      case (Ok a)
      then obtain ls2 where 1: "write_from ls1 bs b1 = (r, ls2, b')" "ls' = Recorder 200 True # ls2"
        using "3.prems" False h by (auto split: prod.splits)
      from "3.IH"(2) [OF False h [symmetric]] Ok 1 have g1: "grown ls1 b1 ls2 b'" by auto
      have g': "grown ls b ls2 b'" using g g1 by (rule grown_trans)
      have "\<And>x. rw_sent b1 = Some x \<Longrightarrow> rw_sent b' = Some x"
        using g1 by (simp add: grown_def)
      with sent have "in_sync [Recorder 200 True] b'"
        if "ls = []" "in_sync [Recorder s written] b"
        using that by (auto simp: in_sync_def)
      with g' show ?thesis unfolding 1(2) by (auto intro: grown_Cons)
    next
      case (Err e)
      with "3.prems" False h have "ls' = Recorder 200 True # ls1" "b' = b1" by auto
      with g Err sent show ?thesis by (auto intro!: grown_Cons)
    next
      case (Panic e)
      with "3.prems" False h have "ls' = Recorder 200 True # ls1" "b' = b1" by auto
      with g Panic sent show ?thesis by (auto intro!: grown_Cons)
    qed
  qed
qed

text \<open>Everything a handler does to the writer is of this kind.\<close>

lemma wrote_grown: "wrote b b' \<Longrightarrow> grown (rw_layers b) b (rw_layers b') b'"
proof (induction rule: wrote.induct)
  case (wrote_set b k v)
  show ?case by (simp add: grown_def set_header_def list_all2_refl)
next
  case (wrote_header code b r b')
  then obtain ls b1 where 1: "write_header_from (rw_layers b) code b = (r, ls, b1)"
      "b' = b1\<lparr>rw_layers := ls\<rparr>"
    by (auto simp: write_header_def split: prod.splits)
  with write_header_from_grown [OF 1(1)] show ?case by (simp add: grown_def)
next
  case (wrote_body bs b r b')
  then obtain ls b1 where 1: "write_from (rw_layers b) bs b = (r, ls, b1)"
      "b' = b1\<lparr>rw_layers := ls\<rparr>"
    by (auto simp: write_bytes_def split: prod.splits)
  with write_from_grown [OF 1(1)] show ?case by (simp add: grown_def)
next
  case (wrote_wrap l b b')
  from wrote_wrap.IH obtain l' ls' where ls': "rw_layers b' = l' # ls'"
    by (auto simp: grown_def push_layer_def list_all2_Cons1)
  show ?case
  proof (cases "rw_layers b = []")
    case True
    with wrote_wrap.IH ls' show ?thesis
      by (auto simp: grown_def push_layer_def pop_layer_def in_sync_def)
  next
    case False
    with wrote_wrap.IH ls' have "ls' \<noteq> []" by (auto simp: grown_def push_layer_def)
    with wrote_wrap.IH ls' False show ?thesis
      by (auto simp: grown_def push_layer_def pop_layer_def in_sync_Cons)
  qed
next
  case (wrote_trans a b c)
  then show ?case by (blast intro: grown_trans)
qed simp


lemma wrote_sent: "wrote b b' \<Longrightarrow> rw_sent b = Some x \<Longrightarrow> rw_sent b' = Some x"
  by (auto dest!: wrote_grown simp: grown_def)

lemma wrote_body_grows: "wrote b b' \<Longrightarrow> \<exists>more. rw_body b' = rw_body b @ more"
  by (auto dest!: wrote_grown simp: grown_def)

lemma wrote_no_layers: "wrote b b' \<Longrightarrow> rw_layers b = [] \<Longrightarrow> rw_layers b' = []"
  by (auto dest!: wrote_grown simp: grown_def)

lemma wrote_layers: "wrote b b' \<Longrightarrow> list_all2 same_kind (rw_layers b) (rw_layers b')"
  by (auto dest!: wrote_grown simp: grown_def)

lemma wrote_WriteJSON:
  assumes "WriteJSON code v b = (r, b')"
  shows "wrote b b'"
proof -
  let ?b = "set_header ''Content-Type'' ''application/json'' b"
  have "wrote ?b b'"
    using assms unfolding WriteJSON_def Let_def
    by (auto split: if_splits go.splits prod.splits
        intro: wrote_header wrote_trans [OF wrote_header wrote_body])
  then show ?thesis by (rule wrote_trans [OF wrote_set])
qed

lemma wrote_WriteError: "WriteError code c m d b = (r, b') \<Longrightarrow> wrote b b'"
  by (auto simp: WriteError_def dest: wrote_WriteJSON)

text \<open>A status code in range never makes the writer panic, and no writer method fails otherwise.\<close>

lemma write_header_from_valid:
  "100 \<le> code \<Longrightarrow> code \<le> 999 \<Longrightarrow> fst (write_header_from ls code b) = Ok ()"
proof (induction ls code b rule: write_header_from.induct)
  case (2 s ls code b)
  then show ?case by (cases "write_header_from ls code b") (auto dest: arg_cong [where f = fst])
qed (auto simp: base_write_header_def split: prod.splits)

lemma write_header_from_not_Err: "write_header_from ls code b = (r, x) \<Longrightarrow> r \<noteq> Err e"
  by (induction ls code b arbitrary: r x rule: write_header_from.induct)
     (auto simp: base_write_header_def split: prod.splits if_splits)

lemma write_from_Ok: "fst (write_from ls bs b) = Ok ()"
proof (induction ls bs b rule: write_from.induct)
  case (2 s ls bs b)
  then show ?case by (cases "write_from ls bs b") (auto dest: arg_cong [where f = fst])
next
  case (3 s written ls bs b)
  with write_header_from_valid [of 200 ls b] show ?case
    by (auto split: prod.splits go.splits)
qed (auto split: prod.splits)

lemma write_header_valid: "100 \<le> code \<Longrightarrow> code \<le> 999 \<Longrightarrow> fst (write_header code b) = Ok ()"
  using write_header_from_valid [of code "rw_layers b" b]
  by (auto simp: write_header_def split: prod.splits)

lemma write_header_not_Err: "write_header code b = (r, b') \<Longrightarrow> r \<noteq> Err e"
  by (auto simp: write_header_def split: prod.splits dest: write_header_from_not_Err)

lemma write_bytes_Ok: "fst (write_bytes bs b) = Ok ()"
  using write_from_Ok [of "rw_layers b" bs b] by (auto simp: write_bytes_def split: prod.splits)

lemma WriteJSON_valid:
  "WriteJSON code v b = (r, b') \<Longrightarrow> 100 \<le> code \<Longrightarrow> code \<le> 999 \<Longrightarrow> r = Ok ()"
  using write_header_valid [of code "set_header ''Content-Type'' ''application/json'' b"]
    write_header_valid [of 500 "set_header ''Content-Type'' ''application/json'' b"]
  by (auto simp: WriteJSON_def Let_def split: if_splits go.splits prod.splits
      dest: arg_cong [where f = fst] simp: write_bytes_Ok)

lemma WriteError_valid:
  "WriteError code c m d b = (r, b') \<Longrightarrow> 100 \<le> code \<Longrightarrow> code \<le> 999 \<Longrightarrow> r = Ok ()"
  unfolding WriteError_def by (rule WriteJSON_valid)

text \<open>The first response through fresh wrappers: every one of them records its code.\<close>

fun fresh_layer :: "layer \<Rightarrow> bool" where
  "fresh_layer (Capture s) = (s = 0)"
| "fresh_layer (Recorder s written) = (s = 200 \<and> \<not> written)"

fun record_code :: "int \<Rightarrow> layer \<Rightarrow> layer" where
  "record_code code (Capture _) = Capture code"
| "record_code code (Recorder _ _) = Recorder code True"

definition unsent :: "rw \<Rightarrow> bool" where
  "unsent b \<longleftrightarrow> rw_sent b = None \<and> rw_body b = [] \<and> list_all fresh_layer (rw_layers b)"

lemma unsent_simps [simp]:
  "unsent (set_header k v b) = unsent b"
  "unsent (push_layer l b) \<longleftrightarrow> fresh_layer l \<and> unsent b"
  "unsent fresh_rw"
  by (auto simp: unsent_def set_header_def push_layer_def fresh_rw_def)

lemma write_header_fresh:
  "list_all fresh_layer ls \<Longrightarrow> rw_sent b = None \<Longrightarrow> final_code code \<Longrightarrow>
     write_header_from ls code b =
       (Ok (), map (record_code code) ls, b\<lparr>rw_sent := Some (code, rw_header b)\<rparr>)"
proof (induction ls)
  case Nil
  then show ?case by (simp add: base_write_header_def final_code_def)
next
  case (Cons l ls)
  then show ?case by (cases l) auto
qed

lemma write_recorded:
  "code \<noteq> 0 \<Longrightarrow> write_from (map (record_code code) ls) bs b =
     (Ok (), map (record_code code) ls, base_write bs b)"
proof (induction ls)
  case (Cons l ls)
  then show ?case by (cases l) auto
qed simp

definition answered :: "int \<Rightarrow> string \<Rightarrow> rw \<Rightarrow> rw" where
  "answered code body b =
    (let b1 = set_header ''Content-Type'' ''application/json'' b
     in b1\<lparr>rw_sent := Some (code, rw_header b1), rw_body := body,
           rw_layers := map (record_code code) (rw_layers b)\<rparr>)"

lemma WriteJSON_unsent:
  assumes "unsent b" and "final_code code" and "body_allowed code"
  shows "WriteJSON code (VJson v) b = (Ok (), answered code (encode v) b)"
proof -
  let ?b = "set_header ''Content-Type'' ''application/json'' b"
  have "code \<noteq> 0" using assms(2) by (auto simp: final_code_def)
  moreover have "list_all fresh_layer (rw_layers ?b)" "rw_sent ?b = None" "rw_body ?b = []"
    using assms(1) by (simp_all add: unsent_def set_header_def)
  ultimately show ?thesis
    using assms(2,3) write_header_fresh [of "rw_layers ?b" ?b code] write_recorded [of code "rw_layers ?b"]
    by (simp add: WriteJSON_def write_header_def write_bytes_def base_write_def answered_def Let_def
        set_header_def)
qed

lemma WriteError_unsent:
  "unsent b \<Longrightarrow> final_code code \<Longrightarrow> body_allowed code \<Longrightarrow>
     WriteError code c m d b = (Ok (), answered code (encode (error_json c m d)) b)"
  unfolding WriteError_def by (rule WriteJSON_unsent)

lemma answered_simps [simp]:
  "rw_body (answered code body b) = body"
  "rw_layers (answered code body b) = map (record_code code) (rw_layers b)"
  "\<exists>h. rw_sent (answered code body b) = Some (code, h)"
  by (simp_all add: answered_def Let_def)

text \<open>What \<open>sends b\<close> says of a writer's outcome: it came from \<open>b\<close>, and it is not an error.\<close>

definition sends :: "rw \<Rightarrow> unit go \<times> rw \<Rightarrow> bool" where
  "sends b x \<longleftrightarrow> wrote b (snd x) \<and> (\<forall>e. fst x \<noteq> Err e)"

lemma sends_WriteJSON [intro]: "100 \<le> code \<Longrightarrow> code \<le> 999 \<Longrightarrow> sends b (WriteJSON code v b)"
  by (cases "WriteJSON code v b") (auto simp: sends_def dest: WriteJSON_valid wrote_WriteJSON)

lemma sends_WriteError [intro]: "100 \<le> code \<Longrightarrow> code \<le> 999 \<Longrightarrow> sends b (WriteError code c m d b)"
  unfolding WriteError_def by (rule sends_WriteJSON)

lemma sends_write_header: "sends b (write_header code b)"
  by (cases "write_header code b") (auto simp: sends_def dest: write_header_not_Err wrote_header)

lemma sends_write_bytes: "sends b (write_bytes bs b)"
  using write_bytes_Ok [of bs b] by (cases "write_bytes bs b") (auto simp: sends_def dest: wrote_body)

lemma sends_after: "wrote a b \<Longrightarrow> sends b x \<Longrightarrow> sends a x"
  by (auto simp: sends_def intro: wrote_trans)

lemma sends_self [simp]: "sends b (Ok (), b)" "sends b (Panic p, b)"
  by (simp_all add: sends_def)

section \<open>The handler contract\<close>

text \<open>
  \<open>http.Handler\<close>: a handler touches the response only through its writer, and it returns or
  panics, it has no error result.  The lemmas give what the middlewares may assume of the handler
  they wrap, and that each of them is a handler again.
\<close>

locale http_handler =
  fixes h :: handler
  assumes writes: "h r b w = (res, b', w') \<Longrightarrow> wrote b b'"
    and returns: "h r b w = (res, b', w') \<Longrightarrow> res \<noteq> Err e"
begin

lemma sends_response: "sends b (fst (h r b w), fst (snd (h r b w)))"
  by (cases "h r b w") (auto simp: sends_def dest: writes returns)

lemma contract: "h r b w = (res, b', w') \<Longrightarrow> wrote b b' \<and> (\<forall>e. res \<noteq> Err e)"
  using writes returns by blast

lemma keeps_sent: "h r b w = (res, b', w') \<Longrightarrow> rw_sent b = Some x \<Longrightarrow> rw_sent b' = Some x"
  using writes wrote_sent by blast

lemma under_recorder:
  assumes "h r (push_layer (Recorder 200 False) b) w = (res, b', w')"
    and "rw_layers b = []" and "rw_sent b = None"
  obtains s written where "rw_layers b' = [Recorder s written]"
    and "written \<Longrightarrow> final_code s \<Longrightarrow> \<exists>hdr. rw_sent b' = Some (s, hdr)"
    and "\<not> written \<Longrightarrow> s = 200 \<and> rw_sent b' = None"
proof -
  let ?b = "push_layer (Recorder 200 False) b"
  from wrote_grown [OF writes [OF assms(1)]]
  have g: "grown [Recorder 200 False] ?b (rw_layers b') b'"
    using assms(2) by (simp add: push_layer_def)
  then obtain l where l: "rw_layers b' = [l]" "same_kind (Recorder 200 False) l"
    by (auto simp: grown_def list_all2_Cons1)
  then obtain s written where "l = Recorder s written" by (cases l) auto
  moreover have "in_sync [Recorder 200 False] ?b"
    using assms(3) by (simp add: in_sync_def push_layer_def)
  ultimately show thesis
    using g l that by (auto simp: grown_def in_sync_def split: if_splits)
qed

lemma RequestID_handler: "http_handler (RequestID pf h)"
  by unfold_locales
     (auto simp: RequestID_def Let_def split: prod.splits if_splits
       intro: wrote_trans [OF wrote_set] dest!: contract)

lemma Recovery_Ok: "Recovery h r b w = (res, b', w') \<Longrightarrow> res = Ok ()"
  by (auto simp: Recovery_def Let_def split: prod.splits go.splits
      dest!: WriteError_valid dest: returns)

lemma Recovery_handler: "http_handler (Recovery h)"
proof
  fix r b w res b' w' e
  assume *: "Recovery h r b w = (res, b', w')"
  then show "wrote b b'"
    by (auto simp: Recovery_def Let_def split: prod.splits go.splits
        intro: wrote_trans dest!: writes wrote_WriteError)
  show "res \<noteq> Err e" using Recovery_Ok [OF *] by simp
qed

lemma RequestLogging_handler: "http_handler (RequestLogging h)"
  by unfold_locales
     (auto simp: RequestLogging_def split: prod.splits go.splits
       intro: wrote_wrap dest!: contract)

text \<open>Recovery leaves a panic-free handler alone and answers a panic that nothing preceded.\<close>

lemma Recovery_panic:
  assumes "h r b w = (Panic v, b1, w1)"
  shows "Recovery h r b w =
    (let (res, b2) = WriteError 500 ''internal_error'' ''internal error'' None b1
     in (res, b2, emit (LogPanic v (rq_path r)) w1))"
  using assms by (simp add: Recovery_def)

text \<open>The access log's entry carries the status the client gets.\<close>

lemma RequestLogging_truthful:
  assumes "RequestLogging (Recovery h) r b w = (res, b', w')"
    and "rw_layers b = []" and "rw_sent b = None"
  obtains b1 w1 where "Recovery h r (push_layer (Recorder 200 False) b) w = (Ok (), b1, w1)"
    and "res = Ok ()" and "b' = pop_layer b1"
    and "w' = emit (LogRequest (rq_method r) (rq_path r) (top_status b1)
                     (RequestIDFromContext (rq_ctx r))) w1"
    and "final_code (top_status b1) \<Longrightarrow> rs_status (finish b') = top_status b1"
proof -
  obtain q b1 w1 where q: "Recovery h r (push_layer (Recorder 200 False) b) w = (q, b1, w1)"
    by (cases "Recovery h r (push_layer (Recorder 200 False) b) w")
  have [simp]: "q = Ok ()" using Recovery_Ok [OF q] .
  from http_handler.under_recorder [OF Recovery_handler q assms(2,3)] obtain s written where
    s: "rw_layers b1 = [Recorder s written]"
       "written \<Longrightarrow> final_code s \<Longrightarrow> \<exists>hdr. rw_sent b1 = Some (s, hdr)"
       "\<not> written \<Longrightarrow> s = 200 \<and> rw_sent b1 = None"
    by blast
  have "rs_status (finish (pop_layer b1)) = s" if "final_code s"
    using s that by (cases written) (auto simp: finish_def pop_layer_def)
  with q s assms(1) show thesis
    by (intro that [OF _]) (auto simp: RequestLogging_def top_status_def)
qed

end

lemma http_handlerI:
  "(\<And>r b w. sends b (fst (h r b w), fst (snd (h r b w)))) \<Longrightarrow> http_handler h"
  by unfold_locales (auto simp: sends_def, metis fst_conv snd_conv, metis fst_conv)

lemma NewServer_handler: "http_handler h \<Longrightarrow> http_handler (NewServer pf h)"
  unfolding NewServer_def
  by (intro http_handler.RequestID_handler http_handler.RequestLogging_handler
      http_handler.Recovery_handler)

text \<open>Every handler of this file keeps the contract.\<close>

interpretation health: http_handler Health
  by unfold_locales (auto simp: Health_def split: prod.splits dest: wrote_WriteJSON WriteJSON_valid)

interpretation ready: http_handler "Ready check" for check
  by unfold_locales
     (auto simp: Ready_def split: prod.splits go.splits
       dest: wrote_WriteJSON wrote_WriteError WriteJSON_valid WriteError_valid)


section \<open>What the client and the access log see\<close>

definition request_id :: "platform \<Rightarrow> request \<Rightarrow> world \<Rightarrow> string" where
  "request_id pf r w =
    (let given = header_get (rq_header r) ''X-Request-Id'' in
     if given = [] then pf_uuid pf (uuids w) else given)"

lemma RequestID_eq:
  "RequestID pf h r b w =
     h (r\<lparr>rq_ctx := (rq_ctx r)\<lparr>cx_request_id := Some (request_id pf r w)\<rparr>\<rparr>)
       (set_header ''X-Request-Id'' (request_id pf r w) b)
       (if header_get (rq_header r) ''X-Request-Id'' = [] then w\<lparr>uuids := Suc (uuids w)\<rparr> else w)"
  by (simp add: RequestID_def request_id_def new_uuid_def Let_def)

text \<open>What recovery adds to the log of the handler it wraps.\<close>

lemma Recovery_logged:
  assumes "Recovery h r b w = (res, b', w')"
  obtains q b1 w1 where "h r b w = (q, b1, w1)"
    and "logged w' = logged w1 @ (case q of Panic v \<Rightarrow> [LogPanic v (rq_path r)] | _ \<Rightarrow> [])"
proof -
  obtain q b1 w1 where q: "h r b w = (q, b1, w1)" by (cases "h r b w")
  with assms have "logged w' = logged w1 @ (case q of Panic v \<Rightarrow> [LogPanic v (rq_path r)] | _ \<Rightarrow> [])"
    by (auto simp: Recovery_def Let_def emit_def split: go.splits prod.splits)
  with q that show thesis by blast
qed


definition sample_request :: request where
  "sample_request = \<lparr>rq_method = ''GET'', rq_path = ''/healthz'', rq_header = [], rq_body = [],
     rq_body_fails = None, rq_ctx = \<lparr>cx_request_id = None, cx_idempotency_key = None\<rparr>\<rparr>"

lemma sample_request_id: "request_id sample_platform sample_request sample_world = ''u0''"
  by code_simp


text \<open>A panic becomes a 500 with the error envelope.  When the handler panics before it has
  written anything, the client receives status 500, content type JSON and exactly the
  \<open>internal_error\<close> envelope, and the log holds the panic value followed by the access record.\<close>

theorem panic_becomes_500:
  assumes "\<And>r b w. h r b w = (Panic v, b, f w)"
    and "header_get (rq_header r) ''X-Request-Id'' = rid" and "rid \<noteq> []"
  shows "serve (NewServer pf h) r w =
    (Some \<lparr>rs_status = 500,
           rs_header = [(''Content-Type'', ''application/json''), (''X-Request-Id'', rid)],
           rs_body = encode (error_json ''internal_error'' ''internal error'' None)\<rparr>,
     emit (LogRequest (rq_method r) (rq_path r) 500 rid)
       (emit (LogPanic v (rq_path r)) (f (w\<lparr>cancelled := False\<rparr>))))"
  using assms
  by (simp add: serve_def NewServer_def RequestID_def Let_def RequestLogging_def Recovery_def
      WriteError_def WriteJSON_def write_header_def write_bytes_def push_layer_def pop_layer_def
      set_header_def fresh_rw_def base_write_header_def base_write_def informational_def
      body_allowed_def header_set_def finish_def top_status_def RequestIDFromContext_def)

theorem panic_becomes_500_witness:
  "rs_status (the (fst (serve (NewServer sample_platform (\<lambda>r b w. (Panic ''boom'', b, w)))
      (sample_request\<lparr>rq_header := [(''X-Request-Id'', ''req-abc'')]\<rparr>) sample_world))) = 500"
  by (subst panic_becomes_500 [where v = "''boom''" and f = "\<lambda>w. w" and rid = "''req-abc''"])
     (simp_all add: header_get_def)

text \<open>C38: recovery cannot take back what was sent.  A handler that panics after it has sent a status
  leaves the client with that status, and the error envelope is appended to the bytes already
  written: the response is neither a 500 nor valid JSON.\<close>

theorem late_panic_keeps_status:
  assumes "h r b w = (Panic v, b1, w1)" and "rw_layers b1 = [Recorder s True]"
    and "rw_sent b1 = Some (code, hdr)" and "body_allowed code"
  shows "\<exists>b2. Recovery h r b w = (Ok (), b2, emit (LogPanic v (rq_path r)) w1) \<and>
     rs_status (finish b2) = code \<and>
     rs_body (finish b2) = rw_body b1 @ encode (error_json ''internal_error'' ''internal error'' None)"
  using assms
  by (simp add: Recovery_def WriteError_def WriteJSON_def write_header_def write_bytes_def Let_def
      set_header_def base_write_def finish_def)

definition half_done :: handler where
  "half_done r b w =
    (case WriteJSON 200 (VJson (JArr [])) b of (_, b1) \<Rightarrow> (Panic ''boom'', b1, w))"

theorem late_panic_keeps_status_witness:
  "\<exists>b2. Recovery half_done sample_request (push_layer (Recorder 200 False) fresh_rw) sample_world =
      (Ok (), b2, emit (LogPanic ''boom'' ''/healthz'') sample_world) \<and>
    rs_status (finish b2) = 200"
proof -
  let ?b = "snd (WriteJSON 200 (VJson (JArr [])) (push_layer (Recorder 200 False) fresh_rw))"
  have run: "half_done sample_request (push_layer (Recorder 200 False) fresh_rw) sample_world =
      (Panic ''boom'', ?b, sample_world)"
    by (simp add: half_done_def split: prod.splits)
  have b: "rw_layers ?b = [Recorder 200 True]"
    "rw_sent ?b = Some (200, [(''Content-Type'', ''application/json'')])"
    by (simp_all add: WriteJSON_def write_header_def write_bytes_def push_layer_def set_header_def
        fresh_rw_def base_write_header_def base_write_def informational_def header_set_def Let_def)
  show ?thesis
    using late_panic_keeps_status [where h = half_done, OF run b]
    by (auto simp: body_allowed_def sample_request_def)
qed

end
