(* ===== verification/Idempotency.thy ===== *)
theory Idempotency
  imports Httpx
begin

text \<open>
  \<open>internal/idempotency/hash.go\<close> and \<open>store.go\<close>: the digest of the canonicalised request body, and
  the key table with \<open>Claim\<close>, \<open>Release\<close> and \<open>Complete\<close>.  The locale \<open>claim_store\<close> states what the
  middleware relies on; it is interpreted on the Postgres store.
\<close>

section \<open>Hash\<close>

text \<open>
  Decoding into \<open>any\<close>: objects become maps (the last of two equal keys wins), which are encoded
  with their keys in byte order; numbers become \<open>float64\<close>s, printed by \<open>pf_float\<close>.
\<close>

fun bytes_less :: "string \<Rightarrow> string \<Rightarrow> bool" where
  "bytes_less [] ys = (ys \<noteq> [])"
| "bytes_less (x # xs) [] = False"
| "bytes_less (x # xs) (y # ys) = (byte_val x < byte_val y \<or> (byte_val x = byte_val y \<and> bytes_less xs ys))"

fun put_member :: "string \<Rightarrow> json \<Rightarrow> (string \<times> json) list \<Rightarrow> (string \<times> json) list" where
  "put_member k v [] = [(k, v)]"
| "put_member k v ((k', v') # ms) =
    (if k = k' then (k, v) # ms
     else if bytes_less k k' then (k, v) # (k', v') # ms
     else (k', v') # put_member k v ms)"

fun canonical :: "(string \<Rightarrow> string option) \<Rightarrow> json \<Rightarrow> json option"
  and canonical_elems :: "(string \<Rightarrow> string option) \<Rightarrow> json list \<Rightarrow> json list option"
  and canonical_members ::
    "(string \<Rightarrow> string option) \<Rightarrow> (string \<times> json) list \<Rightarrow> (string \<times> json) list
       \<Rightarrow> (string \<times> json) list option" where
  "canonical fl (JNum n) = map_option JNum (fl n)"
| "canonical fl (JArr vs) = map_option JArr (canonical_elems fl vs)"
| "canonical fl (JObj ms) = map_option JObj (canonical_members fl ms [])"
| "canonical fl v = Some v"
| "canonical_elems fl [] = Some []"
| "canonical_elems fl (v # vs) =
    (case canonical fl v of
       None \<Rightarrow> None
     | Some u \<Rightarrow> map_option (\<lambda>us. u # us) (canonical_elems fl vs))"
| "canonical_members fl [] acc = Some acc"
| "canonical_members fl (m # ms) acc =
    (case canonical fl (snd m) of
       None \<Rightarrow> None
     | Some u \<Rightarrow> canonical_members fl ms (put_member (fst m) u acc))"

definition Hash :: "platform \<Rightarrow> string \<Rightarrow> string go" where
  "Hash pf body =
    (case decode_all body of
       None \<Rightarrow> Err (Wrapf ''idempotency: canonicalise request: '' (Errorf ''json: syntax error'') [])
     | Some v \<Rightarrow>
        (case canonical (pf_float pf) v of
           None \<Rightarrow> Err (Wrapf ''idempotency: canonicalise request: '' (Errorf ''json: bad number'') [])
         | Some c \<Rightarrow> Ok (hex_encode (pf_sha256 pf (encode c)))))"

lemma Hash_cases: "(\<exists>h. Hash pf body = Ok h) \<or> (\<exists>e. Hash pf body = Err e)"
  by (simp add: Hash_def split: option.splits)

text \<open>Members are kept sorted by key, so the order they arrive in does not matter.\<close>

lemma bytes_less_irrefl [simp]: "\<not> bytes_less xs xs"
  by (induction xs) auto

lemma byte_val_inject [simp]: "byte_val c = byte_val d \<longleftrightarrow> c = d"
  by (simp add: byte_val_def)

lemma bytes_less_linear: "xs \<noteq> ys \<Longrightarrow> bytes_less xs ys \<or> bytes_less ys xs"
  by (induction xs ys rule: bytes_less.induct) auto

lemma bytes_less_trans: "bytes_less xs ys \<Longrightarrow> bytes_less ys zs \<Longrightarrow> bytes_less xs zs"
proof (induction xs ys arbitrary: zs rule: bytes_less.induct)
  case (1 ys)
  then show ?case by (cases zs; cases ys) auto
next
  case (3 x xs y ys)
  then show ?case by (cases zs) auto
qed simp

lemma bytes_less_asym: "bytes_less xs ys \<Longrightarrow> \<not> bytes_less ys xs"
  using bytes_less_trans bytes_less_irrefl by blast

lemma put_member_swap:
  assumes "k1 \<noteq> k2"
  shows "put_member k1 v1 (put_member k2 v2 ms) = put_member k2 v2 (put_member k1 v1 ms)"
proof (induction ms)
  case Nil
  show ?case using assms bytes_less_linear [OF assms] by (auto dest: bytes_less_asym)
next
  case (Cons m ms)
  show ?case
    using assms bytes_less_linear [OF assms] Cons
    by (cases m) (auto dest: bytes_less_asym bytes_less_trans)
qed

lemma canonical_members_fold:
  "canonical_members fl ms acc =
     (if \<exists>m \<in> set ms. canonical fl (snd m) = None then None
      else Some (fold (\<lambda>m. put_member (fst m) (the (canonical fl (snd m)))) ms acc))"
  by (induction ms arbitrary: acc) (auto split: option.splits)

lemma canonical_member_order:
  assumes "mset ms = mset ms'" and "distinct (map fst ms)"
  shows "canonical fl (JObj ms) = canonical fl (JObj ms')"
proof -
  let ?f = "\<lambda>m. put_member (fst m) (the (canonical fl (snd m)))"
  have "?f x \<circ> ?f y = ?f y \<circ> ?f x" if "x \<in> set ms" "y \<in> set ms" for x y
  proof (cases "fst x = fst y")
    case True
    with that assms(2) have "x = y" by (auto simp: distinct_map dest: inj_onD)
    then show ?thesis by simp
  next
    case False
    then show ?thesis by (simp add: fun_eq_iff put_member_swap)
  qed
  then have "fold ?f ms = fold ?f ms'"
    by (intro fold_multiset_equiv [OF _ assms(1)])
  moreover have "set ms = set ms'" using assms(1) by (rule mset_eq_setD)
  ultimately show ?thesis by (simp add: canonical_members_fold)
qed

text \<open>
  Two decoded bodies say the same: they differ in the order of the members of objects, at any depth, and in
  how they spell numbers that have one \<open>float64\<close>.
\<close>

inductive same_json :: "(string \<Rightarrow> string option) \<Rightarrow> json \<Rightarrow> json \<Rightarrow> bool" for fl where
  same_value: "same_json fl v v"
| same_number: "fl n = fl n' \<Longrightarrow> same_json fl (JNum n) (JNum n')"
| same_elems: "list_all2 (same_json fl) vs vs' \<Longrightarrow> same_json fl (JArr vs) (JArr vs')"
| same_members:
    "distinct (map fst ms) \<Longrightarrow> list_all2 (\<lambda>m m'. fst m = fst m' \<and> same_json fl (snd m) (snd m')) ms ns \<Longrightarrow>
       mset ns = mset ms' \<Longrightarrow> same_json fl (JObj ms) (JObj ms')"

lemma canonical_elems_cong:
  "list_all2 (\<lambda>v v'. canonical fl v = canonical fl v') vs vs' \<Longrightarrow> canonical_elems fl vs = canonical_elems fl vs'"
  by (induction rule: list_all2_induct) (simp_all split: option.split)

lemma canonical_members_cong:
  "list_all2 (\<lambda>m m'. fst m = fst m' \<and> canonical fl (snd m) = canonical fl (snd m')) ms ns \<Longrightarrow>
     canonical_members fl ms acc = canonical_members fl ns acc"
  by (induction arbitrary: acc rule: list_all2_induct) (simp_all split: option.split)

lemma list_all2_same_fst:
  "list_all2 (\<lambda>m m'. fst m = fst m' \<and> P m m') ms ns \<Longrightarrow> map fst ms = map fst ns"
  by (induction rule: list_all2_induct) simp_all

lemma canonical_same_json: "same_json fl v v' \<Longrightarrow> canonical fl v = canonical fl v'"
proof (induction rule: same_json.induct)
  case (same_elems vs vs')
  then have "list_all2 (\<lambda>v v'. canonical fl v = canonical fl v') vs vs'"
    by (auto elim: list_all2_mono)
  from canonical_elems_cong [OF this] show ?case by simp
next
  case (same_members ms ns ms')
  then have same: "list_all2 (\<lambda>m m'. fst m = fst m' \<and> canonical fl (snd m) = canonical fl (snd m')) ms ns"
    by (auto elim: list_all2_mono)
  have "canonical fl (JObj ms) = canonical fl (JObj ns)"
    using canonical_members_cong [OF same] by simp
  moreover have "distinct (map fst ns)"
    using same_members(1) list_all2_same_fst [OF same] by simp
  ultimately show ?case using canonical_member_order [of ns ms' fl] \<open>mset ns = mset ms'\<close> by simp
qed simp_all

text \<open>C40: the request hash does not see how the client serialised the body.  Two bodies that decode to values
  which differ only in the order of members, in objects at any depth, and in the spelling of numbers with one
  \<open>float64\<close>, have the same hash, whatever white space and escapes their texts have.\<close>

theorem Hash_ignores_member_order:
  assumes "decode_all body = Some v" and "decode_all body' = Some v'" and "same_json (pf_float pf) v v'"
  shows "Hash pf body = Hash pf body'"
  using canonical_same_json [OF assms(3)] by (simp add: Hash_def assms(1,2))

text \<open>An order whose one item is written in both ways.\<close>

theorem Hash_ignores_member_order_witness:
  "Hash sample_platform ''{\"a\":1,\"items\":[{\"sku\":\"s\",\"quantity\":2}]}'' =
   Hash sample_platform ''{ \"items\" : [ {\"quantity\": 2, \"sku\": \"s\"} ], \"a\": 1 }''"
proof (rule Hash_ignores_member_order)
  let ?ab = "[(''sku'', JStr ''s''), (''quantity'', JNum ''2'')]"
  let ?ba = "[(''quantity'', JNum ''2''), (''sku'', JStr ''s'')]"
  show "decode_all ''{\"a\":1,\"items\":[{\"sku\":\"s\",\"quantity\":2}]}'' =
      Some (JObj [(''a'', JNum ''1''), (''items'', JArr [JObj ?ab])])"
    by code_simp
  show "decode_all ''{ \"items\" : [ {\"quantity\": 2, \"sku\": \"s\"} ], \"a\": 1 }'' =
      Some (JObj [(''items'', JArr [JObj ?ba]), (''a'', JNum ''1'')])"
    by code_simp
  have "same_json (pf_float sample_platform) (JObj ?ab) (JObj ?ba)"
    by (rule same_members [where ns = ?ab]) (simp_all add: same_value)
  then have "same_json (pf_float sample_platform) (JArr [JObj ?ab]) (JArr [JObj ?ba])"
    by (intro same_elems) simp
  then show "same_json (pf_float sample_platform) (JObj [(''a'', JNum ''1''), (''items'', JArr [JObj ?ab])])
      (JObj [(''items'', JArr [JObj ?ba]), (''a'', JNum ''1'')])"
    by (intro same_members [where ns = "[(''a'', JNum ''1''), (''items'', JArr [JObj ?ba])]"]) (simp_all add: same_value)
qed

section \<open>Keys\<close>

definition StateInProgress :: string where "StateInProgress = ''in_progress''"
definition StateCompleted :: string where "StateCompleted = ''completed''"

lemma states_differ [simp]: "StateInProgress \<noteq> StateCompleted" "StateCompleted \<noteq> StateInProgress"
  by (simp_all add: StateInProgress_def StateCompleted_def)

datatype outcome = OutcomeOwned | OutcomeReplay | OutcomeInProgress | OutcomeConflict

record key_record =
  rec_key :: string
  rec_request_hash :: string
  rec_state :: string
  rec_resource_type :: string
  rec_resource_id :: string
  rec_response_body :: string
  rec_status_code :: int

record completion =
  cp_key :: string
  cp_resource_type :: string
  cp_resource_id :: string
  cp_status_code :: int
  cp_response_body :: string

text \<open>The \<open>INSERT ... ON CONFLICT (key) DO NOTHING RETURNING key\<close> of \<open>Claim\<close>.\<close>

definition new_key_row :: "int \<Rightarrow> string \<Rightarrow> string \<Rightarrow> key_row" where
  "new_key_row now key hash =
    \<lparr>k_key = key, k_request_hash = hash, k_state = ''in_progress'', k_resource_type = [],
     k_resource_id = [], k_response_body = None, k_status_code = 0, k_created_at = now\<rparr>"

definition sql_claim :: "int \<Rightarrow> string \<Rightarrow> string \<Rightarrow> string option stmt" where
  "sql_claim now key hash d =
    (case find_row k_key key (idempotency_keys d) of
       Some _ \<Rightarrow> Inr (None, d)
     | None \<Rightarrow>
        Inr (Some key, d\<lparr>idempotency_keys := idempotency_keys d @ [new_key_row now key hash]\<rparr>))"

text \<open>The \<open>SELECT\<close> of \<open>get\<close>; a null response body reads as the JSON text \<open>null\<close>.\<close>

definition record_of :: "key_row \<Rightarrow> key_record" where
  "record_of r =
    \<lparr>rec_key = k_key r, rec_request_hash = k_request_hash r, rec_state = k_state r,
     rec_resource_type = k_resource_type r, rec_resource_id = k_resource_id r,
     rec_response_body = (case k_response_body r of None \<Rightarrow> ''null'' | Some b \<Rightarrow> b),
     rec_status_code = k_status_code r\<rparr>"

lemma record_of_simps [simp]:
  "rec_request_hash (record_of r) = k_request_hash r"
  "rec_state (record_of r) = k_state r"
  "rec_status_code (record_of r) = k_status_code r"
  by (simp_all add: record_of_def)

definition sql_get_key :: "string \<Rightarrow> key_record option stmt" where
  "sql_get_key key d = Inr (map_option record_of (find_row k_key key (idempotency_keys d)), d)"

definition get_key :: "string \<Rightarrow> world \<Rightarrow> key_record go \<times> world" where
  "get_key key w =
    (case query_row True (sql_get_key key) w of
       (Ok r, w1) \<Rightarrow> (Ok r, w1)
     | (Err e, w1) \<Rightarrow> (Err (Wrapf (''idempotency: get '' @ key @ '': '') e []), w1)
     | (Panic p, w1) \<Rightarrow> (Panic p, w1))"

definition claimed_record :: "string \<Rightarrow> string \<Rightarrow> key_record" where
  "claimed_record key hash =
    \<lparr>rec_key = key, rec_request_hash = hash, rec_state = StateInProgress, rec_resource_type = [],
     rec_resource_id = [], rec_response_body = [], rec_status_code = 0\<rparr>"

definition Claim :: "string \<Rightarrow> string \<Rightarrow> world \<Rightarrow> (outcome \<times> key_record) go \<times> world" where
  "Claim key requestHash w =
    (case query_row True (sql_claim (clock w) key requestHash) w of
       (Ok _, w1) \<Rightarrow> (Ok (OutcomeOwned, claimed_record key requestHash), w1)
     | (Panic p, w1) \<Rightarrow> (Panic p, w1)
     | (Err e, w1) \<Rightarrow>
        (if \<not> errors_is e ErrNoRows then (Err (Wrapf ''idempotency: claim: '' e []), w1)
         else
           case get_key key w1 of
             (Err e2, w2) \<Rightarrow> (Err e2, w2)
           | (Panic p, w2) \<Rightarrow> (Panic p, w2)
           | (Ok existing, w2) \<Rightarrow>
              (if rec_request_hash existing \<noteq> requestHash then (Ok (OutcomeConflict, existing), w2)
               else if rec_state existing = StateCompleted then (Ok (OutcomeReplay, existing), w2)
               else (Ok (OutcomeInProgress, existing), w2))))"

text \<open>The \<open>WHERE\<close> clause of \<open>Release\<close> and \<open>Complete\<close>.\<close>

definition claimed_by :: "string \<Rightarrow> key_row \<Rightarrow> bool" where
  "claimed_by key r \<longleftrightarrow> k_key r = key \<and> k_state r = ''in_progress''"

text \<open>\<open>Release\<close>: the caller passes a context without cancellation.\<close>

definition sql_release :: "string \<Rightarrow> unit stmt" where
  "sql_release key d =
    Inr ((), d\<lparr>idempotency_keys :=
      delete_rows (claimed_by key) (idempotency_keys d)\<rparr>)"

definition Release :: "string \<Rightarrow> world \<Rightarrow> unit go \<times> world" where
  "Release key w =
    (case driver_call False (sql_release key) w of
       (Err e, w1) \<Rightarrow> (Err (Wrapf (''idempotency: release '' @ key @ '': '') e []), w1)
     | (Panic p, w1) \<Rightarrow> (Panic p, w1)
     | (Ok _, w1) \<Rightarrow> (Ok (), w1))"

text \<open>\<open>Complete\<close> runs inside the caller's transaction and returns the number of rows it changed.\<close>

definition complete_row :: "completion \<Rightarrow> key_row \<Rightarrow> key_row" where
  "complete_row c r =
    r\<lparr>k_state := ''completed'', k_resource_type := cp_resource_type c,
      k_resource_id := cp_resource_id c, k_status_code := cp_status_code c,
      k_response_body := Some (cp_response_body c)\<rparr>"

definition sql_complete :: "completion \<Rightarrow> nat stmt" where
  "sql_complete c d =
    (if \<not> fits_int4 (cp_status_code c) then Inl (Driver ''status_code is out of range for int4'')
     else Inr (length (filter (claimed_by (cp_key c)) (idempotency_keys d)),
               d\<lparr>idempotency_keys :=
                  update_rows (claimed_by (cp_key c)) (complete_row c) (idempotency_keys d)\<rparr>))"

definition Complete :: "completion \<Rightarrow> world \<Rightarrow> unit go \<times> world" where
  "Complete c w =
    (case driver_call True (sql_complete c) w of
       (Err e, w1) \<Rightarrow> (Err (Wrapf (''idempotency: complete '' @ cp_key c @ '': '') e []), w1)
     | (Panic p, w1) \<Rightarrow> (Panic p, w1)
     | (Ok n, w1) \<Rightarrow>
        (if n \<noteq> 1
         then (Err (Errorf (''idempotency: complete '' @ cp_key c @ '': no in-progress claim'')), w1)
         else (Ok (), w1)))"


section \<open>The abstract key store\<close>

text \<open>
  What a key is to a client: not there, claimed by a request with some hash, or done with the
  resource, status and body to replay.
\<close>

datatype key_state = Claimed string | Done string string int string

type_synonym key_store = "string \<rightharpoonup> key_state"

definition spec_claim :: "string \<Rightarrow> string \<Rightarrow> key_store \<Rightarrow> outcome \<times> key_store" where
  "spec_claim k h m =
    (case m k of
       None \<Rightarrow> (OutcomeOwned, m(k \<mapsto> Claimed h))
     | Some (Claimed h') \<Rightarrow> (if h' \<noteq> h then OutcomeConflict else OutcomeInProgress, m)
     | Some (Done h' rid code body) \<Rightarrow> (if h' \<noteq> h then OutcomeConflict else OutcomeReplay, m))"

definition spec_release :: "string \<Rightarrow> key_store \<Rightarrow> key_store" where
  "spec_release k m = (case m k of Some (Claimed _) \<Rightarrow> m(k := None) | _ \<Rightarrow> m)"

definition spec_complete :: "completion \<Rightarrow> key_store \<Rightarrow> key_store option" where
  "spec_complete c m =
    (case m (cp_key c) of
       Some (Claimed h) \<Rightarrow>
         Some (m(cp_key c \<mapsto> Done h (cp_resource_id c) (cp_status_code c) (cp_response_body c)))
     | _ \<Rightarrow> None)"

definition abs_row :: "key_row \<Rightarrow> key_state" where
  "abs_row r =
    (if k_state r = ''completed''
     then Done (k_request_hash r) (k_resource_id r) (k_status_code r)
            (case k_response_body r of None \<Rightarrow> ''null'' | Some b \<Rightarrow> b)
     else Claimed (k_request_hash r))"

definition key_store_of :: "database \<Rightarrow> key_store" where
  "key_store_of d k = map_option abs_row (find_row k_key k (idempotency_keys d))"

lemma key_store_of_cong:
  "idempotency_keys d = idempotency_keys d' \<Longrightarrow> key_store_of d = key_store_of d'"
  by (simp add: key_store_of_def fun_eq_iff)

section \<open>The store implements it\<close>

lemma sql_claim_new:
  "key_store_of d k = None \<Longrightarrow>
     \<exists>d'. sql_claim now k h d = Inr (Some k, d') \<and>
       d' = d\<lparr>idempotency_keys := idempotency_keys d @ [new_key_row now k h]\<rparr> \<and>
       key_store_of d' = (key_store_of d)(k \<mapsto> Claimed h)"
  by (auto simp: sql_claim_def key_store_of_def find_row_append new_key_row_def abs_row_def
      fun_eq_iff split: option.splits)

lemma sql_claim_old:
  "key_store_of d k = Some st \<Longrightarrow> sql_claim now k h d = Inr (None, d)"
  by (auto simp: sql_claim_def key_store_of_def)

lemma find_update_claimed:
  "find_row k_key k (update_rows (claimed_by c) (complete_row cp) rows) =
     map_option (\<lambda>r. if claimed_by c r then complete_row cp r else r) (find_row k_key k rows)"
  by (rule find_row_update) (simp add: complete_row_def)

lemma count_claimed:
  assumes "distinct (map k_key rows)"
  shows "length (filter (claimed_by k) rows) =
     (case find_row k_key k rows of Some r \<Rightarrow> if k_state r = ''in_progress'' then 1 else 0 | None \<Rightarrow> 0)"
  using assms
proof (induction rows)
  case (Cons r rows)
  have "filter (claimed_by k) rows = []" if "k_key r = k"
    using that Cons.prems by (auto simp: filter_empty_conv claimed_by_def image_iff)
  moreover have "find_row k_key k rows = None" if "k_key r = k"
    using that Cons.prems by (auto simp: find_row_None_iff)
  ultimately show ?case using Cons by (cases "k_key r = k") (auto simp: claimed_by_def)
qed simp

text \<open>Rows whose state the schema allows are claimed exactly when they are in progress.\<close>

lemma db_ok_key_state:
  "db_ok d \<Longrightarrow> find_row k_key k (idempotency_keys d) = Some r \<Longrightarrow>
     k_state r = ''in_progress'' \<or> k_state r = ''completed''"
  by (auto simp: db_ok_def list_all_iff key_row_ok_def key_states_def dest!: find_row_SomeD)

lemma key_store_Claimed:
  "db_ok d \<Longrightarrow> key_store_of d k = Some (Claimed h) \<longleftrightarrow>
     (\<exists>r. find_row k_key k (idempotency_keys d) = Some r \<and> k_state r = ''in_progress'' \<and>
       k_request_hash r = h)"
  using db_ok_key_state [of d k]
  by (cases "find_row k_key k (idempotency_keys d)") (auto simp: key_store_of_def abs_row_def)

lemma key_store_Done:
  "key_store_of d k = Some (Done h rid code body) \<longleftrightarrow>
     (\<exists>r. find_row k_key k (idempotency_keys d) = Some r \<and> k_state r = ''completed'' \<and>
       k_request_hash r = h \<and> k_resource_id r = rid \<and> k_status_code r = code \<and>
       rec_response_body (record_of r) = body)"
  by (auto simp: key_store_of_def abs_row_def record_of_def split: if_splits option.splits)

lemma db_ok_keys: "db_ok d \<Longrightarrow> distinct (map k_key (idempotency_keys d))"
  by (simp add: db_ok_def)

lemma sql_release_refines:
  assumes "db_ok d" and "sql_release k d = Inr (u, d')"
  shows "key_store_of d' = spec_release k (key_store_of d)"
proof
  fix k'
  let ?rows = "idempotency_keys d"
  have d': "idempotency_keys d' = delete_rows (claimed_by k) ?rows"
    using assms(2) by (auto simp: sql_release_def)
  have key: "k_key r = k'" if "find_row k_key k' ?rows = Some r" for r
    using find_row_SomeD [OF that] by simp
  show "key_store_of d' k' = spec_release k (key_store_of d) k'"
    using db_ok_key_state [OF assms(1), of k'] key
    by (cases "find_row k_key k' ?rows")
       (auto simp: key_store_of_def d' find_row_delete_key [OF db_ok_keys [OF assms(1)]]
         spec_release_def claimed_by_def abs_row_def
         split: key_state.splits option.splits if_splits)
qed

lemma sql_complete_refines:
  assumes "db_ok d" and "sql_complete c d = Inr (n, d')"
  shows "n = (if spec_complete c (key_store_of d) = None then 0 else 1) \<and>
     key_store_of d' = (case spec_complete c (key_store_of d) of None \<Rightarrow> key_store_of d | Some m \<Rightarrow> m)"
proof
  let ?rows = "idempotency_keys d"
  have d': "idempotency_keys d' = update_rows (claimed_by (cp_key c)) (complete_row c) ?rows"
    and n: "n = length (filter (claimed_by (cp_key c)) ?rows)"
    using assms(2) by (auto simp: sql_complete_def split: if_splits)
  have claimed: "(\<exists>h. key_store_of d k = Some (Claimed h)) \<longleftrightarrow>
      (\<exists>r. find_row k_key k ?rows = Some r \<and> k_state r = ''in_progress'')" for k
    using key_store_Claimed [OF assms(1)] by auto
  show "n = (if spec_complete c (key_store_of d) = None then 0 else 1)"
    unfolding n count_claimed [OF db_ok_keys [OF assms(1)]]
    using claimed [of "cp_key c"]
    by (auto simp: spec_complete_def split: option.splits key_state.splits)
  show "key_store_of d' = (case spec_complete c (key_store_of d) of None \<Rightarrow> key_store_of d | Some m \<Rightarrow> m)"
  proof
    fix k'
    have key: "k_key r = k'" if "find_row k_key k' ?rows = Some r" for r
      using find_row_SomeD [OF that] by simp
    show "key_store_of d' k' =
        (case spec_complete c (key_store_of d) of None \<Rightarrow> key_store_of d | Some m \<Rightarrow> m) k'"
      using db_ok_key_state [OF assms(1), of k'] key
      by (cases "find_row k_key k' ?rows")
         (auto simp: key_store_of_def d' find_update_claimed spec_complete_def claimed_by_def
           abs_row_def complete_row_def split: key_state.splits option.splits if_splits)
  qed
qed


text \<open>The tables keep their constraints.\<close>

lemma db_ok_sql_claim [schema]:
  "sql_claim now k h d = Inr (x, d') \<Longrightarrow> db_ok d \<Longrightarrow> db_ok d'"
  by (auto simp: sql_claim_def db_ok_def new_key_row_def key_row_ok_def key_states_def
      fits_int4_def find_row_None_iff split: option.splits)

lemma db_ok_sql_release [schema]:
  "sql_release k d = Inr (x, d') \<Longrightarrow> db_ok d \<Longrightarrow> db_ok d'"
  by (auto simp: sql_release_def db_ok_def distinct_map_delete_rows list_all_iff set_delete_rows)

lemma db_ok_sql_complete [schema]:
  "sql_complete c d = Inr (x, d') \<Longrightarrow> db_ok d \<Longrightarrow> db_ok d'"
  by (auto simp: sql_complete_def db_ok_def map_key_update_rows complete_row_def list_all_iff
      set_update_rows key_row_ok_def key_states_def split: if_splits)

text \<open>What the other tables see of the key operations: nothing.\<close>

definition other_tables :: "database \<Rightarrow> order_row list \<times> item_row list \<times> event_row list" where
  "other_tables d = (orders d, order_items d, outbox_events d)"

lemma key_ops_other_tables [frame]:
  "sql_claim now k h d = Inr (x, d') \<Longrightarrow> other_tables d' = other_tables d"
  "sql_release k d = Inr (y, d') \<Longrightarrow> other_tables d' = other_tables d"
  "sql_complete c d = Inr (n, d') \<Longrightarrow> other_tables d' = other_tables d"
  "sql_get_key k d = Inr (z, d') \<Longrightarrow> d' = d"
  by (auto simp: sql_claim_def sql_release_def sql_complete_def sql_get_key_def other_tables_def
      split: option.splits if_splits)

section \<open>Claim, Release and Complete\<close>

abbreviation keys :: "world \<Rightarrow> key_store" where
  "keys w \<equiv> key_store_of (db w)"

lemma get_key_cases:
  assumes "get_key k w = (r, w')"
  obtains (found) row where "find_row k_key k (idempotency_keys (db w)) = Some row"
      and "r = Ok (record_of row)" and "db w' = db w"
  | (failed) "\<not> is_ok r" and "db w' = db w"
proof -
  obtain q w1 where q: "driver_call True (sql_get_key k) w = (q, w1)"
    by (cases "driver_call True (sql_get_key k) w")
  have db1: "db w1 = db w" using q by (rule driver_call_cases) (auto simp: sql_get_key_def)
  have w': "w' = w1"
    using assms q by (auto simp: get_key_def query_row_def split: prod.splits go.splits option.splits)
  consider row where "q = Ok (Some (record_of row))"
      "find_row k_key k (idempotency_keys (db w)) = Some row"
    | "q = Ok None" | "\<not> is_ok q"
    using driver_call_Ok [of True "sql_get_key k" w _ w1] q
    by (cases q) (auto simp: sql_get_key_def)
  then show thesis
  proof cases
    case 1
    then show thesis using assms q db1 w' by (intro found) (auto simp: get_key_def query_row_def)
  next
    case 2
    then show thesis using assms q db1 w' by (intro failed) (auto simp: get_key_def query_row_def)
  next
    case 3
    then show thesis
      using assms q db1 w' by (cases q) (auto simp: get_key_def query_row_def intro: failed)
  qed
qed

lemma Claim_env: "Claim k h w = (r, w') \<Longrightarrow> same_env w w'"
  by (auto simp: Claim_def get_key_def split: prod.splits go.splits if_splits
      dest!: query_row_env intro: same_env_trans)

lemma driver_error_not_no_rows: "\<not> errors_is ctx_canceled ErrNoRows" "\<not> errors_is (Driver m) ErrNoRows"
  by (simp_all add: ctx_canceled_def ErrNoRows_def)

text \<open>
  The three ways \<open>Claim\<close> ends: it decided, as the specification says; it failed and changed
  nothing; or it failed although its insert took effect (the answer was lost), and the key is now
  claimed by a request that does not know it.
\<close>

lemma Claim_cases:
  assumes "Claim k h w = (r, w')"
  obtains (owned) "r = Ok (OutcomeOwned, claimed_record k h)" and "keys w k = None"
      and "keys w' = (keys w)(k \<mapsto> Claimed h)"
      and "\<exists>now. sql_claim now k h (db w) = Inr (Some k, db w')"
  | (existing) oc row where "r = Ok (oc, record_of row)" and "db w' = db w"
      and "find_row k_key k (idempotency_keys (db w)) = Some row"
      and "oc = (if k_request_hash row \<noteq> h then OutcomeConflict
                 else if k_state row = StateCompleted then OutcomeReplay else OutcomeInProgress)"
  | (failed) "\<not> is_ok r" and "db w' = db w"
  | (stranded) e where "r = Err e" and "keys w k = None"
      and "keys w' = (keys w)(k \<mapsto> Claimed h)"
      and "\<exists>now. sql_claim now k h (db w) = Inr (Some k, db w')"
proof -
  let ?s = "sql_claim (clock w) k h"
  obtain q w1 where q: "driver_call True ?s w = (q, w1)" by (cases "driver_call True ?s w")
  show thesis
  proof (cases "keys w k")
    case None
    from sql_claim_new [OF None, of "clock w" h] obtain d' where
      d': "?s (db w) = Inr (Some k, d')" "key_store_of d' = (keys w)(k \<mapsto> Claimed h)" by blast
    show thesis
    proof (cases q)
      case (Ok x)
      with q driver_call_Ok d' have "x = Some k" "db w1 = d'" by fastforce+
      with Ok q assms None d' show thesis
        by (intro owned) (auto simp: Claim_def query_row_def)
    next
      case (Err e)
      with driver_call_Err [of True ?s w e w1] q d' have "\<not> errors_is e ErrNoRows"
        by (auto simp: driver_error_not_no_rows ErrNoRows_def ctx_canceled_def)
      with Err q assms have r: "r = Err (Wrapf ''idempotency: claim: '' e [])" "w' = w1"
        by (auto simp: Claim_def query_row_def)
      from q have "db w1 = db w \<or> db w1 = d'" by (rule driver_call_cases) (auto simp: d')
      then show thesis using r None d' failed stranded by auto
    next
      case (Panic p)
      with q assms driver_call_Panic [of True ?s w p w1] show thesis
        by (intro failed) (auto simp: Claim_def query_row_def)
    qed
  next
    case (Some st)
    note old = sql_claim_old [OF Some, of "clock w" h]
    have db1: "db w1 = db w" using q by (rule driver_call_cases) (auto simp: old)
    show thesis
    proof (cases q)
      case (Ok x)
      with q driver_call_Ok old have "x = None" by fastforce
      obtain g w2 where g: "get_key k w1 = (g, w2)" by (cases "get_key k w1")
      from g show thesis
      proof (cases rule: get_key_cases)
        case (found row)
        with Ok q assms g db1 \<open>x = None\<close> show thesis
          by (intro existing [of _ row]) (auto simp: Claim_def query_row_def split: if_splits)
      next
        case failed': failed
        with Ok q assms g db1 \<open>x = None\<close> show thesis
          by (cases g) (auto simp: Claim_def query_row_def intro: failed)
      qed
    next
      case (Err e)
      with driver_call_Err [of True ?s w e w1] q old have "\<not> errors_is e ErrNoRows"
        by (auto simp: driver_error_not_no_rows ErrNoRows_def ctx_canceled_def)
      with Err q assms db1 show thesis by (intro failed) (auto simp: Claim_def query_row_def)
    next
      case (Panic p)
      with q assms db1 show thesis by (intro failed) (auto simp: Claim_def query_row_def)
    qed
  qed
qed

lemma db_ok_Claim [schema]:
  assumes "Claim k h w = (r, w')" and "db_ok (db w)"
  shows "db_ok (db w')"
  using assms(1)
  by (rule Claim_cases) (use assms(2) in \<open>auto dest: db_ok_sql_claim\<close>)

lemma Claim_other_tables [frame]:
  "Claim k h w = (r, w') \<Longrightarrow> other_tables (db w') = other_tables (db w)"
  by (erule Claim_cases) (auto dest: key_ops_other_tables)

text \<open>\<open>Release\<close> deletes an in-progress claim and no other row, or it fails without effect.\<close>

lemma Release_cases:
  assumes "Release k w = (r, w')"
  obtains (released) "sql_release k (db w) = Inr ((), db w')" and "r = Ok () \<or> (\<exists>e. r = Err e)"
  | (failed) "\<not> is_ok r" and "db w' = db w"
proof -
  obtain q w1 where q: "driver_call False (sql_release k) w = (q, w1)"
    by (cases "driver_call False (sql_release k) w")
  have w': "w' = w1" and r: "is_ok r = is_ok q" "(\<exists>p. r = Panic p) = (\<exists>p. q = Panic p)"
    using assms q by (auto simp: Release_def split: go.splits)
  from q show thesis
  proof (cases rule: driver_call_cases)
    case (ran a)
    then show thesis using assms q w' by (intro released) (auto simp: Release_def split: go.splits)
  next
    case kept
    then show thesis using w' r by (intro failed) auto
  qed
qed

lemma Release_env: "Release k w = (r, w') \<Longrightarrow> same_env w w'"
  by (auto simp: Release_def split: prod.splits go.splits dest: driver_call_env)

lemma db_ok_Release [schema]:
  assumes "Release k w = (r, w')" and "db_ok (db w)"
  shows "db_ok (db w')"
  using assms(1) by (rule Release_cases) (use assms(2) in \<open>auto dest: db_ok_sql_release\<close>)

lemma Release_other_tables [frame]:
  "Release k w = (r, w') \<Longrightarrow> other_tables (db w') = other_tables (db w)"
  by (erule Release_cases) (auto dest: key_ops_other_tables)

text \<open>\<open>Complete\<close> flips one claim; when there is none it changes nothing and reports an error.\<close>

lemma Complete_cases:
  assumes "Complete c w = (r, w')" and "db_ok (db w)"
  obtains (completed) "r = Ok ()" and "spec_complete c (keys w) = Some (keys w')"
      and "sql_complete c (db w) = Inr (1, db w')"
  | (failed) "\<not> is_ok r"
proof -
  obtain q w1 where q: "driver_call True (sql_complete c) w = (q, w1)"
    by (cases "driver_call True (sql_complete c) w")
  show thesis
  proof (cases "is_ok r")
    case True
    with assms(1) q have "q = Ok 1" "w1 = w'" "r = Ok ()"
      by (auto simp: Complete_def split: go.splits if_splits)
    with q driver_call_Ok have s: "sql_complete c (db w) = Inr (1, db w')" by auto
    from sql_complete_refines [OF assms(2) s] have "spec_complete c (keys w) = Some (keys w')"
      by (cases "spec_complete c (keys w)") auto
    with s \<open>r = Ok ()\<close> show thesis by (intro completed)
  next
    case False
    then show thesis by (rule failed)
  qed
qed

lemma Complete_env: "Complete c w = (r, w') \<Longrightarrow> same_env w w'"
  by (auto simp: Complete_def split: prod.splits go.splits if_splits dest: driver_call_env)

lemma Complete_effect:
  assumes "Complete c w = (r, w')"
  shows "db w' = db w \<or> (\<exists>n. sql_complete c (db w) = Inr (n, db w'))"
proof -
  obtain q w1 where q: "driver_call True (sql_complete c) w = (q, w1)"
    by (cases "driver_call True (sql_complete c) w")
  moreover have "w' = w1"
    using assms q by (auto simp: Complete_def split: go.splits if_splits)
  ultimately show ?thesis by (auto elim: driver_call_cases)
qed

lemma db_ok_Complete [schema]:
  "Complete c w = (r, w') \<Longrightarrow> db_ok (db w) \<Longrightarrow> db_ok (db w')"
  by (drule Complete_effect) (auto dest: db_ok_sql_complete)

lemma Complete_other_tables [frame]:
  "Complete c w = (r, w') \<Longrightarrow> other_tables (db w') = other_tables (db w)"
  by (drule Complete_effect) (auto dest: key_ops_other_tables)

section \<open>The contract of the key store\<close>

text \<open>
  What the middleware relies on.  A claim that reports a decision decided as the specification
  does; a claim that fails may still have taken the key; a release that reports success released.
\<close>

locale claim_store =
  fixes claim :: "string \<Rightarrow> string \<Rightarrow> world \<Rightarrow> (outcome \<times> key_record) go \<times> world"
    and release :: "string \<Rightarrow> world \<Rightarrow> unit go \<times> world"
    and view :: "world \<Rightarrow> key_store"
    and ok :: "world \<Rightarrow> bool"
  assumes claim_decides:
      "claim k h w = (Ok (oc, rec), w') \<Longrightarrow> ok w \<Longrightarrow> spec_claim k h (view w) = (oc, view w')"
    and claim_replays:
      "claim k h w = (Ok (OutcomeReplay, rec), w') \<Longrightarrow> ok w \<Longrightarrow>
         view w k = Some (Done h (rec_resource_id rec) (rec_status_code rec) (rec_response_body rec))"
    and claim_fails:
      "claim k h w = (q, w') \<Longrightarrow> \<not> is_ok q \<Longrightarrow> ok w \<Longrightarrow>
         view w' = view w \<or> (view w k = None \<and> view w' = (view w)(k \<mapsto> Claimed h))"
    and release_succeeds:
      "release k w = (Ok u, w') \<Longrightarrow> ok w \<Longrightarrow> view w' = spec_release k (view w)"
    and release_either:
      "release k w = (r, w') \<Longrightarrow> ok w \<Longrightarrow> view w' = view w \<or> view w' = spec_release k (view w)"
    and claim_keeps: "claim k h w = (q, w') \<Longrightarrow> ok w \<Longrightarrow> ok w'"
    and release_keeps: "release k w = (r, w') \<Longrightarrow> ok w \<Longrightarrow> ok w'"
begin

text \<open>An owner holds the key it claimed, and nobody held it before.\<close>

lemma owner_holds:
  assumes "claim k h w = (Ok (OutcomeOwned, rec), w')" and "ok w"
  shows "view w k = None \<and> view w' = (view w)(k \<mapsto> Claimed h)"
  using claim_decides [OF assms]
  by (auto simp: spec_claim_def split: option.splits key_state.splits if_splits)

text \<open>Any other decision leaves the store alone and implies the key was taken.\<close>

lemma loser_changes_nothing:
  assumes "claim k h w = (Ok (oc, rec), w')" and "ok w" and "oc \<noteq> OutcomeOwned"
  shows "view w' = view w \<and> view w k \<noteq> None"
  using claim_decides [OF assms(1,2)] assms(3)
  by (auto simp: spec_claim_def split: option.splits key_state.splits if_splits)

text \<open>Releasing is idempotent and cannot touch a completed key.\<close>

lemma release_keeps_done:
  assumes "release k w = (r, w')" and "ok w" and "view w k' = Some (Done h rid code body)"
  shows "view w' k' = Some (Done h rid code body)"
  using release_either [OF assms(1,2)] assms(3)
  by (auto simp: spec_release_def split: option.splits key_state.splits)

end

text \<open>Claim, on every branch and under every fault, against the specification.\<close>

lemma Claim_decides:
  assumes "Claim k h w = (Ok (oc, rec), w')" and "db_ok (db w)"
  shows "spec_claim k h (keys w) = (oc, keys w')"
  using assms(1)
proof (cases rule: Claim_cases)
  case owned
  then show ?thesis by (simp add: spec_claim_def)
next
  case (existing oc' row)
  then show ?thesis
    using db_ok_key_state [OF assms(2), of k row]
    by (auto simp: spec_claim_def key_store_of_def abs_row_def StateCompleted_def)
qed auto

lemma Claim_replays:
  assumes "Claim k h w = (Ok (OutcomeReplay, rec), w')"
  shows "keys w k = Some (Done h (rec_resource_id rec) (rec_status_code rec) (rec_response_body rec))"
  using assms
  by (rule Claim_cases)
     (auto simp: key_store_of_def abs_row_def StateCompleted_def record_of_def split: if_splits)

lemma Claim_fails:
  assumes "Claim k h w = (r, w')" and "\<not> is_ok r"
  shows "keys w' = keys w \<or> (keys w k = None \<and> keys w' = (keys w)(k \<mapsto> Claimed h))"
  using assms(1) by (rule Claim_cases) (use assms(2) in \<open>auto\<close>)

lemma Release_succeeds:
  assumes "Release k w = (Ok u, w')" and "db_ok (db w)"
  shows "keys w' = spec_release k (keys w)"
  using assms(1) by (rule Release_cases) (use assms(2) sql_release_refines in \<open>auto\<close>)

lemma Release_either:
  assumes "Release k w = (r, w')" and "db_ok (db w)"
  shows "keys w' = keys w \<or> keys w' = spec_release k (keys w)"
  using assms(1) by (rule Release_cases) (use assms(2) sql_release_refines in \<open>auto\<close>)

interpretation pg_keys: claim_store Claim Release keys "\<lambda>w. db_ok (db w)"
  by unfold_locales
     (blast intro: Claim_decides Claim_replays Release_succeeds db_ok_Claim db_ok_Release
       dest: Claim_fails Release_either)+

section \<open>What the store promises\<close>

text \<open>C14: \<open>Claim\<close> implements the abstract key store under every fault.  When it reports a decision,
  the decision and the new store are the specification's, and a replay carries exactly what
  \<open>Complete\<close> stored; when it reports an error the store is unchanged or the key, free before, is
  now claimed; and no other table changes.\<close>

theorem Claim_refines:
  assumes "db_ok (db w)"
  shows "case Claim k h w of
      (Ok (oc, rec), w') \<Rightarrow>
        spec_claim k h (keys w) = (oc, keys w') \<and> other_tables (db w') = other_tables (db w) \<and>
        (oc \<noteq> OutcomeReplay \<or> keys w k =
           Some (Done h (rec_resource_id rec) (rec_status_code rec) (rec_response_body rec)))
    | (_, w') \<Rightarrow>
        other_tables (db w') = other_tables (db w) \<and>
        (keys w' = keys w \<or> (keys w k = None \<and> keys w' = (keys w)(k \<mapsto> Claimed h)))"
proof -
  obtain r w' where c: "Claim k h w = (r, w')" by (cases "Claim k h w")
  note frame_c = Claim_other_tables [OF c]
  show ?thesis
  proof (cases r)
    case (Ok x)
    with c pg_keys.claim_decides [of k h w] pg_keys.claim_replays [of k h w] assms frame_c
    show ?thesis by (auto split: prod.splits)
  next
    case (Err e)
    with c pg_keys.claim_fails [OF c _ assms] frame_c show ?thesis by simp
  next
    case (Panic e)
    with c pg_keys.claim_fails [OF c _ assms] frame_c show ?thesis by simp
  qed
qed

theorem Claim_refines_witness:
  "spec_claim ''k1'' ''h'' (keys sample_world) =
     (OutcomeOwned, keys (snd (Claim ''k1'' ''h'' sample_world)))"
proof -
  have "fst (Claim ''k1'' ''h'' sample_world) = Ok (OutcomeOwned, claimed_record ''k1'' ''h'')"
    by code_simp
  with Claim_refines [of sample_world "''k1''" "''h''"] show ?thesis
    by (auto simp: sample_world_def db_ok_empty split: prod.splits)
qed

text \<open>C27: \<open>Release\<close> frees a claimed key and nothing else, and \<open>Complete\<close> finishes a claimed key and
  nothing else.  A completed key survives every \<open>Release\<close>; \<open>Complete\<close> succeeds only on a claimed
  key and then the key holds exactly the result given, with the hash it was claimed with; a key
  that is free or done makes it fail.\<close>

theorem Release_Complete_refine:
  assumes "db_ok (db w)"
  shows "(case Release k w of
      (Ok _, w') \<Rightarrow> keys w' = spec_release k (keys w)
    | (_, w') \<Rightarrow> keys w' = keys w \<or> keys w' = spec_release k (keys w)) \<and>
   (case Complete c w of
      (Ok _, w') \<Rightarrow> spec_complete c (keys w) = Some (keys w')
    | (_, w') \<Rightarrow> keys w' = keys w \<or> spec_complete c (keys w) = Some (keys w'))"
proof
  show "case Release k w of
      (Ok _, w') \<Rightarrow> keys w' = spec_release k (keys w)
    | (_, w') \<Rightarrow> keys w' = keys w \<or> keys w' = spec_release k (keys w)"
    using pg_keys.release_succeeds [of k w] pg_keys.release_either [of k w] assms
    by (auto split: prod.splits go.splits)
  obtain r w' where c: "Complete c w = (r, w')" by (cases "Complete c w")
  have either: "keys w' = keys w \<or> spec_complete c (keys w) = Some (keys w')"
    using Complete_effect [OF c]
  proof
    assume "\<exists>n. sql_complete c (db w) = Inr (n, db w')"
    then obtain n where "sql_complete c (db w) = Inr (n, db w')" ..
    from sql_complete_refines [OF assms this] show ?thesis
      by (cases "spec_complete c (keys w)") auto
  qed simp
  from c assms show "case Complete c w of
      (Ok _, w') \<Rightarrow> spec_complete c (keys w) = Some (keys w')
    | (_, w') \<Rightarrow> keys w' = keys w \<or> spec_complete c (keys w) = Some (keys w')"
    by (rule Complete_cases) (use c either in \<open>auto split: go.splits\<close>)
qed

definition sample_completion :: completion where
  "sample_completion = \<lparr>cp_key = ''k1'', cp_resource_type = ''order'', cp_resource_id = ''ord_1'',
     cp_status_code = 202, cp_response_body = ''{}''\<rparr>"

theorem Release_Complete_refine_witness:
  "spec_complete sample_completion (keys (snd (Claim ''k1'' ''h'' sample_world))) =
     Some (keys (snd (Complete sample_completion (snd (Claim ''k1'' ''h'' sample_world)))))"
proof -
  let ?w = "snd (Claim ''k1'' ''h'' sample_world)"
  have "db_ok (db ?w)"
    by (rule db_ok_Claim [of "''k1''" "''h''" sample_world "fst (Claim ''k1'' ''h'' sample_world)"])
       (simp_all add: sample_world_def db_ok_empty)
  moreover have "fst (Complete sample_completion ?w) = Ok ()"
    by code_simp
  ultimately show ?thesis
    using Release_Complete_refine [of ?w "''k1''" sample_completion]
    by (auto split: prod.splits)
qed

text \<open>C36: a lost answer strands the key.  When the connection breaks after Postgres has run the
  insert of \<open>Claim\<close>, \<open>Claim\<close> reports an error while the key stays claimed: every later request
  with the key and the same body is told it is still being processed, and every other body is a
  conflict, although no request is running.\<close>

theorem lost_claim_strands_key:
  assumes "keys w k = None" and "\<not> cancelled w" and "script w = [Lost m]"
  shows "\<exists>w'. Claim k h w = (Err (Wrapf ''idempotency: claim: '' (Driver m) []), w') \<and>
     keys w' = (keys w)(k \<mapsto> Claimed h) \<and>
     (\<forall>h'. \<exists>rec. Claim k h' w' =
        (Ok (if h' = h then OutcomeInProgress else OutcomeConflict, rec), w'))"
proof -
  obtain d' where d': "sql_claim (clock w) k h (db w) = Inr (Some k, d')"
      "d' = (db w)\<lparr>idempotency_keys := idempotency_keys (db w) @ [new_key_row (clock w) k h]\<rparr>"
      "key_store_of d' = (keys w)(k \<mapsto> Claimed h)"
    using sql_claim_new [OF assms(1)] by blast
  let ?w = "w\<lparr>script := [], db := d'\<rparr>"
  have none: "find_row k_key k (idempotency_keys (db w)) = None"
    using assms(1) by (simp add: key_store_of_def)
  have row: "find_row k_key k (idempotency_keys d') = Some (new_key_row (clock w) k h)"
    using none by (simp add: d'(2) find_row_append new_key_row_def)
  have "Claim k h w = (Err (Wrapf ''idempotency: claim: '' (Driver m) []), ?w)"
    using assms(2,3) d'(1)
    by (simp add: Claim_def query_row_def driver_call_def run_stmt_def ErrNoRows_def)
  moreover have "\<exists>rec. Claim k h' ?w =
      (Ok (if h' = h then OutcomeInProgress else OutcomeConflict, rec), ?w)" for h'
    using assms(2) row
    by (auto simp: Claim_def query_row_def driver_call_def run_stmt_def sql_claim_def get_key_def
        sql_get_key_def new_key_row_def StateCompleted_def)
  ultimately show ?thesis using d'(3) by auto
qed

theorem lost_claim_strands_key_witness:
  "\<exists>w'. Claim ''k1'' ''h'' (sample_world\<lparr>script := [Lost ''broken pipe'']\<rparr>) =
      (Err (Wrapf ''idempotency: claim: '' (Driver ''broken pipe'') []), w') \<and>
    (\<exists>rec. Claim ''k1'' ''h'' w' = (Ok (OutcomeInProgress, rec), w'))"
proof -
  let ?w = "sample_world\<lparr>script := [Lost ''broken pipe'']\<rparr>"
  have "keys ?w ''k1'' = None" "\<not> cancelled ?w" "script ?w = [Lost ''broken pipe'']"
    by (simp_all add: sample_world_def key_store_of_def empty_db_def)
  from lost_claim_strands_key [OF this, of "''h''"] show ?thesis
    by (elim exE conjE, drule_tac x = "''h''" in spec) auto
qed

end
