(* ===== verification/Order_Store.thy ===== *)
theory Order_Store
  imports Domain Idempotency Outbox
begin

text \<open>
  \<open>services/order/adapter/postgres/store.go\<close>: \<open>CreateOrder\<close> writes an order, its items, its events and
  the completion of its key in one transaction; \<open>GetOrder\<close> reads an order back.  The locale
  \<open>order_store\<close> is the port of \<open>services/order/app/ports.go\<close>, interpreted on the two.
\<close>

section \<open>CreateOrder\<close>

definition order_row_of :: "int \<Rightarrow> order \<Rightarrow> order_row" where
  "order_row_of now ord =
    \<lparr>or_id = o_id ord, or_customer_id = o_customer_id ord, or_status = status_text (o_status ord),
     or_total_amount = sint (o_total_amount ord), or_currency = o_currency ord,
     or_payment_method_id = o_payment_method_id ord, or_created_at = now, or_updated_at = now\<rparr>"

definition sql_insert_order :: "int \<Rightarrow> order \<Rightarrow> unit stmt" where
  "sql_insert_order now ord d =
    (if find_row or_id (o_id ord) (orders d) \<noteq> None
     then Inl (Driver ''duplicate key value violates unique constraint orders_pkey'')
     else if \<not> order_row_ok (order_row_of now ord)
     then Inl (Driver ''new row for relation orders violates check constraint'')
     else Inr ((), d\<lparr>orders := orders d @ [order_row_of now ord]\<rparr>))"

definition item_row_of :: "string \<Rightarrow> item \<Rightarrow> item_row" where
  "item_row_of oid it =
    \<lparr>it_order_id = oid, it_sku = sku it, it_quantity = sint (quantity it),
     it_unit_price = sint (unit_price it)\<rparr>"

definition sql_insert_item :: "string \<Rightarrow> item \<Rightarrow> unit stmt" where
  "sql_insert_item oid it d =
    (if \<not> fits_int4 (sint (quantity it)) then Inl (Driver ''quantity is out of range for int4'')
     else if \<not> item_row_ok (item_row_of oid it)
     then Inl (Driver ''new row for relation order_items violates check constraint'')
     else if find_row item_key (oid, sku it) (order_items d) \<noteq> None
     then Inl (Driver ''duplicate key value violates unique constraint order_items_pkey'')
     else if find_row or_id oid (orders d) = None
     then Inl (Driver ''insert on table order_items violates foreign key constraint'')
     else Inr ((), d\<lparr>order_items := order_items d @ [item_row_of oid it]\<rparr>))"

fun insert_items :: "string \<Rightarrow> item list \<Rightarrow> world \<Rightarrow> unit go \<times> world" where
  "insert_items oid [] w = (Ok (), w)"
| "insert_items oid (it # items) w =
    (case driver_call True (sql_insert_item oid it) w of
       (Err e, w1) \<Rightarrow> (Err (Wrapf (''order: insert item '' @ sku it @ '': '') e []), w1)
     | (Panic p, w1) \<Rightarrow> (Panic p, w1)
     | (Ok _, w1) \<Rightarrow> insert_items oid items w1)"

definition create_tx ::
  "platform \<Rightarrow> order \<Rightarrow> event list \<Rightarrow> completion option \<Rightarrow> world \<Rightarrow> unit go \<times> world" where
  "create_tx pf ord events completion w =
    (case driver_call True (sql_insert_order (clock w) ord) w of
       (Err e, w1) \<Rightarrow> (Err (Wrapf ''order: insert order: '' e []), w1)
     | (Panic p, w1) \<Rightarrow> (Panic p, w1)
     | (Ok _, w1) \<Rightarrow>
        (case insert_items (o_id ord) (o_items ord) w1 of
           (Ok _, w2) \<Rightarrow>
             (case Append pf events w2 of
                (Ok _, w3) \<Rightarrow>
                  (case completion of
                     None \<Rightarrow> (Ok (), w3)
                   | Some c \<Rightarrow> Complete c w3)
              | (r, w3) \<Rightarrow> (r, w3))
         | (r, w2) \<Rightarrow> (r, w2)))"

definition Store_CreateOrder ::
  "platform \<Rightarrow> order \<Rightarrow> event list \<Rightarrow> completion option \<Rightarrow> world \<Rightarrow> unit go \<times> world" where
  "Store_CreateOrder pf ord events completion = with_tx (create_tx pf ord events completion)"

section \<open>GetOrder\<close>

text \<open>
  The \<open>CHECK\<close> constraint keeps the status column within the ten statuses; \<open>order_of_row\<close> is
  \<open>None\<close> on any other text.
\<close>

definition order_of_row :: "order_row \<Rightarrow> order option" where
  "order_of_row r =
    (case parse_status (or_status r) of
       None \<Rightarrow> None
     | Some st \<Rightarrow> Some
         \<lparr>o_id = or_id r, o_customer_id = or_customer_id r, o_status = st,
          o_total_amount = word_of_int (or_total_amount r), o_currency = or_currency r,
          o_payment_method_id = or_payment_method_id r, o_items = [],
          o_created_at = or_created_at r, o_updated_at = or_updated_at r\<rparr>)"

definition sql_select_order :: "string \<Rightarrow> order option stmt" where
  "sql_select_order oid d =
    (case find_row or_id oid (orders d) of
       None \<Rightarrow> Inr (None, d)
     | Some r \<Rightarrow>
        (case order_of_row r of
           None \<Rightarrow> Inl (Driver ''unknown order status'')
         | Some ord \<Rightarrow> Inr (Some ord, d)))"

definition item_of_row :: "item_row \<Rightarrow> item" where
  "item_of_row r =
    \<lparr>sku = it_sku r, quantity = word_of_int (it_quantity r), unit_price = word_of_int (it_unit_price r)\<rparr>"

definition sql_select_items :: "platform \<Rightarrow> string \<Rightarrow> item list stmt" where
  "sql_select_items pf oid d =
    Inr (map item_of_row
           (sort_by (\<lambda>a b. pf_collate pf (it_sku a) (it_sku b))
             (filter (\<lambda>r. it_order_id r = oid) (order_items d))), d)"

definition Store_GetOrder :: "platform \<Rightarrow> string \<Rightarrow> world \<Rightarrow> order go \<times> world" where
  "Store_GetOrder pf oid w =
    (case query_row True (sql_select_order oid) w of
       (Panic p, w1) \<Rightarrow> (Panic p, w1)
     | (Err e, w1) \<Rightarrow>
        (if errors_is e ErrNoRows then (Err ErrOrderNotFound, w1)
         else (Err (Wrapf (''order: select order '' @ oid @ '': '') e []), w1))
     | (Ok ord, w1) \<Rightarrow>
        (case driver_call True (sql_select_items pf oid) w1 of
           (Panic p, w2) \<Rightarrow> (Panic p, w2)
         | (Err e, w2) \<Rightarrow> (Err (Wrapf (''order: select items '' @ oid @ '': '') e []), w2)
         | (Ok items, w2) \<Rightarrow> (Ok (ord\<lparr>o_items := items\<rparr>), w2)))"

section \<open>What the transaction writes\<close>

text \<open>
  \<open>stored\<close> is the specification of a successful \<open>CreateOrder\<close>: the order, its items, its events and
  the completion of its key are all there, and nothing else changed.
\<close>

definition completed_keys :: "completion option \<Rightarrow> key_row list \<Rightarrow> key_row list" where
  "completed_keys c rows =
    (case c of None \<Rightarrow> rows
     | Some cp \<Rightarrow> update_rows (claimed_by (cp_key cp)) (complete_row cp) rows)"

definition stored ::
  "platform \<Rightarrow> int \<Rightarrow> order \<Rightarrow> event list \<Rightarrow> completion option \<Rightarrow> database \<Rightarrow> database \<Rightarrow> bool" where
  "stored pf now ord events c d d' \<longleftrightarrow>
    (\<exists>payloads.
       list_all2 (\<lambda>e p. pf_jsonb pf (e_payload e) = Some p) events payloads \<and>
       d' = \<lparr>orders = orders d @ [order_row_of now ord],
             order_items = order_items d @ map (item_row_of (o_id ord)) (o_items ord),
             outbox_events = outbox_events d @ map2 (new_event_row now) events payloads,
             idempotency_keys = completed_keys c (idempotency_keys d)\<rparr>) \<and>
    (\<forall>cp. c = Some cp \<longrightarrow> spec_complete cp (key_store_of d) \<noteq> None)"

lemma db_ok_insert_order [schema]:
  "sql_insert_order now ord d = Inr (u, d') \<Longrightarrow> db_ok d \<Longrightarrow> db_ok d'"
  by (auto simp: sql_insert_order_def db_ok_def order_row_of_def find_row_None_iff list_all_iff
      split: if_splits)

lemma db_ok_insert_item [schema]:
  "sql_insert_item oid it d = Inr (u, d') \<Longrightarrow> db_ok d \<Longrightarrow> db_ok d'"
  by (auto simp: sql_insert_item_def db_ok_def item_row_of_def find_row_None_iff list_all_iff
      split: if_splits dest!: find_row_SomeD)

lemma insert_items_env: "insert_items oid items w = (r, w') \<Longrightarrow> same_env w w'"
  by (induction oid items w rule: insert_items.induct)
     (auto split: prod.splits go.splits intro: same_env_trans dest!: driver_call_env)

lemma insert_items_Ok:
  "insert_items oid items w = (Ok u, w') \<Longrightarrow>
     db w' = (db w)\<lparr>order_items := order_items (db w) @ map (item_row_of oid) items\<rparr>"
proof (induction items arbitrary: w)
  case (Cons it items)
  then obtain w1 where w1: "driver_call True (sql_insert_item oid it) w = (Ok (), w1)"
      "insert_items oid items w1 = (Ok u, w')"
    by (auto split: prod.splits go.splits)
  have "db w1 = (db w)\<lparr>order_items := order_items (db w) @ [item_row_of oid it]\<rparr>"
    using driver_call_Ok [OF w1(1)] by (auto simp: sql_insert_item_def split: if_splits)
  with Cons.IH [OF w1(2)] show ?case by simp
qed simp

lemma insert_items_db_ok [schema]:
  "insert_items oid items w = (Ok u, w') \<Longrightarrow> db_ok (db w) \<Longrightarrow> db_ok (db w')"
  by (induction oid items w rule: insert_items.induct)
     (auto split: prod.splits go.splits dest!: driver_call_Ok dest: db_ok_insert_item)

lemma Append_Ok:
  assumes "Append pf es w = (Ok u, w')"
  obtains payloads where "list_all2 (\<lambda>e p. pf_jsonb pf (e_payload e) = Some p) es payloads"
    and "db w' = (db w)\<lparr>outbox_events := outbox_events (db w) @
           map2 (new_event_row (clock w)) es payloads\<rparr>"
    and "db_ok (db w) \<Longrightarrow> db_ok (db w')"
  using Append_rows [OF assms] by auto

lemma create_tx_Ok:
  assumes "create_tx pf ord events c w = (Ok u, w')" and "db_ok (db w)"
  shows "stored pf (clock w) ord events c (db w) (db w') \<and> db_ok (db w')"
proof -
  obtain w1 where w1: "driver_call True (sql_insert_order (clock w) ord) w = (Ok (), w1)"
    using assms(1) by (auto simp: create_tx_def split: prod.splits go.splits)
  obtain w2 where w2: "insert_items (o_id ord) (o_items ord) w1 = (Ok (), w2)"
    using assms(1) w1 by (auto simp: create_tx_def split: prod.splits go.splits)
  obtain w3 where w3: "Append pf events w2 = (Ok (), w3)"
    using assms(1) w1 w2 by (auto simp: create_tx_def split: prod.splits go.splits)
  have env: "clock w2 = clock w"
    using driver_call_env [OF w1] insert_items_env [OF w2] by (simp add: same_env_def)
  note s1 = driver_call_Ok [OF w1] and s2 = insert_items_Ok [OF w2]
  have d1: "db w1 = (db w)\<lparr>orders := orders (db w) @ [order_row_of (clock w) ord]\<rparr>"
    using s1 by (auto simp: sql_insert_order_def split: if_splits)
  have ok2: "db_ok (db w2)"
    using insert_items_db_ok [OF w2 db_ok_insert_order [OF s1 assms(2)]] .
  from w3 obtain ps where ps: "list_all2 (\<lambda>e p. pf_jsonb pf (e_payload e) = Some p) events ps"
      "db w3 = (db w2)\<lparr>outbox_events := outbox_events (db w2) @
         map2 (new_event_row (clock w2)) events ps\<rparr>"
      "db_ok (db w2) \<Longrightarrow> db_ok (db w3)"
    by (rule Append_Ok) blast
  have keys3: "idempotency_keys (db w3) = idempotency_keys (db w)"
    by (simp add: ps(2) s2 d1)
  have base: "db w3 = \<lparr>orders = orders (db w) @ [order_row_of (clock w) ord],
      order_items = order_items (db w) @ map (item_row_of (o_id ord)) (o_items ord),
      outbox_events = outbox_events (db w) @ map2 (new_event_row (clock w)) events ps,
      idempotency_keys = idempotency_keys (db w)\<rparr>"
    by (simp add: ps(2) s2 d1 env)
  show ?thesis
  proof (cases c)
    case None
    with assms(1) w1 w2 w3 have "w' = w3" by (simp add: create_tx_def)
    with None base ps(1,3) ok2 show ?thesis by (auto simp: stored_def completed_keys_def)
  next
    case (Some cp)
    with assms(1) w1 w2 w3 have comp: "Complete cp w3 = (Ok u, w')" by (simp add: create_tx_def)
    from comp ps(3) [OF ok2] show ?thesis
    proof (cases rule: Complete_cases)
      case completed
      have "key_store_of (db w3) = key_store_of (db w)" using keys3 by (rule key_store_of_cong)
      moreover have "db w' = (db w3)\<lparr>idempotency_keys := completed_keys c (idempotency_keys (db w3))\<rparr>"
        using completed(3) Some by (auto simp: sql_complete_def completed_keys_def split: if_splits)
      ultimately show ?thesis
        using Some base ps(1) completed(2) db_ok_Complete [OF comp ps(3) [OF ok2]]
        by (auto simp: stored_def)
    qed simp
  qed
qed

section \<open>The port\<close>

text \<open>
  What the use cases rely on: \<open>create\<close> is atomic, and \<open>get\<close> changes nothing and finds exactly the
  orders there are, with \<open>ErrOrderNotFound\<close> for the others.
\<close>

locale order_store =
  fixes pf :: platform
    and create :: "order \<Rightarrow> event list \<Rightarrow> completion option \<Rightarrow> world \<Rightarrow> unit go \<times> world"
    and get :: "string \<Rightarrow> world \<Rightarrow> order go \<times> world"
  assumes create_atomic:
      "create ord events c w = (r, w') \<Longrightarrow> db_ok (db w) \<Longrightarrow>
         (db w' = db w \<and> \<not> is_ok r) \<or> stored pf (clock w) ord events c (db w) (db w')"
    and create_keeps: "create ord events c w = (r, w') \<Longrightarrow> db_ok (db w) \<Longrightarrow> db_ok (db w')"
    and create_env: "create ord events c w = (r, w') \<Longrightarrow> same_env w w'"
    and get_reads: "get oid w = (q, w') \<Longrightarrow> db w' = db w"
    and get_finds:
      "get oid w = (Ok ord, w') \<Longrightarrow> o_id ord = oid \<and> oid \<in> or_id ` set (orders (db w))"
    and get_not_found:
      "get oid w = (Err e, w') \<Longrightarrow> errors_is e ErrOrderNotFound \<Longrightarrow> oid \<notin> or_id ` set (orders (db w))"

lemma create_tx_env: "create_tx pf ord events c w = (r, w') \<Longrightarrow> same_env w w'"
  by (auto simp: create_tx_def split: prod.splits go.splits option.splits
      dest!: driver_call_env insert_items_env Append_env Complete_env
      intro: same_env_trans)

lemma Store_CreateOrder_atomic:
  assumes "Store_CreateOrder pf ord events c w = (r, w')" and "db_ok (db w)"
  shows "(db w' = db w \<and> \<not> is_ok r) \<or> stored pf (clock w) ord events c (db w) (db w')"
    and "db_ok (db w')"
proof -
  have tx: "with_tx (create_tx pf ord events c) w = (r, w')"
    using assms(1) by (simp add: Store_CreateOrder_def)
  from tx have "((db w' = db w \<and> \<not> is_ok r) \<or>
      stored pf (clock w) ord events c (db w) (db w')) \<and> db_ok (db w')"
  proof (cases rule: with_tx_cases)
    case (committed w0 w1)
    have "clock w0 = clock w" using committed(2) by (simp add: same_env_def)
    with create_tx_Ok [OF committed(3)] committed(1,4) assms(2) show ?thesis by simp
  qed (use assms(2) in auto)
  then show "(db w' = db w \<and> \<not> is_ok r) \<or> stored pf (clock w) ord events c (db w) (db w')"
    and "db_ok (db w')" by simp_all
qed

lemma Store_CreateOrder_env:
  assumes "Store_CreateOrder pf ord events c w = (r, w')"
  shows "same_env w w'"
proof -
  have tx: "with_tx (create_tx pf ord events c) w = (r, w')"
    using assms by (simp add: Store_CreateOrder_def)
  from tx show ?thesis
    by (cases rule: with_tx_cases) (auto intro: same_env_trans dest!: create_tx_env)
qed

lemma query_row_db:
  assumes "query_row c s w = (r, w')" and "\<And>d a d'. s d = Inr (a, d') \<Longrightarrow> d' = d"
  shows "db w' = db w"
proof -
  obtain q w1 where q: "driver_call c s w = (q, w1)" by (cases "driver_call c s w")
  have "w' = w1" using assms(1) q by (auto simp: query_row_def split: go.splits option.splits)
  with q show ?thesis using assms(2) by (auto elim!: driver_call_cases)
qed

lemma sql_select_order_reads: "sql_select_order oid d = Inr (a, d') \<Longrightarrow> d' = d"
  by (auto simp: sql_select_order_def split: option.splits)

lemma Store_GetOrder_reads:
  assumes "Store_GetOrder pf oid w = (q, w')"
  shows "db w' = db w"
proof -
  obtain a w1 where a: "query_row True (sql_select_order oid) w = (a, w1)"
    by (cases "query_row True (sql_select_order oid) w")
  have 1: "db w1 = db w" using query_row_db [OF a] sql_select_order_reads by blast
  obtain b w2 where b: "driver_call True (sql_select_items pf oid) w1 = (b, w2)"
    by (cases "driver_call True (sql_select_items pf oid) w1")
  have "db w2 = db w1" using b by (rule driver_call_cases) (auto simp: sql_select_items_def)
  with assms a b 1 show ?thesis
    by (auto simp: Store_GetOrder_def split: go.splits if_splits)
qed

lemma order_of_row_id: "order_of_row r = Some ord \<Longrightarrow> o_id ord = or_id r"
  by (auto simp: order_of_row_def split: option.splits)

lemma Store_GetOrder_finds:
  assumes "Store_GetOrder pf oid w = (Ok ord, w')"
  shows "o_id ord = oid \<and> oid \<in> or_id ` set (orders (db w))"
proof -
  obtain o1 w1 items where o1: "query_row True (sql_select_order oid) w = (Ok o1, w1)"
      "ord = o1\<lparr>o_items := items\<rparr>"
    using assms by (auto simp: Store_GetOrder_def split: prod.splits go.splits if_splits)
  from query_row_Ok [OF o1(1)] o1(2) show ?thesis
    by (auto simp: sql_select_order_def split: option.splits
        dest!: find_row_SomeD order_of_row_id)
qed

lemma not_found_errors:
  "\<not> errors_is (Driver m) ErrOrderNotFound" "\<not> errors_is ctx_canceled ErrOrderNotFound"
  "\<not> errors_is ErrNoRows ErrOrderNotFound"
  by (simp_all add: ErrOrderNotFound_def ctx_canceled_def ErrNoRows_def)

lemma query_row_Err:
  "query_row c s w = (Err e, w') \<Longrightarrow>
     (e = ErrNoRows \<and> s (db w) = Inr (None, db w')) \<or> e = ctx_canceled \<or> (\<exists>m. e = Driver m) \<or>
     s (db w) = Inl e"
  by (auto simp: query_row_def split: prod.splits go.splits option.splits
      dest: driver_call_Ok driver_call_Err)

lemma wrapped_not_found:
  "errors_is (Wrapf p e s) ErrOrderNotFound \<longleftrightarrow> errors_is e ErrOrderNotFound"
  by (simp add: ErrOrderNotFound_def)

lemma Store_GetOrder_not_found:
  assumes "Store_GetOrder pf oid w = (Err e, w')" and "errors_is e ErrOrderNotFound"
  shows "oid \<notin> or_id ` set (orders (db w))"
proof -
  obtain a w1 where a: "query_row True (sql_select_order oid) w = (a, w1)"
    by (cases "query_row True (sql_select_order oid) w")
  show ?thesis
  proof (cases a)
    case (Ok ord)
    obtain b w2 where b: "driver_call True (sql_select_items pf oid) w1 = (b, w2)"
      by (cases "driver_call True (sql_select_items pf oid) w1")
    from assms a b Ok obtain e' where "b = Err e'" "errors_is e' ErrOrderNotFound"
      by (cases b) (auto simp: Store_GetOrder_def ErrOrderNotFound_def)
    with driver_call_Err [of True "sql_select_items pf oid" w1 e' w2] b not_found_errors
    show ?thesis by (auto simp: sql_select_items_def)
  next
    case (Err e')
    from query_row_Err [of True "sql_select_order oid" w e' w1] a Err
    have "(e' = ErrNoRows \<and> find_row or_id oid (orders (db w)) = None) \<or> e' = ctx_canceled \<or>
        (\<exists>m. e' = Driver m)"
      by (auto simp: sql_select_order_def split: option.splits)
    with assms a Err show ?thesis
      by (auto simp: Store_GetOrder_def ErrOrderNotFound_def ErrNoRows_def ctx_canceled_def
          find_row_None_iff split: if_splits)
  next
    case (Panic p)
    with assms(1) a show ?thesis by (simp add: Store_GetOrder_def)
  qed
qed

interpretation pg_orders: order_store pf "Store_CreateOrder pf" "Store_GetOrder pf" for pf
  by unfold_locales
     (auto dest: Store_CreateOrder_atomic Store_CreateOrder_env Store_GetOrder_reads
       Store_GetOrder_finds Store_GetOrder_not_found)

text \<open>Without faults, a valid order is stored.\<close>

lemma insert_items_calm:
  assumes "calm w" and "list_all (\<lambda>it. item_row_ok (item_row_of oid it)) items"
    and "distinct (map sku items)" and "oid \<in> or_id ` set (orders (db w))"
    and "\<And>it. it \<in> set items \<Longrightarrow> (oid, sku it) \<notin> item_key ` set (order_items (db w))"
  shows "insert_items oid items w = (Ok (), w\<lparr>db := (db w)\<lparr>order_items :=
     order_items (db w) @ map (item_row_of oid) items\<rparr>\<rparr>)"
  using assms
proof (induction items arbitrary: w)
  case (Cons it items)
  let ?w = "w\<lparr>db := (db w)\<lparr>order_items := order_items (db w) @ [item_row_of oid it]\<rparr>\<rparr>"
  have "find_row item_key (oid, sku it) (order_items (db w)) = None"
    using Cons.prems(5) by (simp add: find_row_None_iff)
  moreover have "find_row or_id oid (orders (db w)) \<noteq> None"
    using Cons.prems(4) by (simp add: find_row_None_iff)
  moreover have "item_row_ok (item_row_of oid it)" "fits_int4 (sint (quantity it))"
    using Cons.prems(2) by (auto simp: item_row_ok_def item_row_of_def)
  ultimately have "driver_call True (sql_insert_item oid it) w = (Ok (), ?w)"
    using Cons.prems(1) by (simp add: driver_call_calm run_stmt_def sql_insert_item_def)
  moreover have "insert_items oid items ?w = (Ok (), ?w\<lparr>db := (db ?w)\<lparr>order_items :=
     order_items (db ?w) @ map (item_row_of oid) items\<rparr>\<rparr>)"
    using Cons.prems
    by (intro Cons.IH) (auto simp: calm_def item_row_of_def image_iff)
  ultimately show ?case by simp
qed simp

lemma Complete_calm:
  assumes "calm w" and "db_ok (db w)" and "fits_int4 (cp_status_code cp)"
    and "keys w (cp_key cp) = Some (Claimed h)"
  shows "\<exists>d. Complete cp w = (Ok (), w\<lparr>db := d\<rparr>)"
proof -
  let ?d = "(db w)\<lparr>idempotency_keys :=
      update_rows (claimed_by (cp_key cp)) (complete_row cp) (idempotency_keys (db w))\<rparr>"
  have s: "sql_complete cp (db w) =
      Inr (length (filter (claimed_by (cp_key cp)) (idempotency_keys (db w))), ?d)"
    using assms(3) by (simp add: sql_complete_def)
  with sql_complete_refines [OF assms(2) s] assms(1,4) show ?thesis
    by (auto simp: Complete_def driver_call_calm run_stmt_def spec_complete_def)
qed

lemma Store_CreateOrder_calm:
  assumes "calm w" and "db_ok (db w)" and "o_id ord \<notin> or_id ` set (orders (db w))"
    and "order_row_ok (order_row_of (clock w) ord)"
    and "list_all (\<lambda>it. item_row_ok (item_row_of (o_id ord) it)) (o_items ord)"
    and "distinct (map sku (o_items ord))"
    and "pf_jsonb pf (e_payload e) \<noteq> None" and "e_id e \<notin> ev_id ` set (outbox_events (db w))"
    and "fits_int4 (cp_status_code cp)" and "keys w (cp_key cp) = Some (Claimed h)"
  shows "\<exists>d. Store_CreateOrder pf ord [e] (Some cp) w = (Ok (), w\<lparr>db := d\<rparr>)"
proof -
  obtain p where p: "pf_jsonb pf (e_payload e) = Some p" using assms(7) by auto
  let ?w1 = "w\<lparr>db := (db w)\<lparr>orders := orders (db w) @ [order_row_of (clock w) ord]\<rparr>\<rparr>"
  let ?w2 = "?w1\<lparr>db := (db ?w1)\<lparr>order_items :=
      order_items (db ?w1) @ map (item_row_of (o_id ord)) (o_items ord)\<rparr>\<rparr>"
  let ?w3 = "?w2\<lparr>db := (db ?w2)\<lparr>outbox_events :=
      outbox_events (db ?w2) @ [new_event_row (clock w) e p]\<rparr>\<rparr>"
  have ins: "sql_insert_order (clock w) ord (db w) = Inr ((), db ?w1)"
    using assms(3,4) by (simp add: sql_insert_order_def find_row_None_iff)
  then have 1: "driver_call True (sql_insert_order (clock w) ord) w = (Ok (), ?w1)"
    using assms(1) by (simp add: driver_call_calm run_stmt_def)
  have none: "(o_id ord, s) \<notin> item_key ` set (order_items (db w))" for s
    using assms(2,3) unfolding db_ok_def list_all_iff set_map by auto
  have 2: "insert_items (o_id ord) (o_items ord) ?w1 = (Ok (), ?w2)"
    using assms(1,5,6) none
    by (intro insert_items_calm) (auto simp: calm_def order_row_of_def)
  have ok2: "db_ok (db ?w2)"
    using insert_items_db_ok [OF 2] db_ok_insert_order [OF ins assms(2)] by simp
  have e: "sql_insert_event pf (clock w) e (db ?w2) = Inr ((), db ?w3)"
    using p assms(8) by (simp add: sql_insert_event_def find_row_None_iff)
  then have 3: "Append pf [e] ?w2 = (Ok (), ?w3)"
    using assms(1) by (simp add: driver_call_def run_stmt_def calm_def)
  have ok3: "db_ok (db ?w3)" using db_ok_insert_event [OF e ok2] .
  have "keys ?w3 = keys w" by (rule key_store_of_cong) simp
  then obtain d where 4: "Complete cp ?w3 = (Ok (), ?w3\<lparr>db := d\<rparr>)"
    using Complete_calm [of ?w3, OF _ ok3 assms(9)] assms(1,10) by (auto simp: calm_def)
  have tx: "create_tx pf ord [e] (Some cp) w = (Ok (), w\<lparr>db := d\<rparr>)"
    using 1 2 3 4 by (simp add: create_tx_def del: Append.simps)
  have "calm (w\<lparr>db := d\<rparr>)" using assms(1) by (simp add: calm_def)
  with with_tx_calm [of w "create_tx pf ord [e] (Some cp)", OF assms(1) tx] show ?thesis
    by (auto simp: Store_CreateOrder_def)
qed

text \<open>The key a stored order completes.\<close>

lemma stored_keys:
  assumes "stored pf now ord events (Some cp) d d'" and "db_ok d" and "fits_int4 (cp_status_code cp)"
  shows "spec_complete cp (key_store_of d) = Some (key_store_of d')"
proof -
  let ?d = "d\<lparr>idempotency_keys :=
      update_rows (claimed_by (cp_key cp)) (complete_row cp) (idempotency_keys d)\<rparr>"
  have "sql_complete cp d = Inr (length (filter (claimed_by (cp_key cp)) (idempotency_keys d)), ?d)"
    using assms(3) by (simp add: sql_complete_def)
  from sql_complete_refines [OF assms(2) this] assms(1) obtain m where
    "spec_complete cp (key_store_of d) = Some m" "key_store_of ?d = m"
    by (auto simp: stored_def)
  moreover have "key_store_of d' = key_store_of ?d"
    using assms(1) by (intro key_store_of_cong) (auto simp: stored_def completed_keys_def)
  ultimately show ?thesis by simp
qed

section \<open>What the store promises\<close>

text \<open>C12: \<open>CreateOrder\<close> writes everything or nothing.  Under every fault, either the database is exactly
  as before and the caller does not hear of success, or the order, all its items, all its events
  and the completion of its key are there together, the key had been claimed, and no other row of
  any table changed; the constraints of the schema hold in both cases.\<close>

theorem CreateOrder_all_or_nothing:
  assumes "db_ok (db w)"
  shows "case Store_CreateOrder pf ord events c w of (r, w') \<Rightarrow>
    db_ok (db w') \<and>
    ((db w' = db w \<and> \<not> is_ok r) \<or> stored pf (clock w) ord events c (db w) (db w'))"
  using Store_CreateOrder_atomic [of pf ord events c w] assms by (auto split: prod.splits)

definition stocked_order :: order where
  "stocked_order = sample_order\<lparr>o_total_amount := 435000, o_items :=
     [\<lparr>sku = ''xbox-series-x'', quantity = 1, unit_price = 140000\<rparr>,
      \<lparr>sku = ''playstation-5'', quantity = 2, unit_price = 150000\<rparr>]\<rparr>"

lemma sample_db_ok: "db_ok (db sample_world)"
  by (simp add: sample_world_def db_ok_empty)

theorem CreateOrder_all_or_nothing_witness:
  "db (snd (Store_CreateOrder sample_platform stocked_order [sample_event] None
     (sample_world\<lparr>script := [Fine, Fine, Boom ''driver'']\<rparr>))) = empty_db"
proof -
  let ?w = "sample_world\<lparr>script := [Fine, Fine, Boom ''driver'']\<rparr>"
  obtain r w' where run: "Store_CreateOrder sample_platform stocked_order [sample_event] None ?w = (r, w')"
    by (cases "Store_CreateOrder sample_platform stocked_order [sample_event] None ?w")
  have none: "orders (db (snd (Store_CreateOrder sample_platform stocked_order [sample_event] None ?w))) = []"
    by code_simp
  from CreateOrder_all_or_nothing [of ?w sample_platform stocked_order "[sample_event]" None] run
    none sample_db_ok
  show ?thesis by (auto simp: stored_def) (simp add: sample_world_def)
qed

text \<open>What is read back: the items in the database's order.\<close>

definition as_read :: "platform \<Rightarrow> int \<Rightarrow> order \<Rightarrow> order" where
  "as_read pf now ord =
    ord\<lparr>o_items := sort_by (\<lambda>a b. pf_collate pf (sku a) (sku b)) (o_items ord),
        o_created_at := now, o_updated_at := now\<rparr>"

lemma item_of_row_of [simp]: "item_of_row (item_row_of oid it) = it"
  by (simp add: item_of_row_def item_row_of_def)

lemma item_of_row_sku [simp]: "sku (item_of_row r) = it_sku r"
  by (simp add: item_of_row_def)

lemma order_of_row_of:
  "order_of_row (order_row_of now ord) = Some (ord\<lparr>o_items := [], o_created_at := now, o_updated_at := now\<rparr>)"
  by (simp add: order_of_row_def order_row_of_def)

lemma Store_GetOrder_calm:
  assumes "calm w" and "find_row or_id oid (orders (db w)) = Some r" and "order_of_row r = Some ord"
  shows "Store_GetOrder pf oid w =
    (Ok (ord\<lparr>o_items := sort_by (\<lambda>a b. pf_collate pf (sku a) (sku b))
                 (map item_of_row (filter (\<lambda>r. it_order_id r = oid) (order_items (db w))))\<rparr>), w)"
  using assms
  by (simp add: Store_GetOrder_def query_row_def driver_call_calm run_stmt_def sql_select_order_def
      sql_select_items_def
      map_sort_by [of "\<lambda>a b. pf_collate pf (sku a) (sku b)" item_of_row
                     "\<lambda>a b. pf_collate pf (it_sku a) (it_sku b)"])

lemma stored_fresh:
  assumes "stored pf now ord events c d d'" and "db_ok d'"
  shows "o_id ord \<notin> or_id ` set (orders d)"
  using assms by (auto simp: stored_def db_ok_def order_row_of_def)

lemma stored_order_reads:
  assumes "stored pf now ord events c d d'" and "db_ok d" and "db_ok d'"
  shows "find_row or_id (o_id ord) (orders d') = Some (order_row_of now ord)"
    and "filter (\<lambda>r. it_order_id r = o_id ord) (order_items d') =
           map (item_row_of (o_id ord)) (o_items ord)"
proof -
  have orders': "orders d' = orders d @ [order_row_of now ord]"
    and items': "order_items d' = order_items d @ map (item_row_of (o_id ord)) (o_items ord)"
    using assms(1) by (auto simp: stored_def)
  note fresh = stored_fresh [OF assms(1,3)]
  then show "find_row or_id (o_id ord) (orders d') = Some (order_row_of now ord)"
    by (simp add: orders' find_row_append find_row_None_iff [THEN iffD2] order_row_of_def)
  have "it_order_id r \<noteq> o_id ord" if "r \<in> set (order_items d)" for r
    using that fresh assms(2) unfolding db_ok_def list_all_iff by (metis set_map)
  then have "filter (\<lambda>r. it_order_id r = o_id ord) (order_items d) = []"
    by (simp add: filter_empty_conv)
  moreover have "filter (\<lambda>r. it_order_id r = o_id ord) (map (item_row_of (o_id ord)) items) =
      map (item_row_of (o_id ord)) items" for items
    by (simp add: filter_map item_row_of_def comp_def)
  ultimately show "filter (\<lambda>r. it_order_id r = o_id ord) (order_items d') =
           map (item_row_of (o_id ord)) (o_items ord)"
    by (simp add: items')
qed

text \<open>C31: an order reads back as it was written.  After a successful \<open>CreateOrder\<close>, \<open>GetOrder\<close> of its
  id returns the same order, with its items sorted by sku in the database's collation and the two
  timestamps the database assigned.\<close>

theorem create_then_get:
  assumes "db_ok (db w)" and "Store_CreateOrder pf ord events c w = (Ok u, w1)"
    and "calm w2" and "db w2 = db w1"
  shows "Store_GetOrder pf (o_id ord) w2 = (Ok (as_read pf (clock w) ord), w2)"
proof -
  have st: "stored pf (clock w) ord events c (db w) (db w2)" and ok: "db_ok (db w2)"
    using Store_CreateOrder_atomic [OF assms(2,1)] assms(4) by auto
  note reads = stored_order_reads [OF st assms(1) ok]
  show ?thesis
    using Store_GetOrder_calm [OF assms(3) reads(1) order_of_row_of] reads(2)
    by (simp add: as_read_def comp_def)
qed

theorem create_then_get_witness:
  "Store_GetOrder sample_platform ''ord_1''
     (snd (Store_CreateOrder sample_platform stocked_order [sample_event] None sample_world)) =
   (Ok (as_read sample_platform 1000 stocked_order),
    snd (Store_CreateOrder sample_platform stocked_order [sample_event] None sample_world))"
proof -
  let ?x = "Store_CreateOrder sample_platform stocked_order [sample_event] None sample_world"
  have "fst ?x = Ok ()" by code_simp
  then have run: "?x = (Ok (), snd ?x)" by (metis prod.collapse)
  have "calm (snd ?x)" by code_simp
  from create_then_get [OF sample_db_ok run this refl] show ?thesis
    by (simp add: stocked_order_def sample_order_def sample_world_def)
qed

text \<open>C39: an order that names a sku twice is never stored, whatever the database and the faults: the
  primary key of \<open>order_items\<close> refuses it and the transaction is rolled back.\<close>

theorem duplicate_sku_never_stored:
  assumes "db_ok (db w)" and "\<not> distinct (map sku (o_items ord))"
  shows "db (snd (Store_CreateOrder pf ord events c w)) = db w \<and>
    \<not> is_ok (fst (Store_CreateOrder pf ord events c w))"
proof -
  obtain r w' where run: "Store_CreateOrder pf ord events c w = (r, w')"
    by (cases "Store_CreateOrder pf ord events c w")
  note at = Store_CreateOrder_atomic [OF run assms(1)]
  have "\<not> stored pf (clock w) ord events c (db w) (db w')"
  proof
    assume st: "stored pf (clock w) ord events c (db w) (db w')"
    then have "distinct (map item_key (map (item_row_of (o_id ord)) (o_items ord)))"
      using at(2) by (auto simp: stored_def db_ok_def)
    with assms(2) show False
      by (auto simp: item_row_of_def comp_def distinct_map inj_on_def)
  qed
  with at(1) run show ?thesis by simp
qed

theorem duplicate_sku_never_stored_witness:
  "\<not> is_ok (fst (Store_CreateOrder sample_platform
     (sample_order\<lparr>o_items := o_items sample_order @ o_items sample_order\<rparr>) [] None sample_world))"
  using duplicate_sku_never_stored [OF sample_db_ok, of
      "sample_order\<lparr>o_items := o_items sample_order @ o_items sample_order\<rparr>"]
  by (simp add: sample_order_def)

end
