(* ===== verification/Pricing.thy ===== *)
theory Pricing
  imports Domain
begin

text \<open>
  The \<open>Pricer\<close> port of \<open>services/order/app/ports.go\<close> as a locale, and its implementation
  \<open>services/order/adapter/pricing/static.go\<close>, the fixed catalogue of the lab.
\<close>

definition ErrUnknownSKU :: error where
  "ErrUnknownSKU = Sentinel ''unknown sku''"

text \<open>
  What the use case relies on: prices are not negative and at most \<open>max_price\<close>, and the only error is
  \<open>ErrUnknownSKU\<close>.
\<close>

locale pricer =
  fixes unit_price :: "string \<Rightarrow> int64 go"
    and max_price :: int
  assumes price_range: "unit_price s = Ok p \<Longrightarrow> 0 \<le> sint p \<and> sint p \<le> max_price"
    and unknown_sku: "unit_price s = Err e \<Longrightarrow> errors_is e ErrUnknownSKU"
    and no_panic: "unit_price s \<noteq> Panic m"
begin

lemma price_cases:
  obtains (priced) p where "unit_price s = Ok p" and "0 \<le> sint p" and "sint p \<le> max_price"
  | (unknown) e where "unit_price s = Err e" and "errors_is e ErrUnknownSKU"
  using price_range unknown_sku no_panic by (cases "unit_price s") auto

end

section \<open>The static catalogue\<close>

type_synonym static = "string \<rightharpoonup> int64"

definition NewStatic :: static where
  "NewStatic = [''playstation-5'' \<mapsto> 150000, ''xbox-series-x'' \<mapsto> 140000, ''switch-2'' \<mapsto> 95000]"

definition UnitPrice :: "static \<Rightarrow> string \<Rightarrow> int64 go" where
  "UnitPrice prices s =
    (case prices s of
       None \<Rightarrow> Err (Wrapf '''' ErrUnknownSKU ('': '' @ s))
     | Some price \<Rightarrow> Ok price)"

definition Currency :: "static \<Rightarrow> string" where
  "Currency prices = ''NGN''"

lemma NewStatic_range: "NewStatic s = Some p \<Longrightarrow> 0 < sint p \<and> sint p \<le> 150000"
  by (auto simp: NewStatic_def split: if_splits)

interpretation static_pricer: pricer "UnitPrice NewStatic" 150000
  by unfold_locales (auto simp: UnitPrice_def split: option.splits dest: NewStatic_range)

end
