(* ===== verification/Create_Order.thy ===== *)
theory Create_Order
  imports Order_Store Pricing
begin

text \<open>
  The use cases of \<open>services/order/app\<close>: \<open>CreateOrder.Execute\<close> validates, prices and persists an order
  with its \<open>OrderCreated\<close> event and the completion of its key, \<open>GetOrder.Execute\<close> reads one.  They
  are written over the two ports; the locale \<open>create_order\<close> joins the ports' contracts and carries
  the lemmas, the service's own store and catalogue interpret it.
\<close>

section \<open>The use cases\<close>

record create_command =
  cc_customer_id :: string
  cc_payment_method_id :: string
  cc_items :: "item list"

record create_result =
  cr_order_id :: string
  cr_status :: string

definition result_json :: "create_result \<Rightarrow> json" where
  "result_json r = JObj [(''order_id'', JStr (cr_order_id r)), (''status'', JStr (cr_status r))]"

definition json_int :: "int \<Rightarrow> json" where
  "json_int n = JNum (show_int n)"

text \<open>\<open>domain.Item\<close> has no JSON tags: its members carry the Go field names.\<close>

definition item_json :: "item \<Rightarrow> json" where
  "item_json it =
    JObj [(''SKU'', JStr (sku it)), (''Quantity'', json_int (sint (quantity it))),
          (''UnitPrice'', json_int (sint (unit_price it)))]"

definition payload_json :: "order \<Rightarrow> json" where
  "payload_json ord =
    JObj [(''order_id'', JStr (o_id ord)), (''customer_id'', JStr (o_customer_id ord)),
          (''payment_method_id'', JStr (o_payment_method_id ord)),
          (''total_amount'', json_int (sint (o_total_amount ord))),
          (''currency'', JStr (o_currency ord)),
          (''items'', JArr (map item_json (o_items ord)))]"

fun price_items :: "(string \<Rightarrow> int64 go) \<Rightarrow> item list \<Rightarrow> item list go" where
  "price_items price [] = Ok []"
| "price_items price (requested # rest) =
    (case price (sku requested) of
       Err e \<Rightarrow> Err e
     | Panic p \<Rightarrow> Panic p
     | Ok pr \<Rightarrow>
        (case price_items price rest of
           Ok items \<Rightarrow> Ok (\<lparr>sku = sku requested, quantity = quantity requested, unit_price = pr\<rparr> # items)
         | other \<Rightarrow> other))"

definition pending_order :: "string \<Rightarrow> create_command \<Rightarrow> string \<Rightarrow> item list \<Rightarrow> order" where
  "pending_order oid cmd currency items =
    \<lparr>o_id = oid, o_customer_id = cc_customer_id cmd, o_status = StatusPending,
     o_total_amount = Total items, o_currency = currency,
     o_payment_method_id = cc_payment_method_id cmd, o_items = items,
     o_created_at = 0, o_updated_at = 0\<rparr>"

definition result_of :: "order \<Rightarrow> create_result" where
  "result_of ord = \<lparr>cr_order_id = o_id ord, cr_status = status_text (o_status ord)\<rparr>"

definition completion_for :: "string \<Rightarrow> order \<Rightarrow> completion option" where
  "completion_for key ord =
    (if key = [] then None
     else Some \<lparr>cp_key = key, cp_resource_type = ''order'', cp_resource_id = o_id ord,
                cp_status_code = 202, cp_response_body = encode (result_json (result_of ord))\<rparr>)"

type_synonym create_fn =
  "order \<Rightarrow> event list \<Rightarrow> completion option \<Rightarrow> world \<Rightarrow> unit go \<times> world"

definition Execute ::
  "platform \<Rightarrow> create_fn \<Rightarrow> (string \<Rightarrow> int64 go) \<Rightarrow> string \<Rightarrow> (world \<Rightarrow> string \<times> world) \<Rightarrow>
   create_command \<Rightarrow> string \<Rightarrow> world \<Rightarrow> create_result go \<times> world" where
  "Execute pf create price currency newID cmd key w =
    (case Validate (cc_customer_id cmd) (cc_payment_method_id cmd) (cc_items cmd) of
       Some e \<Rightarrow> (Err e, w)
     | None \<Rightarrow>
        (case price_items price (cc_items cmd) of
           Err e \<Rightarrow> (Err e, w)
         | Panic p \<Rightarrow> (Panic p, w)
         | Ok items \<Rightarrow>
            (let (oid, w1) = newID w;
                 ord = pending_order oid cmd currency items
             in case NewEvent pf ''order'' oid ''OrderCreated'' (VJson (payload_json ord)) w1 of
                  (Err e, w2) \<Rightarrow> (Err e, w2)
                | (Panic p, w2) \<Rightarrow> (Panic p, w2)
                | (Ok ev, w2) \<Rightarrow>
                   (case create ord [ev] (completion_for key ord) w2 of
                      (Err e, w3) \<Rightarrow> (Err e, w3)
                    | (Panic p, w3) \<Rightarrow> (Panic p, w3)
                    | (Ok _, w3) \<Rightarrow> (Ok (result_of ord), w3)))))"

definition Get_Execute ::
  "(string \<Rightarrow> world \<Rightarrow> order go \<times> world) \<Rightarrow> string \<Rightarrow> world \<Rightarrow> order go \<times> world" where
  "Get_Execute get oid w = get oid w"

text \<open>\<open>newID\<close> of \<open>cmd/order/main.go\<close>.\<close>

definition new_order_id :: "platform \<Rightarrow> world \<Rightarrow> string \<times> world" where
  "new_order_id pf w = (let (u, w1) = new_uuid pf w in (''ord_'' @ u, w1))"

section \<open>Pricing\<close>

lemma price_items_Ok:
  "price_items price reqs = Ok items \<Longrightarrow>
     map sku items = map sku reqs \<and> map quantity items = map quantity reqs \<and>
     list_all (\<lambda>it. price (sku it) = Ok (unit_price it)) items"
  by (induction reqs arbitrary: items) (auto split: go.splits)

context pricer
begin

lemma price_items_no_panic: "price_items unit_price reqs \<noteq> Panic m"
  by (induction reqs) (auto split: go.splits dest: no_panic [THEN notE])

lemma price_items_unknown:
  "price_items unit_price reqs = Err e \<Longrightarrow> errors_is e ErrUnknownSKU"
  by (induction reqs) (auto split: go.splits dest: unknown_sku)

lemma priced_range:
  assumes "price_items unit_price reqs = Ok items" and "it \<in> set items"
  shows "0 \<le> sint (item.unit_price it) \<and> sint (item.unit_price it) \<le> max_price"
  using price_items_Ok [OF assms(1)] assms(2) price_range by (auto simp: list_all_iff)

end

section \<open>Creating an order\<close>

definition created_event :: "order \<Rightarrow> string \<Rightarrow> event" where
  "created_event ord eid =
    \<lparr>e_id = eid, e_aggregate_type = ''order'', e_aggregate_id = o_id ord,
     e_event_type = ''OrderCreated'', e_payload = encode (payload_json ord)\<rparr>"

locale create_order = pricer unit_price max_price + order_store pf create get
  for unit_price :: "string \<Rightarrow> int64 go" and max_price :: int
    and pf :: platform
    and create :: create_fn
    and get :: "string \<Rightarrow> world \<Rightarrow> order go \<times> world" +
  fixes currency :: string
    and newID :: "world \<Rightarrow> string \<times> world"
  assumes newID_db: "newID w = (oid, w') \<Longrightarrow> db w' = db w"
    and newID_clock: "newID w = (oid, w') \<Longrightarrow> clock w' = clock w"
begin

text \<open>
  The three ways it ends: the command was rejected before anything was written; the store wrote
  nothing; or the order is there, with its event and the completion of its key, which the caller
  hears of unless the commit's answer was lost.
\<close>

lemma Execute_cases:
  assumes "Execute pf create unit_price currency newID cmd key w = (r, w')" and "db_ok (db w)"
  obtains (rejected) e where "r = Err e" and "w' = w"
      and "Validate (cc_customer_id cmd) (cc_payment_method_id cmd) (cc_items cmd) = Some e \<or>
           errors_is e ErrUnknownSKU"
  | (aborted) "\<not> is_ok r" and "db w' = db w"
  | (created) items oid eid where
      "Validate (cc_customer_id cmd) (cc_payment_method_id cmd) (cc_items cmd) = None"
      and "price_items unit_price (cc_items cmd) = Ok items"
      and "stored pf (clock w) (pending_order oid cmd currency items)
             [created_event (pending_order oid cmd currency items) eid]
             (completion_for key (pending_order oid cmd currency items)) (db w) (db w')"
      and "r = Ok (result_of (pending_order oid cmd currency items)) \<or> \<not> is_ok r"
      and "db_ok (db w')"
proof -
  show thesis
  proof (cases "Validate (cc_customer_id cmd) (cc_payment_method_id cmd) (cc_items cmd)")
    case (Some e)
    with assms(1) show thesis by (intro rejected) (auto simp: Execute_def)
  next
    case valid: None
    show thesis
    proof (cases "price_items unit_price (cc_items cmd)")
      case (Err e)
      with assms(1) valid price_items_unknown [OF Err] show thesis
        by (intro rejected) (auto simp: Execute_def)
    next
      case (Panic p)
      with price_items_no_panic show thesis by simp
    next
      case (Ok items)
      obtain oid w1 where id: "newID w = (oid, w1)" by (cases "newID w")
      let ?ord = "pending_order oid cmd currency items"
      let ?ev = "created_event ?ord (pf_uuid pf (uuids w1))"
      let ?w2 = "w1\<lparr>uuids := Suc (uuids w1)\<rparr>"
      have ev: "NewEvent pf ''order'' oid ''OrderCreated'' (VJson (payload_json ?ord)) w1 = (Ok ?ev, ?w2)"
        by (simp add: NewEvent_def new_uuid_def created_event_def pending_order_def)
      obtain q w3 where q: "create ?ord [?ev] (completion_for key ?ord) ?w2 = (q, w3)"
        by (cases "create ?ord [?ev] (completion_for key ?ord) ?w2")
      have w': "w' = w3" "is_ok r = is_ok q" "is_ok q \<longrightarrow> r = Ok (result_of ?ord)"
        using assms(1) valid Ok id ev q by (auto simp: Execute_def split: go.splits)
      have db2: "db ?w2 = db w" "clock ?w2 = clock w" using newID_db [OF id] newID_clock [OF id] by simp_all
      have ok2: "db_ok (db ?w2)" using db2 assms(2) by simp
      from create_atomic [OF q ok2] show thesis
      proof
        assume "db w3 = db ?w2 \<and> \<not> is_ok q"
        with w' db2 show thesis by (intro aborted) auto
      next
        assume "stored pf (clock ?w2) ?ord [?ev] (completion_for key ?ord) (db ?w2) (db w3)"
        with w' db2 create_keeps [OF q ok2] valid Ok show thesis
          by (intro created) auto
      qed
    qed
  qed
qed

text \<open>The quantities and prices of a stored order are within the column types, so its total is exact.\<close>

lemma stored_total_bounds:
  assumes "price_items unit_price reqs = Ok items"
    and "stored pf now (pending_order oid cmd currency items) events c d d'" and "db_ok d'"
  shows "0 \<le> exact_total items \<and>
    exact_total items \<le> int (length items) * (max_price * (2 ^ 31 - 1))"
proof -
  have q: "0 \<le> sint (quantity it) \<and> sint (quantity it) \<le> 2 ^ 31 - 1" if "it \<in> set items" for it
  proof -
    have "item_row_of oid it \<in> set (order_items d')"
      using assms(2) that by (auto simp: stored_def pending_order_def)
    with assms(3) have "item_row_ok (item_row_of oid it)"
      by (auto simp: db_ok_def list_all_iff)
    then show ?thesis by (simp add: item_row_ok_def item_row_of_def fits_int4_def)
  qed
  show ?thesis
    using exact_total_nonneg exact_total_le q priced_range [OF assms(1)] by blast
qed

end

definition service_execute ::
  "platform \<Rightarrow> create_command \<Rightarrow> string \<Rightarrow> world \<Rightarrow> create_result go \<times> world" where
  "service_execute pf =
    Execute pf (Store_CreateOrder pf) (UnitPrice NewStatic) (Currency NewStatic) (new_order_id pf)"

interpretation service: create_order "UnitPrice NewStatic" 150000 pf "Store_CreateOrder pf"
    "Store_GetOrder pf" "Currency NewStatic" "new_order_id pf" for pf
  by unfold_locales (auto simp: new_order_id_def new_uuid_def)

section \<open>What the service's use case promises\<close>

text \<open>C23: the use case is all or nothing and says so.  A command that fails validation is rejected with the
  error of the validation, and one that names an unknown sku with \<open>ErrUnknownSKU\<close>, before anything happens.
  For a valid command with known skus, whatever faults strike, either the database is unchanged and the caller
  gets an error, or the pending order, its priced items, one \<open>OrderCreated\<close> event and the completion of its key
  are stored together.  The caller is told of the order only when it is stored.\<close>

theorem Execute_all_or_nothing:
  assumes "db_ok (db w)" and "service_execute pf cmd key w = (r, w')"
  shows "case Validate (cc_customer_id cmd) (cc_payment_method_id cmd) (cc_items cmd) of
      Some e \<Rightarrow> r = Err e \<and> w' = w
    | None \<Rightarrow>
       (case price_items (UnitPrice NewStatic) (cc_items cmd) of
          Err e \<Rightarrow> r = Err e \<and> w' = w \<and> errors_is e ErrUnknownSKU
        | Panic p \<Rightarrow> False
        | Ok items \<Rightarrow> (db w' = db w \<and> \<not> is_ok r) \<or>
           (\<exists>oid eid ord. ord = pending_order oid cmd ''NGN'' items \<and>
              stored pf (clock w) ord [created_event ord eid] (completion_for key ord) (db w) (db w') \<and>
              (r = Ok (result_of ord) \<or> \<not> is_ok r) \<and> db_ok (db w')))"
proof -
  note run = assms(2) [unfolded service_execute_def]
  have ngn: "Currency NewStatic = ''NGN''" by (simp add: Currency_def)
  show ?thesis
  proof (cases "Validate (cc_customer_id cmd) (cc_payment_method_id cmd) (cc_items cmd)")
    case (Some e)
    with run show ?thesis by (simp add: Execute_def)
  next
    case valid: None
    show ?thesis
    proof (cases "price_items (UnitPrice NewStatic) (cc_items cmd)")
      case (Err e)
      with valid run static_pricer.price_items_unknown [OF Err] show ?thesis by (simp add: Execute_def)
    next
      case (Panic p)
      then show ?thesis using static_pricer.price_items_no_panic by blast
    next
      case (Ok items)
      from run assms(1) show ?thesis
      proof (cases rule: service.Execute_cases)
        case (created items' oid eid)
        with valid Ok show ?thesis unfolding ngn by auto
      qed (use valid Ok in simp_all)
    qed
  qed
qed

definition sample_command :: create_command where
  "sample_command = \<lparr>cc_customer_id = ''cust_1'', cc_payment_method_id = ''pm_ok'',
     cc_items = [\<lparr>sku = ''switch-2'', quantity = 2, unit_price = 0\<rparr>]\<rparr>"

theorem Execute_all_or_nothing_witness:
  "\<exists>items oid eid ord. ord = pending_order oid sample_command ''NGN'' items \<and>
     stored sample_platform 1000 ord [created_event ord eid] None empty_db
       (db (snd (service_execute sample_platform sample_command [] sample_world)))"
proof -
  let ?x = "service_execute sample_platform sample_command [] sample_world"
  have "is_ok (fst ?x)" by code_simp
  moreover have "Validate (cc_customer_id sample_command) (cc_payment_method_id sample_command)
      (cc_items sample_command) = None" by code_simp
  ultimately show ?thesis
    using Execute_all_or_nothing [OF sample_db_ok, of sample_platform sample_command "[]" "fst ?x" "snd ?x"]
    by (auto simp: completion_for_def sample_world_def split: go.splits)
qed

lemma catalogue_length:
  assumes "price_items (UnitPrice NewStatic) reqs = Ok items" and "distinct (map sku items)"
  shows "length items \<le> 3"
proof -
  have "sku ` set items \<subseteq> {''playstation-5'', ''xbox-series-x'', ''switch-2''}"
    using price_items_Ok [OF assms(1)]
    by (auto simp: list_all_iff UnitPrice_def NewStatic_def split: option.splits if_splits)
  then have "card (sku ` set items) \<le> card {''playstation-5'', ''xbox-series-x'', ''switch-2''}"
    by (intro card_mono) auto
  also have "\<dots> \<le> 3" by (simp add: card_insert_if)
  finally show ?thesis
    using assms(2) by (metis distinct_card length_map list.set_map)
qed

lemma exact_total_rows:
  "sum_list (map (\<lambda>r. it_unit_price r * it_quantity r) (map (item_row_of oid) items)) = exact_total items"
  by (simp add: exact_total_def item_row_of_def comp_def)

text \<open>C24: money adds up.  Every order the service ever stores is \<open>pending\<close>, has at least one item, its
  items carry positive quantities and catalogue prices, and its total is the exact sum of price
  times quantity over its items: the 64-bit arithmetic of \<open>Total\<close> cannot overflow, because a sku
  occurs once and the quantity column bounds the rest.\<close>

theorem stored_total_is_exact:
  assumes "db_ok (db w)" and "service_execute pf cmd key w = (r, w')" and "db w' \<noteq> db w"
  shows "\<exists>row its. orders (db w') = orders (db w) @ [row] \<and>
    order_items (db w') = order_items (db w) @ its \<and> or_status row = ''pending'' \<and> its \<noteq> [] \<and>
    list_all (\<lambda>i. it_order_id i = or_id row \<and> 0 < it_quantity i \<and>
      NewStatic (it_sku i) = Some (word_of_int (it_unit_price i))) its \<and>
    or_total_amount row = sum_list (map (\<lambda>i. it_unit_price i * it_quantity i) its)"
  using assms(2,1) unfolding service_execute_def
proof (cases rule: service.Execute_cases)
  case (created items oid eid)
  let ?ord = "pending_order oid cmd (Currency NewStatic) items"
  let ?its = "map (item_row_of oid) items"
  have orders': "orders (db w') = orders (db w) @ [order_row_of (clock w) ?ord]"
    and items': "order_items (db w') = order_items (db w) @ ?its"
    using created(3) by (auto simp: stored_def pending_order_def)
  note priced = price_items_Ok [OF created(2)]
  have "distinct (map item_key ?its)"
    using created(5) items' by (auto simp: db_ok_def)
  then have "distinct (map sku items)"
    by (simp add: item_row_of_def comp_def distinct_map inj_on_def)
  from catalogue_length [OF created(2) this] service.stored_total_bounds [OF created(2,3,5)]
  have "0 \<le> exact_total items" "exact_total items < 2 ^ 63"
    by auto
  then have total: "sint (Total items) = exact_total items"
    using Total_exact sint_word_of_int_fits [of "exact_total items"] by simp
  have rows_ok: "item_row_ok i" if "i \<in> set ?its" for i
    using created(5) items' that by (auto simp: db_ok_def list_all_iff)
  have "items \<noteq> []"
    using created(1) priced by (auto simp: Validate_None_iff)
  moreover have "list_all (\<lambda>i. it_order_id i = oid \<and> 0 < it_quantity i \<and>
      NewStatic (it_sku i) = Some (word_of_int (it_unit_price i))) ?its"
    using priced rows_ok
    by (auto simp: list_all_iff item_row_of_def item_row_ok_def UnitPrice_def split: option.splits)
  ultimately show ?thesis
    using orders' items' total
    by (intro exI [of _ "order_row_of (clock w) ?ord"] exI [of _ ?its] conjI)
       (auto simp: order_row_of_def pending_order_def exact_total_rows simp del: map_map)
qed (use assms(3) in auto)

theorem stored_total_is_exact_witness:
  "\<exists>row (its :: item_row list).
     orders (db (snd (service_execute sample_platform sample_command [] sample_world))) = [row] \<and>
     or_total_amount row = sum_list (map (\<lambda>i. it_unit_price i * it_quantity i) its)"
proof -
  let ?x = "service_execute sample_platform sample_command [] sample_world"
  have "orders (db (snd ?x)) \<noteq> []" by code_simp
  then have "db (snd ?x) \<noteq> db sample_world" by (auto simp: sample_world_def empty_db_def)
  from stored_total_is_exact [OF sample_db_ok prod.collapse [symmetric] this] obtain row
    and its :: "item_row list" where
    "orders (db (snd ?x)) = orders (db sample_world) @ [row]"
    "or_total_amount row = sum_list (map (\<lambda>i. it_unit_price i * it_quantity i) its)"
    by blast
  moreover have "orders (db sample_world) = []" by (simp add: sample_world_def empty_db_def)
  ultimately show ?thesis by (intro exI [of _ row] exI [of _ its] conjI) simp_all
qed

end
