(* ===== verification/Idem_Middleware.thy ===== *)
theory Idem_Middleware
  imports Idempotency
begin

text \<open>
  \<open>internal/idempotency/middleware.go\<close>: \<open>Require\<close> claims the key of a request before the handler
  runs, answers the requests that lost, and releases the claim when the handler fails or panics.
  The lemmas about it are proved over any \<open>claim_store\<close>; \<open>Require\<close> is its instance on Postgres.
\<close>

section \<open>The middleware\<close>

definition headerName :: string where
  "headerName = ''Idempotency-Key''"

definition maxBodyBytes :: nat where
  "maxBodyBytes = 1048576"

definition KeyFromContext :: "gocontext \<Rightarrow> string \<times> bool" where
  "KeyFromContext cx = (case cx_idempotency_key cx of None \<Rightarrow> ([], False) | Some k \<Rightarrow> (k, True))"

text \<open>
  \<open>io.ReadAll(io.LimitReader(r.Body, maxBodyBytes))\<close>: \<open>rq_body_fails\<close> is the number of bytes the
  connection delivers before it fails; a failure behind the limit goes unseen.
\<close>

definition read_body :: "request \<Rightarrow> string option" where
  "read_body r =
    (case rq_body_fails r of
       Some n \<Rightarrow> if n < maxBodyBytes then None else Some (take maxBodyBytes (rq_body r))
     | None \<Rightarrow> Some (take maxBodyBytes (rq_body r)))"

lemma read_body_code [code]:
  "read_body r =
    (let body = (if int (length (rq_body r)) \<le> 1048576 then rq_body r
                 else take maxBodyBytes (rq_body r))
     in case rq_body_fails r of
          Some n \<Rightarrow> if int n < 1048576 then None else Some body
        | None \<Rightarrow> Some body)"
  by (auto simp: read_body_def maxBodyBytes_def split: option.split)

definition reply :: "unit go \<times> rw \<Rightarrow> world \<Rightarrow> unit go \<times> rw \<times> world" where
  "reply x w = (fst x, snd x, w)"

definition write_replay :: "key_record \<Rightarrow> rw \<Rightarrow> unit go \<times> rw" where
  "write_replay rec b =
    (let b1 = set_header ''Idempotent-Replay'' ''true''
                (set_header ''Content-Type'' ''application/json'' b)
     in case write_header (rec_status_code rec) b1 of
          (Ok _, b2) \<Rightarrow> (Ok (), snd (write_bytes (rec_response_body rec) b2))
        | (r, b2) \<Rightarrow> (r, b2))"

definition processing :: goval where
  "processing = VJson (JObj [(''status'', JStr ''processing'')])"

definition processing_body :: string where
  "processing_body = encode (JObj [(''status'', JStr ''processing'')])"

text \<open>
  The owner's part: the handler behind the capture, then the deferred function.  It runs when the
  handler panics too; an error of the release is dropped, a panic of it replaces the outcome.
\<close>

definition succeeded :: "unit go \<Rightarrow> rw \<Rightarrow> bool" where
  "succeeded res b \<longleftrightarrow> is_ok res \<and> 200 \<le> top_status b \<and> top_status b < 300"

definition run_owned ::
  "(string \<Rightarrow> world \<Rightarrow> unit go \<times> world) \<Rightarrow> handler \<Rightarrow> string \<Rightarrow> handler" where
  "run_owned release nxt key r b w =
    (case nxt (r\<lparr>rq_ctx := (rq_ctx r)\<lparr>cx_idempotency_key := Some key\<rparr>\<rparr>)
              (push_layer (Capture 0) b) w of
       (res, b1, w1) \<Rightarrow>
        (if succeeded res b1 then (res, pop_layer b1, w1)
         else case release key w1 of
                (Panic p, w2) \<Rightarrow> (Panic p, pop_layer b1, w2)
              | (_, w2) \<Rightarrow> (res, pop_layer b1, w2)))"

definition Require_with ::
  "(string \<Rightarrow> string \<Rightarrow> world \<Rightarrow> (outcome \<times> key_record) go \<times> world) \<Rightarrow>
   (string \<Rightarrow> world \<Rightarrow> unit go \<times> world) \<Rightarrow> (string \<Rightarrow> string go) \<Rightarrow> handler \<Rightarrow> handler" where
  "Require_with claim release hash nxt r b w =
    (let key = header_get (rq_header r) headerName in
     if key = []
     then reply (WriteError 400 ''idempotency_key_required''
                   ''the Idempotency-Key header is required'' None b) w
     else case read_body r of
       None \<Rightarrow>
         reply (WriteError 400 ''invalid_request'' ''could not read the request body'' None b) w
     | Some body \<Rightarrow>
        (case hash body of
           Panic p \<Rightarrow> (Panic p, b, w)
         | Err _ \<Rightarrow>
             reply (WriteError 400 ''invalid_request'' ''the request body is not valid JSON'' None b) w
         | Ok h \<Rightarrow>
            (case claim key h w of
               (Panic p, w1) \<Rightarrow> (Panic p, b, w1)
             | (Err _, w1) \<Rightarrow> reply (WriteError 500 ''internal_error'' ''internal error'' None b) w1
             | (Ok (OutcomeConflict, _), w1) \<Rightarrow>
                 reply (WriteError 409 ''idempotency_key_reused''
                          ''this Idempotency-Key was used with a different request body'' None b) w1
             | (Ok (OutcomeInProgress, _), w1) \<Rightarrow> reply (WriteJSON 202 processing b) w1
             | (Ok (OutcomeReplay, rec), w1) \<Rightarrow> reply (write_replay rec b) w1
             | (Ok (OutcomeOwned, _), w1) \<Rightarrow>
                 run_owned release nxt key (r\<lparr>rq_body := body, rq_body_fails := None\<rparr>) b w1)))"

definition Require :: "platform \<Rightarrow> handler \<Rightarrow> handler" where
  "Require pf = Require_with Claim Release (Hash pf)"

section \<open>It is a handler again\<close>

lemma sends_write_replay: "sends b (write_replay rec b)"
proof -
  let ?b = "set_header ''Idempotent-Replay'' ''true''
      (set_header ''Content-Type'' ''application/json'' b)"
  have "wrote b ?b" by (rule wrote_trans [OF wrote_set wrote_set])
  moreover have "sends ?b (write_replay rec b)"
    using sends_write_header [of ?b "rec_status_code rec"]
      sends_write_bytes [of _ "rec_response_body rec"]
    by (auto simp: write_replay_def Let_def sends_def split: prod.splits go.splits
        intro: wrote_trans)
  ultimately show ?thesis by (rule sends_after)
qed

lemma reply_sends: "sends b (fst (reply x w), fst (snd (reply x w))) = sends b x"
  by (simp add: reply_def)

context http_handler
begin

lemma run_owned_handler: "http_handler (run_owned release h key)"
  by unfold_locales
     (auto simp: run_owned_def split: prod.splits go.splits if_splits
       intro: wrote_wrap dest!: contract)

lemma Require_with_handler: "http_handler (Require_with claim release hash h)"
proof (rule http_handlerI)
  fix r b w
  show "sends b (fst (Require_with claim release hash h r b w),
                 fst (snd (Require_with claim release hash h r b w)))"
    unfolding Require_with_def Let_def
    by (auto simp: reply_sends sends_write_replay http_handler.sends_response [OF run_owned_handler]
        split: option.split go.split prod.split outcome.split)
qed

end

text \<open>The ways a request goes through the middleware.\<close>

lemma Require_with_cases:
  assumes "Require_with claim release hash nxt r b w = (res, b', w')"
  obtains (rejected) "w' = w"
  | (failed) h q where "claim (header_get (rq_header r) headerName) h w = (q, w')" and "\<not> is_ok q"
  | (answered) h oc rec where
      "claim (header_get (rq_header r) headerName) h w = (Ok (oc, rec), w')" and "oc \<noteq> OutcomeOwned"
  | (ran) h rec body w1 where
      "claim (header_get (rq_header r) headerName) h w = (Ok (OutcomeOwned, rec), w1)"
      and "header_get (rq_header r) headerName \<noteq> []"
      and "read_body r = Some body" and "hash body = Ok h"
      and "run_owned release nxt (header_get (rq_header r) headerName)
             (r\<lparr>rq_body := body, rq_body_fails := None\<rparr>) b w1 = (res, b', w')"
proof -
  let ?k = "header_get (rq_header r) headerName"
  show thesis
  proof (cases "?k = [] \<or> read_body r = None")
    case True
    then show thesis using assms rejected
      by (auto simp: Require_with_def Let_def reply_def split: option.splits if_splits)
  next
    case False
    then obtain body where body: "?k \<noteq> []" "read_body r = Some body" by auto
    show thesis
    proof (cases "hash body")
      case (Ok h)
      obtain q w1 where c: "claim ?k h w = (q, w1)" by (cases "claim ?k h w")
      have run: "Require_with claim release hash nxt r b w = (res, b', w')" by fact
      show thesis
      proof (cases "\<exists>rec. q = Ok (OutcomeOwned, rec)")
        case True
        with run body Ok c show thesis by (auto simp: Require_with_def intro: ran)
      next
        case False
        with run body Ok c have "w' = w1"
          by (auto simp: Require_with_def reply_def split: go.splits outcome.splits prod.splits)
        with c False show thesis by (cases q) (auto intro: failed answered)
      qed
    qed (use assms body rejected in \<open>auto simp: Require_with_def reply_def\<close>)
  qed
qed

section \<open>What any key store gives the middleware\<close>

context claim_store
begin

text \<open>The handler starts with the key claimed for it, which nobody held before.\<close>

lemma handler_owns_key:
  assumes "claim k h w = (Ok (OutcomeOwned, rec), w1)" and "ok w"
  shows "view w k = None \<and> view w1 k = Some (Claimed h) \<and> ok w1"
  using owner_holds [OF assms] claim_keeps [OF assms] by simp

text \<open>
  After the handler has failed the claim is gone, unless the release failed too; after it has
  succeeded the store is as the handler left it.
\<close>

lemma run_owned_view:
  assumes run: "run_owned release nxt key r b w = (res, b', w')"
    and nxt: "nxt (r\<lparr>rq_ctx := (rq_ctx r)\<lparr>cx_idempotency_key := Some key\<rparr>\<rparr>)
                (push_layer (Capture 0) b) w = (q, b2, w2)"
    and ok2: "ok w2"
  shows "(succeeded q b2 \<longrightarrow> view w' = view w2) \<and>
    (\<not> succeeded q b2 \<longrightarrow> view w' = view w2 \<or> view w' = spec_release key (view w2)) \<and>
    (\<not> succeeded q b2 \<and> is_ok (fst (release key w2)) \<longrightarrow> view w' = spec_release key (view w2))"
proof (cases "succeeded q b2")
  case True
  with run nxt show ?thesis by (simp add: run_owned_def)
next
  case False
  obtain rr w3 where rel: "release key w2 = (rr, w3)" by (cases "release key w2")
  with run nxt False have "w' = w3" by (auto simp: run_owned_def split: go.splits)
  with False rel release_either [OF rel ok2] release_succeeds [of key w2] ok2 show ?thesis
    by (auto simp: is_ok_iff)
qed

text \<open>Whoever is not the owner leaves the completed keys alone, and so does a release.\<close>

lemma claim_keeps_done:
  assumes "claim k h w = (q, w1)" and "ok w" and "view w k' = Some (Done h' rid code body)"
  shows "view w1 k' = Some (Done h' rid code body)"
proof (cases q)
  case (Ok x)
  then obtain oc rec where "x = (oc, rec)" by (cases x)
  with owner_holds [of k h w rec w1] loser_changes_nothing [of k h w oc rec w1] assms Ok
  show ?thesis by (cases "oc = OutcomeOwned") auto
qed (use claim_fails [OF assms(1) _ assms(2)] assms(3) in auto)

lemma middleware_keeps_done:
  assumes run: "Require_with claim release hash nxt r b w = (res, b', w')"
    and "ok w" and fin: "view w k = Some (Done h rid code body)"
    and nxt: "\<And>r b w q b2 w2. nxt r b w = (q, b2, w2) \<Longrightarrow> ok w \<Longrightarrow>
      view w k = Some (Done h rid code body) \<Longrightarrow>
      ok w2 \<and> view w2 k = Some (Done h rid code body)"
  shows "view w' k = Some (Done h rid code body)"
  using run
proof (cases rule: Require_with_cases)
  case rejected
  with fin show ?thesis by simp
next
  case (failed h' q)
  with claim_keeps_done assms(2) fin show ?thesis by blast
next
  case (answered h' oc rec)
  with claim_keeps_done assms(2) fin show ?thesis by blast
next
  case (ran h' rec bd w1)
  let ?key = "header_get (rq_header r) headerName"
  let ?r = "r\<lparr>rq_body := bd, rq_body_fails := None\<rparr>"
  obtain q b2 w2 where n: "nxt (?r\<lparr>rq_ctx := (rq_ctx ?r)\<lparr>cx_idempotency_key := Some ?key\<rparr>\<rparr>)
      (push_layer (Capture 0) b) w1 = (q, b2, w2)"
    by (metis prod.exhaust)
  have "ok w1" using claim_keeps [OF ran(1) assms(2)] .
  moreover have "view w1 k = Some (Done h rid code body)"
    using claim_keeps_done [OF ran(1) assms(2) fin] .
  ultimately have 2: "ok w2" "view w2 k = Some (Done h rid code body)"
    using nxt [OF n] by auto
  from run_owned_view [OF ran(5) n 2(1)] 2(2) show ?thesis
    by (cases "succeeded q b2") (auto simp: spec_release_def split: option.splits key_state.splits)
qed

end

section \<open>What a client sees\<close>

text \<open>A request without a key, with an unreadable body or with a body that is not JSON is
  rejected with a 400 that says which, before anything happens: no claim, no handler, no write.\<close>

theorem malformed_request_touches_nothing:
  assumes "header_get (rq_header r) headerName = [] \<or> read_body r = None \<or>
    (\<exists>body e. read_body r = Some body \<and> Hash pf body = Err e)"
  shows "\<exists>code msg. Require pf nxt r b w = reply (WriteError 400 code msg None b) w \<and>
    code = (if header_get (rq_header r) headerName = [] then ''idempotency_key_required''
            else ''invalid_request'')"
  using assms by (auto simp: Require_def Require_with_def Let_def split: option.splits)

definition sample_post :: request where
  "sample_post = \<lparr>rq_method = ''POST'', rq_path = ''/orders'',
     rq_header = [(''Idempotency-Key'', ''k1'')], rq_body = ''{}'', rq_body_fails = None,
     rq_ctx = \<lparr>cx_request_id = None, cx_idempotency_key = None\<rparr>\<rparr>"

theorem malformed_request_touches_nothing_witness:
  "\<exists>msg. Require sample_platform Health (sample_post\<lparr>rq_header := []\<rparr>) fresh_rw sample_world =
     reply (WriteError 400 ''idempotency_key_required'' msg None fresh_rw) sample_world"
  using malformed_request_touches_nothing
    [of "sample_post\<lparr>rq_header := []\<rparr>" sample_platform Health fresh_rw sample_world]
  by (auto simp: header_get_def)

text \<open>The requests that lost, without faults.\<close>

definition replay_response :: "int \<Rightarrow> string \<Rightarrow> response" where
  "replay_response code body =
    \<lparr>rs_status = code,
     rs_header = [(''Idempotent-Replay'', ''true''), (''Content-Type'', ''application/json'')],
     rs_body = body\<rparr>"

definition json_response :: "int \<Rightarrow> json \<Rightarrow> response" where
  "json_response code v =
    \<lparr>rs_status = code, rs_header = [(''Content-Type'', ''application/json'')], rs_body = encode v\<rparr>"

lemma WriteJSON_fresh:
  assumes "final_code code" and "body_allowed code"
  shows "\<exists>b. WriteJSON code (VJson v) fresh_rw = (Ok (), b) \<and> finish b = json_response code v"
  using assms
  by (simp add: WriteJSON_def write_header_def write_bytes_def set_header_def fresh_rw_def
      base_write_header_def base_write_def header_set_def finish_def json_response_def Let_def
      final_code_def)

lemma write_replay_fresh:
  assumes "final_code (rec_status_code rec)" and "body_allowed (rec_status_code rec)"
  shows "\<exists>b. write_replay rec fresh_rw = (Ok (), b) \<and>
     finish b = replay_response (rec_status_code rec) (rec_response_body rec)"
  using assms
  by (simp add: write_replay_def write_header_def write_bytes_def set_header_def fresh_rw_def
      base_write_header_def base_write_def header_set_def finish_def replay_response_def Let_def
      final_code_def)

lemma Claim_calm_taken:
  assumes "calm w" and "find_row k_key k (idempotency_keys (db w)) = Some row"
  shows "Claim k h w =
    (Ok (if k_request_hash row \<noteq> h then OutcomeConflict
         else if k_state row = StateCompleted then OutcomeReplay else OutcomeInProgress,
         record_of row), w)"
  using assms
  by (simp add: Claim_def query_row_def driver_call_calm run_stmt_def sql_claim_def get_key_def
      sql_get_key_def calm_def)

text \<open>What the client of a taken key is answered.\<close>

fun taken_response :: "string \<Rightarrow> key_state \<Rightarrow> response" where
  "taken_response h (Claimed h') =
    (if h' = h then json_response 202 (JObj [(''status'', JStr ''processing'')])
     else json_response 409 (error_json ''idempotency_key_reused''
            ''this Idempotency-Key was used with a different request body'' None))"
| "taken_response h (Done h' rid code body) =
    (if h' = h then replay_response code body
     else json_response 409 (error_json ''idempotency_key_reused''
            ''this Idempotency-Key was used with a different request body'' None))"

text \<open>C26: a retry is answered without running the handler.  When the key of a well-formed request is
  taken, the client gets the stored status and the stored bytes marked as a replay, or 202 while
  the first request is running, or a 409 when the body differs from the one the key was used with;
  the handler is not called and the world is exactly as before.\<close>

theorem taken_key_answered:
  assumes "calm w" and "db_ok (db w)"
    and "header_get (rq_header r) headerName = k" and "k \<noteq> []"
    and "read_body r = Some body" and "Hash pf body = Ok h" and "keys w k = Some st"
    and "\<And>h' rid code rb. st = Done h' rid code rb \<Longrightarrow> final_code code \<and> body_allowed code"
  shows "serve (Require pf nxt) r w = (Some (taken_response h st), w)"
proof -
  obtain row where row: "find_row k_key k (idempotency_keys (db w)) = Some row" "st = abs_row row"
    using assms(7) by (auto simp: key_store_of_def)
  have state: "k_state row = ''in_progress'' \<or> k_state row = ''completed''"
    using db_ok_key_state [OF assms(2) row(1)] .
  have [simp]: "w\<lparr>cancelled := False\<rparr> = w" using assms(1) by (simp add: calm_def)
  note run = Claim_calm_taken [OF assms(1) row(1), of h]
  have fine: "final_code 202" "body_allowed 202" "final_code 409" "body_allowed 409"
    by (simp_all add: final_code_def informational_def body_allowed_def)
  let ?e = "error_json ''idempotency_key_reused''
      ''this Idempotency-Key was used with a different request body'' None"
  show ?thesis
  proof (cases "k_request_hash row = h")
    case False
    then have "taken_response h st = json_response 409 ?e" by (simp add: row(2) abs_row_def)
    with WriteJSON_fresh [OF fine(3,4), of ?e] run False assms(3-6) show ?thesis
      by (auto simp: serve_def Require_def Require_with_def reply_def WriteError_def)
  next
    case True
    show ?thesis
    proof (cases "k_state row = ''completed''")
      case completed: True
      then have st: "st = Done h (k_resource_id row) (k_status_code row) (rec_response_body (record_of row))"
        using True by (simp add: row(2) abs_row_def record_of_def)
      with assms(8) write_replay_fresh [of "record_of row"] obtain b where
        b: "write_replay (record_of row) fresh_rw = (Ok (), b)"
           "finish b = replay_response (k_status_code row) (rec_response_body (record_of row))"
        by auto
      with st run True completed assms(3-6) show ?thesis
        by (simp add: serve_def Require_def Require_with_def reply_def StateCompleted_def)
    next
      case False
      with True have st: "st = Claimed h" by (simp add: row(2) abs_row_def)
      with WriteJSON_fresh [OF fine(1,2), of "JObj [(''status'', JStr ''processing'')]"]
        run True False assms(3-6) show ?thesis
        by (auto simp: serve_def Require_def Require_with_def reply_def processing_def
            StateCompleted_def)
    qed
  qed
qed

text \<open>C25: a failed request does not block its key.  When the handler of an owner panics, returns without writing
  or answers outside 2xx, the middleware releases its claim, and nothing else: if the release reports success
  the claim is gone, and if it meets a fault the claim is gone or the keys are as the handler left them.
  Unless a fault strikes it the release does succeed, even when the client has hung up in the meantime.  After a
  2xx the keys are as the handler left them.\<close>

theorem failed_request_frees_key:
  assumes "run_owned Release nxt k r b w = (res, b', w')"
    and "nxt (r\<lparr>rq_ctx := (rq_ctx r)\<lparr>cx_idempotency_key := Some k\<rparr>\<rparr>)
           (push_layer (Capture 0) b) w = (q, b2, w2)"
    and "db_ok (db w2)"
  shows "if succeeded q b2 then res = q \<and> keys w' = keys w2
    else (keys w' = keys w2 \<or> keys w' = spec_release k (keys w2)) \<and>
      (is_ok (fst (Release k w2)) \<longrightarrow> res = q \<and> keys w' = spec_release k (keys w2) \<and>
         (\<forall>h. keys w' k \<noteq> Some (Claimed h))) \<and>
      (script w2 = [] \<longrightarrow> is_ok (fst (Release k w2)))"
proof -
  have rel: "is_ok (fst (Release k w2))" if "script w2 = []"
    using that by (simp add: Release_def driver_call_detached run_stmt_def sql_release_def)
  from assms(1,2) have "res = q" if "succeeded q b2 \<or> is_ok (fst (Release k w2))"
    using that by (auto simp: run_owned_def is_ok_iff split: if_splits go.splits prod.splits)
  with pg_keys.run_owned_view [OF assms] rel show ?thesis
    by (auto simp: spec_release_def split: option.splits key_state.splits)
qed

lemma sample_post_facts:
  "header_get (rq_header sample_post) headerName = ''k1''"
  "read_body sample_post = Some ''{}''"
  "Hash sample_platform ''{}'' = Ok ''7b7d''"
  by (simp add: sample_post_def headerName_def header_get_def)
     (simp add: sample_post_def read_body_def maxBodyBytes_def, code_simp)

definition claimed_world :: world where
  "claimed_world = snd (Claim ''k1'' ''7b7d'' sample_world)"

lemma claimed_world_facts:
  "calm claimed_world" "db_ok (db claimed_world)"
  "keys claimed_world ''k1'' = Some (Claimed ''7b7d'')"
proof -
  show "calm claimed_world" by code_simp
  show "db_ok (db claimed_world)"
    unfolding claimed_world_def
    by (rule db_ok_Claim [OF prod.collapse [symmetric]]) (simp add: sample_world_def db_ok_empty)
  show "keys claimed_world ''k1'' = Some (Claimed ''7b7d'')" by code_simp
qed

theorem taken_key_answered_witness:
  "serve (Require sample_platform Health) sample_post claimed_world =
     (Some (json_response 202 (JObj [(''status'', JStr ''processing'')])), claimed_world)"
  using taken_key_answered [OF claimed_world_facts(1,2) sample_post_facts(1) _ sample_post_facts(2,3)
      claimed_world_facts(3), of Health]
  by simp

definition refusing :: handler where
  "refusing r b w = reply (WriteError 500 ''internal_error'' ''boom'' None b) w"

theorem failed_request_frees_key_witness:
  "keys (snd (snd (run_owned Release refusing ''k1'' sample_post fresh_rw claimed_world))) ''k1'' = None"
proof -
  let ?r = "sample_post\<lparr>rq_ctx := (rq_ctx sample_post)\<lparr>cx_idempotency_key := Some ''k1''\<rparr>\<rparr>"
  let ?x = "WriteError 500 ''internal_error'' ''boom'' None (push_layer (Capture 0) fresh_rw)"
  have n: "refusing ?r (push_layer (Capture 0) fresh_rw) claimed_world = (fst ?x, snd ?x, claimed_world)"
    by (simp add: refusing_def reply_def)
  have bad: "\<not> succeeded (fst ?x) (snd ?x)" by code_simp
  obtain res b' w' where run: "run_owned Release refusing ''k1'' sample_post fresh_rw claimed_world =
      (res, b', w')" by (metis prod.exhaust)
  have "script claimed_world = []" using claimed_world_facts(1) by (simp add: calm_def)
  with failed_request_frees_key [OF run n claimed_world_facts(2)] bad
  have "keys w' = spec_release ''k1'' (keys claimed_world)" by simp
  with run claimed_world_facts(3) show ?thesis by (simp add: spec_release_def)
qed

end
