(* ===== verification/Order_Http.thy ===== *)
theory Order_Http
  imports Create_Order Idem_Middleware
begin

text \<open>
  \<open>services/order/adapter/http\<close> and the wiring of \<open>cmd/order/main.go\<close>: the JSON decoding of a create
  request, the two order handlers, the mapping of domain errors to responses, the routes, and the
  whole service as one handler.
\<close>

section \<open>Decoding a create request\<close>

record raw_item =
  ri_sku :: string
  ri_quantity :: int

text \<open>
  \<open>createRequest\<close>.  \<open>encoding/json\<close> decodes a repeated \<open>items\<close> member into the backing array of the
  slice it already has, so the model keeps that array and the length of the slice.
\<close>

record create_request =
  rc_customer_id :: string
  rc_payment_method_id :: string
  rc_backing :: "raw_item list"
  rc_len :: nat

definition zero_item :: raw_item where
  "zero_item = \<lparr>ri_sku = [], ri_quantity = 0\<rparr>"

definition zero_request :: create_request where
  "zero_request = \<lparr>rc_customer_id = [], rc_payment_method_id = [], rc_backing = [], rc_len = 0\<rparr>"

definition rc_items :: "create_request \<Rightarrow> raw_item list" where
  "rc_items q = take (rc_len q) (rc_backing q)"

text \<open>
  A member matches a field by its exact name, or else by the folded one: ASCII letters in upper
  case, and U+017F and U+212A as the \<open>S\<close> and \<open>K\<close> they fold to.
\<close>

fun fold_name :: "string \<Rightarrow> string" where
  "fold_name [] = []"
| "fold_name (c # cs) =
    (if c = CHR 0xC5 \<and> take 1 cs = [CHR 0xBF] then CHR ''S'' # fold_name (drop 1 cs)
     else if c = CHR 0xE2 \<and> take 2 cs = [CHR 0x84, CHR 0xAA] then CHR ''K'' # fold_name (drop 2 cs)
     else if byte_in 97 122 c then char_of (byte_val c - 32) # fold_name cs
     else c # fold_name cs)"

definition field_of :: "string list \<Rightarrow> string \<Rightarrow> string option" where
  "field_of names k =
    (if k \<in> set names then Some k else find (\<lambda>n. fold_name n = fold_name k) names)"

definition digits_value :: "string \<Rightarrow> int option" where
  "digits_value ds =
    (if ds = [] \<or> \<not> list_all is_digit ds then None
     else Some (foldl (\<lambda>a c. 10 * a + (int (byte_val c) - 48)) 0 ds))"

text \<open>\<open>strconv.ParseInt(s, 10, 64)\<close> on a JSON number literal.\<close>

definition parse_int64 :: "string \<Rightarrow> int option" where
  "parse_int64 s =
    (case (case s of
             c # cs \<Rightarrow> if c = CHR ''-'' then map_option uminus (digits_value cs) else digits_value s
           | [] \<Rightarrow> None) of
       None \<Rightarrow> None
     | Some i \<Rightarrow> if - (2 ^ 63) \<le> i \<and> i < 2 ^ 63 then Some i else None)"

fun decode_string :: "json \<Rightarrow> string \<Rightarrow> string option" where
  "decode_string (JStr s) old = Some s"
| "decode_string JNull old = Some old"
| "decode_string _ old = None"

fun decode_int :: "json \<Rightarrow> int \<Rightarrow> int option" where
  "decode_int (JNum n) old = parse_int64 n"
| "decode_int JNull old = Some old"
| "decode_int _ old = None"

definition decode_item_member :: "string \<times> json \<Rightarrow> raw_item \<Rightarrow> raw_item option" where
  "decode_item_member m it =
    (case field_of [''sku'', ''quantity''] (fst m) of
       None \<Rightarrow> None
     | Some f \<Rightarrow>
        (if f = ''sku'' then map_option (\<lambda>s. it\<lparr>ri_sku := s\<rparr>) (decode_string (snd m) (ri_sku it))
         else map_option (\<lambda>n. it\<lparr>ri_quantity := n\<rparr>) (decode_int (snd m) (ri_quantity it))))"

fun fold_members :: "('m \<Rightarrow> 'a \<Rightarrow> 'a option) \<Rightarrow> 'm list \<Rightarrow> 'a \<Rightarrow> 'a option" where
  "fold_members f [] a = Some a"
| "fold_members f (m # ms) a = (case f m a of None \<Rightarrow> None | Some a' \<Rightarrow> fold_members f ms a')"

fun decode_item :: "json \<Rightarrow> raw_item \<Rightarrow> raw_item option" where
  "decode_item (JObj ms) old = fold_members decode_item_member ms old"
| "decode_item JNull old = Some old"
| "decode_item _ old = None"

fun decode_elems :: "json list \<Rightarrow> raw_item list \<Rightarrow> raw_item list option" where
  "decode_elems [] backing = Some backing"
| "decode_elems (v # vs) backing =
    (case decode_item v (case backing of [] \<Rightarrow> zero_item | it # _ \<Rightarrow> it) of
       None \<Rightarrow> None
     | Some it \<Rightarrow> map_option (\<lambda>its. it # its) (decode_elems vs (tl backing)))"

fun decode_items :: "json \<Rightarrow> create_request \<Rightarrow> create_request option" where
  "decode_items (JArr vs) q =
    (if vs = [] then Some (q\<lparr>rc_backing := [], rc_len := 0\<rparr>)
     else map_option (\<lambda>its. q\<lparr>rc_backing := its, rc_len := length vs\<rparr>)
            (decode_elems vs (rc_backing q)))"
| "decode_items JNull q = Some (q\<lparr>rc_backing := [], rc_len := 0\<rparr>)"
| "decode_items _ q = None"

definition decode_member :: "string \<times> json \<Rightarrow> create_request \<Rightarrow> create_request option" where
  "decode_member m q =
    (case field_of [''customer_id'', ''payment_method_id'', ''items''] (fst m) of
       None \<Rightarrow> None
     | Some f \<Rightarrow>
        (if f = ''customer_id''
         then map_option (\<lambda>s. q\<lparr>rc_customer_id := s\<rparr>) (decode_string (snd m) (rc_customer_id q))
         else if f = ''payment_method_id''
         then map_option (\<lambda>s. q\<lparr>rc_payment_method_id := s\<rparr>)
                (decode_string (snd m) (rc_payment_method_id q))
         else decode_items (snd m) q))"

fun decode_request :: "json \<Rightarrow> create_request option" where
  "decode_request (JObj ms) = fold_members decode_member ms zero_request"
| "decode_request JNull = Some zero_request"
| "decode_request _ = None"

definition request_of_body :: "request \<Rightarrow> create_request option" where
  "request_of_body r =
    (case decode_first (case rq_body_fails r of None \<Rightarrow> rq_body r | Some n \<Rightarrow> take n (rq_body r)) of
       None \<Rightarrow> None
     | Some v \<Rightarrow> decode_request v)"

section \<open>The handlers\<close>

definition writeDomainError :: "error \<Rightarrow> rw \<Rightarrow> unit go \<times> rw" where
  "writeDomainError e b =
    (if errors_is e ErrOrderNotFound
     then WriteError 404 ''order_not_found'' ''order not found'' None b
     else if errors_is e ErrUnknownSKU then WriteError 422 ''unknown_sku'' (error_text e) None b
     else if errors_is e ErrMissingCustomer \<or> errors_is e ErrMissingPaymentMethod \<or>
             errors_is e ErrNoItems \<or> errors_is e ErrInvalidQuantity
     then WriteError 400 ''invalid_request'' (error_text e) None b
     else WriteError 500 ''internal_error'' ''internal error'' None b)"

definition command_of :: "create_request \<Rightarrow> create_command" where
  "command_of q =
    \<lparr>cc_customer_id = rc_customer_id q, cc_payment_method_id = rc_payment_method_id q,
     cc_items = map (\<lambda>it. \<lparr>sku = ri_sku it, quantity = word_of_int (ri_quantity it), unit_price = 0\<rparr>)
                    (rc_items q)\<rparr>"

definition Create ::
  "(create_command \<Rightarrow> string \<Rightarrow> world \<Rightarrow> create_result go \<times> world) \<Rightarrow> handler" where
  "Create execute r b w =
    (case request_of_body r of
       None \<Rightarrow>
         reply (WriteError 400 ''invalid_request'' ''the request body is not valid JSON'' None b) w
     | Some q \<Rightarrow>
        (let (key, _) = KeyFromContext (rq_ctx r)
         in case execute (command_of q) key w of
              (Err e, w1) \<Rightarrow> reply (writeDomainError e b) w1
            | (Panic p, w1) \<Rightarrow> (Panic p, b, w1)
            | (Ok result, w1) \<Rightarrow> reply (WriteJSON 202 (VJson (result_json result)) b) w1))"

text \<open>The response of \<open>Get\<close>; its items carry the tags of \<open>itemResponse\<close>.\<close>

definition item_response :: "item \<Rightarrow> json" where
  "item_response it =
    JObj [(''sku'', JStr (sku it)), (''quantity'', json_int (sint (quantity it))),
          (''unit_price'', json_int (sint (unit_price it)))]"

definition order_response :: "platform \<Rightarrow> order \<Rightarrow> json" where
  "order_response pf ord =
    JObj [(''order_id'', JStr (o_id ord)), (''customer_id'', JStr (o_customer_id ord)),
          (''status'', JStr (status_text (o_status ord))),
          (''total_amount'', json_int (sint (o_total_amount ord))),
          (''currency'', JStr (o_currency ord)),
          (''payment_method_id'', JStr (o_payment_method_id ord)),
          (''items'', JArr (map item_response (o_items ord))),
          (''created_at'', JStr (pf_time_json pf (o_created_at ord))),
          (''updated_at'', JStr (pf_time_json pf (o_updated_at ord)))]"

definition Get ::
  "platform \<Rightarrow> (string \<Rightarrow> world \<Rightarrow> order go \<times> world) \<Rightarrow> string \<Rightarrow> handler" where
  "Get pf get oid r b w =
    (case Get_Execute get oid w of
       (Err e, w1) \<Rightarrow> reply (writeDomainError e b) w1
     | (Panic p, w1) \<Rightarrow> (Panic p, b, w1)
     | (Ok ord, w1) \<Rightarrow> reply (WriteJSON 200 (VJson (order_response pf ord)) b) w1)"

section \<open>Routes\<close>

text \<open>
  What the source uses of \<open>http.ServeMux\<close>: patterns of a method and path segments, literal or a
  wildcard that matches one non-empty segment.  \<open>rq_path\<close> is the path after \<open>net/http\<close>'s own
  cleaning and unescaping.  A route of method \<open>GET\<close> serves \<open>HEAD\<close> too; a path that only other
  methods serve is a 405, any other a 404.
\<close>

datatype segment = Lit string | Var string

fun split_on :: "char \<Rightarrow> string \<Rightarrow> string list" where
  "split_on c [] = [[]]"
| "split_on c (x # xs) =
    (if x = c then [] # split_on c xs
     else case split_on c xs of [] \<Rightarrow> [[x]] | seg # segs \<Rightarrow> (x # seg) # segs)"

fun match_segments :: "segment list \<Rightarrow> string list \<Rightarrow> (string \<times> string) list option" where
  "match_segments [] [] = Some []"
| "match_segments (Lit l # ps) (s # ss) = (if l = s then match_segments ps ss else None)"
| "match_segments (Var v # ps) (s # ss) =
    (if s = [] then None else map_option (\<lambda>bs. (v, s) # bs) (match_segments ps ss))"
| "match_segments _ _ = None"

record route =
  rt_method :: string
  rt_path :: "segment list"
  rt_handler :: "(string \<times> string) list \<Rightarrow> handler"

definition match_path :: "route \<Rightarrow> request \<Rightarrow> (string \<times> string) list option" where
  "match_path rt r = match_segments (Lit [] # rt_path rt) (split_on (CHR ''/'') (rq_path r))"

definition method_ok :: "route \<Rightarrow> request \<Rightarrow> bool" where
  "method_ok rt r \<longleftrightarrow> rq_method r = rt_method rt \<or> (rt_method rt = ''GET'' \<and> rq_method r = ''HEAD'')"

definition http_Error :: "string \<Rightarrow> int \<Rightarrow> rw \<Rightarrow> unit go \<times> rw" where
  "http_Error msg code b =
    (let b1 = set_header ''X-Content-Type-Options'' ''nosniff''
                (set_header ''Content-Type'' ''text/plain; charset=utf-8'' b)
     in case write_header code b1 of
          (Ok _, b2) \<Rightarrow> write_bytes (msg @ [CHR 0x0A]) b2
        | (r, b2) \<Rightarrow> (r, b2))"

fun ServeMux :: "route list \<Rightarrow> string list \<Rightarrow> handler" where
  "ServeMux [] allowed r b w =
    (if allowed = [] then reply (http_Error ''404 page not found'' 404 b) w
     else reply (http_Error ''Method Not Allowed'' 405
                   (set_header ''Allow'' (concat (tl (concat (map (\<lambda>m. ['', '', m]) allowed)))) b)) w)"
| "ServeMux (rt # routes) allowed r b w =
    (case match_path rt r of
       None \<Rightarrow> ServeMux routes allowed r b w
     | Some bindings \<Rightarrow>
        (if method_ok rt r then rt_handler rt bindings r b w
         else ServeMux routes
                (allowed @ (if rt_method rt = ''GET'' then [''GET'', ''HEAD''] else [rt_method rt])) r b w))"

text \<open>\<open>httpx.Route\<close> registers the handler; the span it renames is not modelled.\<close>

definition Route :: "string \<Rightarrow> segment list \<Rightarrow> ((string \<times> string) list \<Rightarrow> handler) \<Rightarrow> route list \<Rightarrow> route list" where
  "Route meth path h mux = mux @ [\<lparr>rt_method = meth, rt_path = path, rt_handler = h\<rparr>]"

definition path_value :: "string \<Rightarrow> (string \<times> string) list \<Rightarrow> string" where
  "path_value v bindings = (case map_of bindings v of None \<Rightarrow> [] | Some s \<Rightarrow> s)"

definition Register ::
  "platform \<Rightarrow> (create_command \<Rightarrow> string \<Rightarrow> world \<Rightarrow> create_result go \<times> world) \<Rightarrow>
   (string \<Rightarrow> world \<Rightarrow> order go \<times> world) \<Rightarrow> route list \<Rightarrow> route list" where
  "Register pf execute get mux =
    Route ''GET'' [Lit ''orders'', Var ''id''] (\<lambda>bs. Get pf get (path_value ''id'' bs))
      (Route ''POST'' [Lit ''orders''] (\<lambda>_. Require pf (Create execute)) mux)"

text \<open>
  The wiring of \<open>run\<close> in \<open>cmd/order/main.go\<close>.  The \<open>/metrics\<close> handler is Prometheus', not the
  repository's: a parameter.
\<close>

definition service_routes :: "platform \<Rightarrow> handler \<Rightarrow> route list" where
  "service_routes pf metrics =
    Register pf (service_execute pf) (Store_GetOrder pf)
      [\<lparr>rt_method = ''GET'', rt_path = [Lit ''healthz''], rt_handler = \<lambda>_. Health\<rparr>,
       \<lparr>rt_method = ''GET'', rt_path = [Lit ''readyz''], rt_handler = \<lambda>_. Ready ping\<rparr>,
       \<lparr>rt_method = ''GET'', rt_path = [Lit ''metrics''], rt_handler = \<lambda>_. metrics\<rparr>]"

definition order_service :: "platform \<Rightarrow> handler \<Rightarrow> handler" where
  "order_service pf metrics = NewServer pf (ServeMux (service_routes pf metrics) [])"

end
