(* ===== verification/Order_Service.thy ===== *)
theory Order_Service
  imports Order_Http
begin

text \<open>
  The order service as a whole.  Its handlers keep the \<open>http.Handler\<close> contract, and what a request
  or a drain of the outbox may do to the database is a sequence of the four atomic steps of
  \<open>db_step\<close>.  The invariants that span the tables are proved over these steps, so they hold for any
  interleaving of requests and publishers, under any faults.
\<close>

section \<open>The handlers keep their contract\<close>

lemma sends_writeDomainError: "sends b (writeDomainError e b)"
  by (auto simp: writeDomainError_def)

lemma sends_http_Error: "sends b (http_Error msg code b)"
proof -
  let ?b = "set_header ''X-Content-Type-Options'' ''nosniff''
      (set_header ''Content-Type'' ''text/plain; charset=utf-8'' b)"
  have "wrote b ?b" by (rule wrote_trans [OF wrote_set wrote_set])
  moreover have "sends ?b (http_Error msg code b)"
    using sends_write_header [of ?b code] sends_write_bytes [of _ "msg @ [CHR 0x0A]"]
    by (auto simp: http_Error_def Let_def split: prod.splits go.splits
        intro: wrote_trans simp: sends_def)
  ultimately show ?thesis by (rule sends_after)
qed

interpretation create_handler: http_handler "Create execute" for execute
proof (rule http_handlerI)
  show "sends b (fst (Create execute r b w), fst (snd (Create execute r b w)))" for r b w
    by (auto simp: Create_def Let_def reply_sends sends_writeDomainError
        split: option.split go.split prod.split)
qed

interpretation get_handler: http_handler "Get pf get oid" for pf get oid
proof (rule http_handlerI)
  show "sends b (fst (Get pf get oid r b w), fst (snd (Get pf get oid r b w)))" for r b w
    by (auto simp: Get_def reply_sends sends_writeDomainError split: go.split prod.split)
qed

lemma Require_handler: "http_handler h \<Longrightarrow> http_handler (Require pf h)"
  unfolding Require_def by (rule http_handler.Require_with_handler)

lemma ServeMux_handler:
  "(\<And>rt bs. rt \<in> set routes \<Longrightarrow> http_handler (rt_handler rt bs)) \<Longrightarrow>
     http_handler (ServeMux routes allowed)"
proof (rule http_handlerI)
  fix r b w
  assume "\<And>rt bs. rt \<in> set routes \<Longrightarrow> http_handler (rt_handler rt bs)"
  then show "sends b (fst (ServeMux routes allowed r b w), fst (snd (ServeMux routes allowed r b w)))"
  proof (induction routes arbitrary: allowed)
    case Nil
    show ?case
      by (auto simp: reply_sends sends_http_Error intro: sends_after [OF wrote_set sends_http_Error])
  next
    case (Cons rt routes)
    have "sends b (fst (rt_handler rt bs r b w), fst (snd (rt_handler rt bs r b w)))" for bs
      by (rule http_handler.sends_response) (simp add: Cons.prems)
    then show ?case using Cons by (auto split: option.split)
  qed
qed

lemma post_orders_handler: "http_handler (Require pf (Create execute))"
  by (rule Require_handler [OF create_handler.http_handler_axioms])

lemma order_routes_handlers:
  assumes "http_handler metrics" and "rt \<in> set (service_routes pf metrics)"
  shows "http_handler (rt_handler rt bs)"
  using assms
  by (auto simp: service_routes_def Register_def Route_def
      intro: post_orders_handler get_handler.http_handler_axioms
        health.http_handler_axioms ready.http_handler_axioms)

lemma order_service_handler: "http_handler metrics \<Longrightarrow> http_handler (order_service pf metrics)"
  unfolding order_service_def
  by (intro NewServer_handler ServeMux_handler order_routes_handlers)

section \<open>The steps of the database\<close>

inductive db_step :: "platform \<Rightarrow> database \<Rightarrow> database \<Rightarrow> bool" for pf where
  claim_step: "sql_claim now k h d = Inr (Some k, d') \<Longrightarrow> db_step pf d d'"
| release_step: "sql_release k d = Inr ((), d') \<Longrightarrow> db_step pf d d'"
| create_step:
    "stored pf now ord [created_event ord eid] (completion_for k ord) d d' \<Longrightarrow> k \<noteq> [] \<Longrightarrow>
       o_status ord = StatusPending \<Longrightarrow> db_ok d' \<Longrightarrow> db_step pf d d'"
| publish_step:
    "(\<And>x. x \<in> set (outbox_events d) \<Longrightarrow> f x = x \<or> attempted pf opts publish now x (f x)) \<Longrightarrow>
       d' = set_events (map f (outbox_events d)) d \<Longrightarrow> db_step pf d d'"

inductive_cases db_step_elim: "db_step pf d d'"

abbreviation db_steps :: "platform \<Rightarrow> database \<Rightarrow> database \<Rightarrow> bool" where
  "db_steps pf \<equiv> (db_step pf)\<^sup>*\<^sup>*"

text \<open>The steps of one request.\<close>

lemma Claim_steps:
  assumes "Claim k h w = (r, w')"
  shows "db_steps pf (db w) (db w')"
  using assms by (cases rule: Claim_cases) (auto intro: claim_step)

lemma Release_steps:
  assumes "Release k w = (r, w')"
  shows "db_steps pf (db w) (db w')"
  using assms by (cases rule: Release_cases) (auto intro: release_step)

lemma service_execute_steps:
  assumes "service_execute pf cmd key w = (r, w')" and "db_ok (db w)" and "key \<noteq> []"
  shows "db_steps pf (db w) (db w') \<and> db_ok (db w')"
  using assms(1,2) unfolding service_execute_def
proof (cases rule: service.Execute_cases)
  case (created items oid eid)
  have "o_status (pending_order oid cmd (Currency NewStatic) items) = StatusPending"
    by (simp add: pending_order_def)
  from create_step [OF created(3) assms(3) this created(5)] created(5) show ?thesis by blast
qed (use assms(2) in auto)

lemma Create_steps:
  assumes "Create (service_execute pf) r b w = (res, b', w')" and "db_ok (db w)"
    and "cx_idempotency_key (rq_ctx r) = Some k" and "k \<noteq> []"
  shows "db_steps pf (db w) (db w') \<and> db_ok (db w')"
proof (cases "request_of_body r")
  case None
  with assms(1,2) show ?thesis by (auto simp: Create_def reply_def)
next
  case (Some q)
  obtain x w1 where x: "service_execute pf (command_of q) k w = (x, w1)"
    by (cases "service_execute pf (command_of q) k w")
  have "w' = w1"
    using assms(1,3) Some x by (auto simp: Create_def KeyFromContext_def reply_def split: go.splits)
  with service_execute_steps [OF x assms(2,4)] show ?thesis by simp
qed

lemma Require_steps:
  assumes "Require pf (Create (service_execute pf)) r b w = (res, b', w')" and "db_ok (db w)"
  shows "db_steps pf (db w) (db w') \<and> db_ok (db w')"
  using assms(1) unfolding Require_def
proof (cases rule: Require_with_cases)
  case rejected
  then show ?thesis using assms(2) by simp
next
  case (failed h q)
  then show ?thesis using Claim_steps db_ok_Claim assms(2) by blast
next
  case (answered h oc rec)
  then show ?thesis using Claim_steps db_ok_Claim assms(2) by blast
next
  case (ran h rec body w1)
  let ?key = "header_get (rq_header r) headerName"
  let ?r = "r\<lparr>rq_body := body, rq_body_fails := None\<rparr>"
  let ?r' = "?r\<lparr>rq_ctx := (rq_ctx ?r)\<lparr>cx_idempotency_key := Some ?key\<rparr>\<rparr>"
  obtain q b2 w2 where n: "Create (service_execute pf) ?r' (push_layer (Capture 0) b) w1 = (q, b2, w2)"
    by (metis prod.exhaust)
  have 1: "db_steps pf (db w) (db w1)" "db_ok (db w1)"
    using Claim_steps [OF ran(1)] db_ok_Claim [OF ran(1) assms(2)] by auto
  have 2: "db_steps pf (db w1) (db w2) \<and> db_ok (db w2)"
    using Create_steps [OF n 1(2) _ ran(2)] by simp
  obtain q' w3 where rel: "Release ?key w2 = (q', w3)" by (cases "Release ?key w2")
  have "w' = w2 \<or> w' = w3"
    using ran(5) n rel by (auto simp: run_owned_def split: if_splits go.splits)
  then have "db_steps pf (db w2) (db w') \<and> db_ok (db w')"
    using 2 Release_steps [OF rel] db_ok_Release [OF rel] by auto
  with 1 2 show ?thesis by (meson rtranclp_trans)
qed

text \<open>The steps of the whole service: \<open>moves\<close> is what every handler and middleware of it keeps.\<close>

definition moves :: "platform \<Rightarrow> handler \<Rightarrow> bool" where
  "moves pf h \<longleftrightarrow> (\<forall>r b w. db_ok (db w) \<longrightarrow>
     db_steps pf (db w) (db (snd (snd (h r b w)))) \<and> db_ok (db (snd (snd (h r b w)))))"

lemma movesD:
  "moves pf h \<Longrightarrow> h r b w = (res, b', w') \<Longrightarrow> db_ok (db w) \<Longrightarrow>
     db_steps pf (db w) (db w') \<and> db_ok (db w')"
  unfolding moves_def by (metis snd_conv)

lemma movesI:
  "(\<And>r b w res b' w'. h r b w = (res, b', w') \<Longrightarrow> db_ok (db w) \<Longrightarrow>
     db_steps pf (db w) (db w') \<and> db_ok (db w')) \<Longrightarrow> moves pf h"
  unfolding moves_def by (metis prod.collapse)

lemma moves_same: "(\<And>r b w. db (snd (snd (h r b w))) = db w) \<Longrightarrow> moves pf h"
  by (simp add: moves_def)

lemma moves_Require: "moves pf (Require pf (Create (service_execute pf)))"
  by (rule movesI) (rule Require_steps)

lemma moves_Get: "moves pf (Get pf (Store_GetOrder pf) oid)"
proof (rule moves_same)
  fix r b w
  obtain q w1 where q: "Store_GetOrder pf oid w = (q, w1)" by (cases "Store_GetOrder pf oid w")
  then show "db (snd (snd (Get pf (Store_GetOrder pf) oid r b w))) = db w"
    using Store_GetOrder_reads [OF q]
    by (auto simp: Get_def Get_Execute_def reply_def split: go.split)
qed

lemma moves_Health: "moves pf Health"
  by (rule moves_same) (simp add: Health_def split: prod.split)

lemma ping_reads: "ping w = (r, w') \<Longrightarrow> db w' = db w"
  unfolding ping_def by (erule driver_call_cases) auto

lemma moves_Ready: "moves pf (Ready ping)"
proof (rule moves_same)
  fix r b w
  obtain q w1 where q: "ping w = (q, w1)" by (cases "ping w")
  then show "db (snd (snd (Ready ping r b w))) = db w"
    using ping_reads [OF q] by (auto simp: Ready_def split: go.split prod.split)
qed

lemma moves_ServeMux:
  "(\<And>rt bs. rt \<in> set routes \<Longrightarrow> moves pf (rt_handler rt bs)) \<Longrightarrow> moves pf (ServeMux routes allowed)"
proof (induction routes arbitrary: allowed)
  case Nil
  show ?case by (rule moves_same) (simp add: reply_def)
next
  case (Cons rt routes)
  then have "moves pf (ServeMux routes allowed)" for allowed by simp
  moreover have "moves pf (rt_handler rt bs)" for bs using Cons.prems by simp
  ultimately show ?case by (auto simp: moves_def split: option.split)
qed

lemma moves_NewServer:
  assumes "moves pf h"
  shows "moves pf (NewServer pf h)"
proof (rule movesI)
  fix r b w res b' w'
  assume run: "NewServer pf h r b w = (res, b', w')" and ok: "db_ok (db w)"
  obtain r1 b1 w1 where 1: "RequestLogging (Recovery h) r1 b1 w1 = (res, b', w')" "db w1 = db w"
    using run by (auto simp: NewServer_def RequestID_eq split: if_splits)
  obtain q b2 w2 where 2: "h r1 (push_layer (Recorder 200 False) b1) w1 = (q, b2, w2)"
    by (metis prod.exhaust)
  have "db w' = db w2"
    using 1(1) 2 by (auto simp: RequestLogging_def Recovery_def emit_def split: go.splits prod.splits)
  with movesD [OF assms 2] 1(2) ok show "db_steps pf (db w) (db w') \<and> db_ok (db w')" by simp
qed

lemma order_service_moves:
  assumes "\<And>r b w. db (snd (snd (metrics r b w))) = db w"
  shows "moves pf (order_service pf metrics)"
  unfolding order_service_def
  using moves_same [of metrics, OF assms]
  by (intro moves_NewServer moves_ServeMux)
     (auto simp: service_routes_def Register_def Route_def
       intro: moves_Require moves_Get moves_Health moves_Ready)

section \<open>The invariant across the tables\<close>

definition done_rows :: "database \<Rightarrow> key_row list" where
  "done_rows d = filter (\<lambda>r. k_state r = ''completed'') (idempotency_keys d)"

definition accepted_body :: "string \<Rightarrow> string" where
  "accepted_body oid = encode (result_json \<lparr>cr_order_id = oid, cr_status = ''pending''\<rparr>)"

text \<open>
  Orders, completed keys and \<open>OrderCreated\<close> events correspond one to one, and a completed key
  stores the response that announced its order.
\<close>

definition paired :: "database \<Rightarrow> bool" where
  "paired d \<longleftrightarrow>
    mset (map k_resource_id (done_rows d)) = mset (map or_id (orders d)) \<and>
    mset (map ev_aggregate_id (outbox_events d)) = mset (map or_id (orders d)) \<and>
    list_all (\<lambda>r. k_status_code r = 202 \<and>
      k_response_body r = Some (accepted_body (k_resource_id r))) (done_rows d)"

lemma paired_empty: "paired empty_db"
  by (simp add: paired_def done_rows_def empty_db_def)

text \<open>An order named by a completed key exists once, and so does its event.\<close>

lemma done_order_once:
  assumes "key_store_of d k = Some (Done h oid code body)" and "db_ok d" and "paired d"
  shows "count_list (map or_id (orders d)) oid = 1" and "count_list (map ev_aggregate_id (outbox_events d)) oid = 1"
proof -
  obtain row where "row \<in> set (done_rows d)" "k_resource_id row = oid"
    using assms(1) by (auto simp: key_store_Done done_rows_def dest: find_row_SomeD)
  then have "oid \<in># mset (map k_resource_id (done_rows d))" by auto
  with assms(3) have "oid \<in> set (map or_id (orders d))" by (simp only: paired_def set_mset_mset)
  moreover have "distinct (map or_id (orders d))" using assms(2) by (simp add: db_ok_def)
  ultimately show one: "count_list (map or_id (orders d)) oid = 1" by (simp add: distinct_count_one)
  have "mset (map ev_aggregate_id (outbox_events d)) = mset (map or_id (orders d))"
    using assms(3) by (simp only: paired_def)
  with one show "count_list (map ev_aggregate_id (outbox_events d)) oid = 1" by (metis count_mset)
qed

lemma replay_paired:
  assumes "Claim k h w = (Ok (OutcomeReplay, rec), w')" and "paired (db w)"
  shows "rec_status_code rec = 202 \<and> rec_response_body rec = accepted_body (rec_resource_id rec)"
proof -
  obtain row where "row \<in> set (done_rows (db w))" "k_resource_id row = rec_resource_id rec"
    "k_status_code row = rec_status_code rec" "rec_response_body (record_of row) = rec_response_body rec"
    using Claim_replays [OF assms(1)] by (auto simp: key_store_Done done_rows_def dest: find_row_SomeD)
  with assms(2) show ?thesis by (auto simp: paired_def list_all_iff record_of_def)
qed

lemma paired_cong:
  "done_rows d' = done_rows d \<Longrightarrow> map or_id (orders d') = map or_id (orders d) \<Longrightarrow>
     map ev_aggregate_id (outbox_events d') = map ev_aggregate_id (outbox_events d) \<Longrightarrow>
     paired d \<Longrightarrow> paired d'"
  by (simp add: paired_def)

lemma done_rows_complete:
  assumes "distinct (map k_key rows)" and "r \<in> set rows" and "claimed_by k r"
  shows "mset (filter (\<lambda>r. k_state r = ''completed'') (update_rows (claimed_by k) (complete_row c) rows)) =
    add_mset (complete_row c r) (mset (filter (\<lambda>r. k_state r = ''completed'') rows))"
  using assms
proof (induction rows)
  case (Cons x rows)
  have state: "k_state (complete_row c y) = ''completed''" for y
    by (simp add: complete_row_def)
  show ?case
  proof (cases "r = x")
    case True
    then have "\<not> claimed_by k y" if "y \<in> set rows" for y
      using that Cons.prems by (auto simp: claimed_by_def image_iff)
    then have "update_rows (claimed_by k) (complete_row c) rows = rows"
      by (simp add: update_rows_def map_idI)
    moreover have "k_state x = ''in_progress''" using True Cons.prems(3) by (simp add: claimed_by_def)
    ultimately show ?thesis
      using True Cons.prems(3) by (simp add: update_rows_Cons state)
  next
    case False
    then have "r \<in> set rows" using Cons.prems by simp
    moreover from this have "\<not> claimed_by k x"
      using Cons.prems by (auto simp: claimed_by_def image_iff)
    ultimately show ?thesis using Cons by (simp add: update_rows_Cons)
  qed
qed simp

lemma done_rows_release:
  "filter (\<lambda>r. k_state r = ''completed'') (delete_rows (claimed_by k) rows) =
     filter (\<lambda>r. k_state r = ''completed'') rows"
  by (induction rows) (auto simp: delete_rows_def claimed_by_def)

lemma stored_paired:
  assumes "stored pf now ord [created_event ord eid] (completion_for k ord) d d'"
    and "k \<noteq> []" and "o_status ord = StatusPending" and "db_ok d" and "paired d"
  shows "paired d'"
proof -
  obtain cp where cp: "completion_for k ord = Some cp" "cp_resource_id cp = o_id ord"
      "cp_status_code cp = 202" "cp_response_body cp = accepted_body (o_id ord)" "cp_key cp = k"
    using assms(2,3) by (auto simp: completion_for_def accepted_body_def result_of_def)
  from assms(1) cp have "spec_complete cp (key_store_of d) \<noteq> None" by (auto simp: stored_def)
  then obtain h where "key_store_of d k = Some (Claimed h)"
    using cp(5) by (auto simp: spec_complete_def split: option.splits key_state.splits)
  then obtain r where r: "find_row k_key k (idempotency_keys d) = Some r" "k_state r = ''in_progress''"
    using key_store_Claimed [OF assms(4)] by blast
  then have "r \<in> set (idempotency_keys d)" "claimed_by k r"
    using find_row_SomeD [OF r(1)] by (auto simp: claimed_by_def)
  from done_rows_complete [OF db_ok_keys [OF assms(4)] this, of cp] cp(1,5) assms(1)
  have done': "mset (done_rows d') = add_mset (complete_row cp r) (mset (done_rows d))"
    by (auto simp: stored_def done_rows_def completed_keys_def)
  have fields: "k_resource_id (complete_row cp r) = o_id ord"
      "k_status_code (complete_row cp r) = 202"
      "k_response_body (complete_row cp r) = Some (accepted_body (o_id ord))"
    using cp by (simp_all add: complete_row_def)
  have orders': "orders d' = orders d @ [order_row_of now ord]"
    and events': "\<exists>p. outbox_events d' = outbox_events d @ [new_event_row now (created_event ord eid) p]"
    using assms(1) by (auto simp: stored_def list_all2_Cons1)
  have "set (done_rows d') = insert (complete_row cp r) (set (done_rows d))"
    using arg_cong [OF done', of set_mset] by simp
  moreover have "mset (map k_resource_id (done_rows d')) =
      add_mset (o_id ord) (mset (map k_resource_id (done_rows d)))"
    using done' fields(1) by simp
  ultimately show ?thesis
    using assms(5) orders' events' fields
    by (auto simp: paired_def list_all_iff new_event_row_def created_event_def order_row_of_def)
qed

lemma db_step_db_ok:
  assumes "db_step pf d d'" and "db_ok d"
  shows "db_ok d'"
  using assms
proof (induction rule: db_step.induct)
  case (publish_step d f opts publish now d')
  have step: "f x = x \<or> attempted pf opts publish now x (f x)" if "x \<in> set (outbox_events d)" for x
    using publish_step.hyps(1) [OF that] .
  show ?case
    unfolding publish_step.hyps(2)
  proof (rule db_ok_set_events [OF publish_step.prems])
    show "map ev_id (map f (outbox_events d)) = map ev_id (outbox_events d)"
      using step attempted_key by fastforce
    show "list_all event_row_ok (map f (outbox_events d))"
      using publish_step.prems step attempted_row_ok by (fastforce simp: db_ok_def list_all_iff)
  qed
qed (auto dest: db_ok_sql_claim db_ok_sql_release)

lemma db_step_paired:
  assumes "db_step pf d d'" and "db_ok d" and "paired d"
  shows "paired d'"
  using assms
proof (induction rule: db_step.induct)
  case (claim_step now k h d d')
  then show ?case
    by (intro paired_cong [OF _ _ _ claim_step.prems(2)])
       (auto simp: sql_claim_def done_rows_def new_key_row_def split: option.splits)
next
  case (release_step k d d')
  then show ?case
    by (intro paired_cong [OF _ _ _ release_step.prems(2)])
       (auto simp: sql_release_def done_rows_def done_rows_release)
next
  case (create_step now ord eid k d d')
  then show ?case using stored_paired by blast
next
  case (publish_step d f opts publish now d')
  have "ev_aggregate_id (f x) = ev_aggregate_id x" if "x \<in> set (outbox_events d)" for x
    using publish_step.hyps(1) [OF that]
    by (auto simp: attempted_def published_row_def failed_row_def)
  then show ?case
    by (intro paired_cong [OF _ _ _ publish_step.prems(2)])
       (simp_all add: publish_step.hyps(2) set_events_def done_rows_def)
qed

lemma db_steps_invariant:
  "db_steps pf d d' \<Longrightarrow> db_ok d \<Longrightarrow> paired d \<Longrightarrow> db_ok d' \<and> paired d'"
  by (induction rule: rtranclp_induct) (auto dest: db_step_db_ok db_step_paired)

section \<open>What an answer means\<close>

lemma refusal_codes: "code \<in> {400, 404, 409, 422, 500} \<Longrightarrow> final_code code \<and> body_allowed code \<and> code \<noteq> 202"
  by (auto simp: final_code_def informational_def body_allowed_def)

lemma WriteError_refuses:
  "unsent b \<Longrightarrow> code \<in> {400, 404, 409, 422, 500} \<Longrightarrow>
     WriteError code c m d b = (Ok (), answered code (encode (error_json c m d)) b)"
  using refusal_codes by (intro WriteError_unsent) auto

lemma writeDomainError_unsent:
  assumes "unsent b"
  obtains code body where "writeDomainError e b = (Ok (), answered code body b)"
    and "code \<in> {400, 404, 422, 500}"
proof -
  have "\<exists>code c m. writeDomainError e b = WriteError code c m None b \<and> code \<in> {400, 404, 422, 500}"
    unfolding writeDomainError_def by simp blast
  then show thesis using WriteError_refuses [OF assms] that by auto
qed

lemma accepted_code: "final_code 202" "body_allowed 202" "fits_int4 202"
  by (simp_all add: final_code_def informational_def body_allowed_def fits_int4_def)

text \<open>
  The three answers of the create handler.  When it refuses or panics the order may be stored all the same:
  the answer to the commit was lost.
\<close>

definition created_order :: "platform \<Rightarrow> int \<Rightarrow> string \<Rightarrow> order \<Rightarrow> database \<Rightarrow> database \<Rightarrow> bool" where
  "created_order pf now k ord d d' \<longleftrightarrow> o_status ord = StatusPending \<and> db_ok d' \<and>
    (\<exists>eid. stored pf now ord [created_event ord eid] (completion_for k ord) d d')"

lemma Create_answers:
  assumes "Create (service_execute pf) r b w = (q, b', w')" and "unsent b" and "db_ok (db w)"
    and "cx_idempotency_key (rq_ctx r) = Some k" and "k \<noteq> []"
  obtains (accepted) ord where "q = Ok ()" and "b' = answered 202 (accepted_body (o_id ord)) b"
      and "created_order pf (clock w) k ord (db w) (db w')"
  | (refused) code body where "q = Ok ()" and "b' = answered code body b"
      and "code \<in> {400, 404, 422, 500}"
      and "db w' = db w \<or> (\<exists>ord. created_order pf (clock w) k ord (db w) (db w'))"
  | (panicked) p where "q = Panic p" and "b' = b"
      and "db w' = db w \<or> (\<exists>ord. created_order pf (clock w) k ord (db w) (db w'))"
proof (cases "request_of_body r")
  case None
  with assms(1,2) refused [of 400] show thesis
    by (auto simp: Create_def reply_def WriteError_refuses)
next
  case (Some cr)
  obtain x w1 where x: "service_execute pf (command_of cr) k w = (x, w1)"
    by (cases "service_execute pf (command_of cr) k w")
  have "(\<not> is_ok x \<and> db w1 = db w) \<or> (\<exists>ord. created_order pf (clock w) k ord (db w) (db w1) \<and>
      (\<not> is_ok x \<or> x = Ok (result_of ord)))"
    using x [unfolded service_execute_def] assms(3)
  proof (cases rule: service.Execute_cases)
    case (created items oid eid)
    then have "created_order pf (clock w) k (pending_order oid (command_of cr) (Currency NewStatic) items) (db w) (db w1)"
      by (auto simp: created_order_def pending_order_def)
    with created(4) show ?thesis by blast
  qed auto
  then have out: "is_ok x \<Longrightarrow> \<exists>ord. created_order pf (clock w) k ord (db w) (db w1) \<and> x = Ok (result_of ord)"
    "db w1 = db w \<or> (\<exists>ord. created_order pf (clock w) k ord (db w) (db w1))" by auto
  show thesis
  proof (cases x)
    case (Err e)
    obtain code body where "writeDomainError e b = (Ok (), answered code body b)"
      "code \<in> {400, 404, 422, 500}"
      using assms(2) by (rule writeDomainError_unsent)
    with assms(1,4) Some x Err out(2) show thesis
      by (intro refused) (auto simp: Create_def KeyFromContext_def reply_def)
  next
    case (Panic p)
    with assms(1,4) Some x out(2) show thesis
      by (intro panicked) (auto simp: Create_def KeyFromContext_def)
  next
    case (Ok result)
    with out(1) obtain ord where ord: "created_order pf (clock w) k ord (db w) (db w1)" "result = result_of ord"
      by auto
    then have "encode (result_json result) = accepted_body (o_id ord)"
      by (simp add: accepted_body_def result_of_def created_order_def)
    with assms(1,2,4) Some x Ok ord(1) show thesis
      by (intro accepted) (auto simp: Create_def KeyFromContext_def reply_def WriteJSON_unsent accepted_code)
  qed
qed

lemma pop_answered [simp]: "pop_layer (answered code body (push_layer l b)) = answered code body b"
  by (simp add: pop_layer_def answered_def push_layer_def set_header_def Let_def)

lemma pop_push [simp]: "pop_layer (push_layer l b) = b"
  by (simp add: pop_layer_def push_layer_def)

lemma top_answered [simp]: "top_status (answered code body (push_layer (Capture 0) b)) = code"
  by (simp add: top_status_def push_layer_def)

text \<open>The ways a request goes, with what the client is told.\<close>

lemma Require_run:
  assumes "Require pf nxt r b w = (q, b', w')" and "unsent b"
  obtains (rejected) body where "w' = w" and "q = Ok ()" and "b' = answered 400 body b"
      and "header_get (rq_header r) headerName = [] \<or> read_body r = None \<or>
        (\<exists>body e. read_body r = Some body \<and> Hash pf body = Err e)"
  | (unclaimed) body h x bd where "header_get (rq_header r) headerName \<noteq> []"
      and "read_body r = Some body" and "Hash pf body = Ok h"
      and "Claim (header_get (rq_header r) headerName) h w = (x, w')" and "\<not> is_ok x"
      and "(q = Ok () \<and> b' = answered 500 bd b) \<or> (\<exists>p. q = Panic p \<and> b' = b)"
  | (replayed) body h rec where "header_get (rq_header r) headerName \<noteq> []"
      and "read_body r = Some body" and "Hash pf body = Ok h"
      and "Claim (header_get (rq_header r) headerName) h w = (Ok (OutcomeReplay, rec), w')"
      and "(q, b') = write_replay rec b"
  | (busy) body h rec where "header_get (rq_header r) headerName \<noteq> []"
      and "read_body r = Some body" and "Hash pf body = Ok h"
      and "Claim (header_get (rq_header r) headerName) h w = (Ok (OutcomeInProgress, rec), w')"
      and "q = Ok ()" and "b' = answered 202 processing_body b"
  | (reused) body h rec bd where "header_get (rq_header r) headerName \<noteq> []"
      and "read_body r = Some body" and "Hash pf body = Ok h"
      and "Claim (header_get (rq_header r) headerName) h w = (Ok (OutcomeConflict, rec), w')"
      and "q = Ok ()" and "b' = answered 409 bd b"
  | (owned) body h rec w1 where "header_get (rq_header r) headerName \<noteq> []"
      and "read_body r = Some body" and "Hash pf body = Ok h"
      and "Claim (header_get (rq_header r) headerName) h w = (Ok (OutcomeOwned, rec), w1)"
      and "run_owned Release nxt (header_get (rq_header r) headerName)
             (r\<lparr>rq_body := body, rq_body_fails := None\<rparr>) b w1 = (q, b', w')"
proof -
  let ?k = "header_get (rq_header r) headerName"
  have run: "Require_with Claim Release (Hash pf) nxt r b w = (q, b', w')"
    using assms(1) by (simp add: Require_def)
  show thesis
  proof (cases "?k = [] \<or> read_body r = None \<or> (\<exists>body e. read_body r = Some body \<and> Hash pf body = Err e)")
    case True
    then consider "?k = []" | "?k \<noteq> []" "read_body r = None"
      | body e where "?k \<noteq> []" "read_body r = Some body" "Hash pf body = Err e"
      by (cases "?k = []"; cases "read_body r") auto
    then show thesis
      using run WriteError_refuses [OF assms(2), of 400] rejected
      by cases (auto simp: Require_with_def reply_def)
  next
    case False
    then obtain body h where good: "?k \<noteq> []" "read_body r = Some body" "Hash pf body = Ok h"
      using Hash_cases [of pf] by (cases "read_body r") (auto, metis)
    obtain x w1 where c: "Claim ?k h w = (x, w1)" by (cases "Claim ?k h w")
    show thesis
    proof (cases x)
      case (Ok y)
      then obtain oc rec where "x = Ok (oc, rec)" by (cases y) auto
      with run good c assms(2) show thesis
        by (cases oc)
           (auto simp: Require_with_def reply_def processing_def WriteJSON_unsent accepted_code
             WriteError_refuses processing_body_def intro: owned replayed busy reused split: prod.splits)
    qed (use run good c assms(2) unclaimed [OF good, of x] in
        \<open>auto simp: Require_with_def reply_def WriteError_refuses\<close>)
  qed
qed

text \<open>The answers of \<open>POST /orders\<close> under a key nobody holds.\<close>

lemma Require_answers:
  assumes "Require pf (Create (service_execute pf)) r b w = (q, b', w')" and "unsent b"
    and "db_ok (db w)" and k: "header_get (rq_header r) headerName = k" and "keys w k = None"
  obtains (accepted) body h oid where "q = Ok ()" and "b' = answered 202 (accepted_body oid) b"
      and "read_body r = Some body" and "Hash pf body = Ok h"
      and "keys w' k = Some (Done h oid 202 (accepted_body oid))"
      and "oid \<in> or_id ` set (orders (db w'))"
  | (refused) code body where "b' = answered code body b" and "final_code code" and "code \<noteq> 202"
  | (panicked) p where "q = Panic p" and "b' = b"
  using assms(1,2)
proof (cases rule: Require_run)
  case (rejected body)
  with refused [of 400] refusal_codes [of 400] show thesis by simp
next
  case (unclaimed body h x bd)
  with refused [of 500] refusal_codes [of 500] panicked show thesis by auto
next
  case (replayed body h rec)
  with Claim_decides [OF _ assms(3)] assms(5) k show thesis by (force simp: spec_claim_def)
next
  case (busy body h rec)
  with Claim_decides [OF _ assms(3)] assms(5) k show thesis by (force simp: spec_claim_def)
next
  case (reused body h rec)
  with Claim_decides [OF _ assms(3)] assms(5) k show thesis by (force simp: spec_claim_def)
next
  case (owned body h rec w1)
  note good = owned(1) [unfolded k] and c = owned(4) [unfolded k] and run = owned(5) [unfolded k]
  have claimed: "keys w1 = (keys w)(k \<mapsto> Claimed h)"
    using Claim_decides [OF c assms(3)] assms(5) by (auto simp: spec_claim_def)
  have ok1: "db_ok (db w1)" using db_ok_Claim [OF c assms(3)] .
  let ?r = "r\<lparr>rq_body := body, rq_body_fails := None\<rparr>"
  let ?r' = "?r\<lparr>rq_ctx := (rq_ctx ?r)\<lparr>cx_idempotency_key := Some k\<rparr>\<rparr>"
  let ?b = "push_layer (Capture 0) b"
  obtain q2 b2 w2 where n: "Create (service_execute pf) ?r' ?b w1 = (q2, b2, w2)"
    by (metis prod.exhaust)
  have b': "b' = pop_layer b2"
    using run n by (auto simp: run_owned_def split: if_splits go.splits prod.splits)
  have fresh: "unsent ?b" and ctx: "cx_idempotency_key (rq_ctx ?r') = Some k"
    using assms(2) by simp_all
  from n fresh ok1 ctx good show thesis
  proof (cases rule: Create_answers)
    case (accepted ord)
    then have succ: "succeeded q2 b2" by (simp add: succeeded_def)
    then have w': "w' = w2" "q = Ok ()" using run n accepted(1) by (auto simp: run_owned_def)
    obtain cp where cp: "completion_for k ord = Some cp" "cp_key cp = k" "cp_status_code cp = 202"
        "cp_resource_id cp = o_id ord" "cp_response_body cp = accepted_body (o_id ord)"
      using good accepted(3) by (auto simp: created_order_def completion_for_def accepted_body_def result_of_def)
    from accepted(3) cp(1) obtain evs where
      st: "stored pf (clock w1) ord evs (Some cp) (db w1) (db w2)" by (auto simp: created_order_def)
    from stored_keys [OF st ok1] cp claimed accepted_code
    have "keys w2 k = Some (Done h (o_id ord) 202 (accepted_body (o_id ord)))"
      by (auto simp: spec_complete_def fun_upd_def dest!: fun_cong [of _ _ k] split: if_splits)
    moreover have "o_id ord \<in> or_id ` set (orders (db w2))"
      using st by (auto simp: stored_def order_row_of_def)
    ultimately show thesis
      using that(1) [OF w'(2) _ owned(2,3)] b' accepted(2) w'(1) by simp
  next
    case (refused code bd)
    with b' that(2) [of code bd] refusal_codes [of code] show thesis by auto
  next
    case (panicked p)
    obtain rq w3 where rel: "Release k w2 = (rq, w3)" by (cases "Release k w2")
    have "\<exists>p. q = Panic p"
      using run n panicked(1) rel by (auto simp: run_owned_def succeeded_def split: go.splits)
    with that(3) b' panicked(2) show thesis by auto
  qed
qed

text \<open>Through the middleware chain.\<close>

lemma post_orders_route:
  assumes "rq_method r = ''POST''" and "rq_path r = ''/orders''"
  shows "ServeMux (service_routes pf metrics) [] r b w = Require pf (Create (service_execute pf)) r b w"
  using assms
  by (simp add: service_routes_def Register_def Route_def match_path_def method_ok_def)

lemma finish_answered [simp]:
  "rs_status (finish (pop_layer (answered code body b))) = code"
  "rs_body (finish (pop_layer (answered code body b))) = body"
  by (simp_all add: finish_def answered_def pop_layer_def set_header_def Let_def)

definition front_request :: "platform \<Rightarrow> request \<Rightarrow> world \<Rightarrow> request" where
  "front_request pf r w =
    r\<lparr>rq_ctx := (rq_ctx r)\<lparr>cx_request_id := Some (request_id pf r w)\<rparr>\<rparr>"

definition front_rw :: "platform \<Rightarrow> request \<Rightarrow> world \<Rightarrow> rw" where
  "front_rw pf r w =
    push_layer (Recorder 200 False) (set_header ''X-Request-Id'' (request_id pf r w) fresh_rw)"

definition front_world :: "request \<Rightarrow> world \<Rightarrow> world" where
  "front_world r w =
    (if header_get (rq_header r) ''X-Request-Id'' = []
     then w\<lparr>cancelled := False, uuids := Suc (uuids w)\<rparr> else w\<lparr>cancelled := False\<rparr>)"

lemma front_simps [simp]:
  "rq_header (front_request pf r w) = rq_header r" "rq_body (front_request pf r w) = rq_body r"
  "rq_body_fails (front_request pf r w) = rq_body_fails r"
  "rq_method (front_request pf r w) = rq_method r" "rq_path (front_request pf r w) = rq_path r"
  "db (front_world r w) = db w" "script (front_world r w) = script w"
  "clock (front_world r w) = clock w" "cancelled (front_world r w) = False"
  "unsent (front_rw pf r w)" "read_body (front_request pf r w) = read_body r"
  by (simp_all add: front_request_def front_world_def front_rw_def read_body_def split: option.split)

lemma serve_front:
  assumes "h (front_request pf r w) (front_rw pf r w) (front_world r w) = (q, b, w1)"
    and "\<And>e. q \<noteq> Err e"
  shows "\<exists>resp w2. serve (NewServer pf h) r w = (Some resp, w2) \<and> db w2 = db w1 \<and>
    calm w2 = calm w1 \<and> uuids w2 = uuids w1 \<and> (q = Ok () \<longrightarrow> resp = finish (pop_layer b)) \<and>
    (rw_sent b \<noteq> None \<longrightarrow> rs_status resp = fst (the (rw_sent b))) \<and>
    (q \<noteq> Ok () \<and> unsent b \<longrightarrow> rs_status resp = 500)"
proof -
  have rid: "request_id pf r (w\<lparr>cancelled := False\<rparr>) = request_id pf r w"
    by (simp add: request_id_def Let_def)
  have args: "serve (NewServer pf h) r w =
    (case RequestLogging (Recovery h) (front_request pf r w)
            (set_header ''X-Request-Id'' (request_id pf r w) fresh_rw) (front_world r w) of
       (Ok _, b, w1) \<Rightarrow> (Some (finish b), w1) | (_, b, w1) \<Rightarrow> (None, w1))"
    by (simp add: serve_def NewServer_def RequestID_eq rid front_request_def front_world_def)
  show ?thesis
  proof (cases q)
    case (Ok u)
    with assms(1) show ?thesis
      by (auto simp: args RequestLogging_def Recovery_def front_rw_def emit_def finish_def
          pop_layer_def calm_def)
  next
    case (Err e)
    with assms(2) [of e] show ?thesis by simp
  next
    case (Panic p)
    obtain wq b2 where b2: "WriteError 500 ''internal_error'' ''internal error'' None b = (wq, b2)"
      by (cases "WriteError 500 ''internal_error'' ''internal error'' None b")
    have "wq = Ok ()" using WriteError_valid [OF b2] by simp
    moreover have "rw_sent b \<noteq> None \<Longrightarrow> rw_sent b2 = rw_sent b"
      using wrote_sent [OF wrote_WriteError [OF b2]] by auto
    moreover have "unsent b \<Longrightarrow> b2 = answered 500 (encode (error_json ''internal_error'' ''internal error'' None)) b"
      using WriteError_refuses [of b 500] b2 by simp
    ultimately show ?thesis
      using Panic assms(1) b2
      by (auto simp: args RequestLogging_def Recovery_def front_rw_def [symmetric] emit_def Let_def)
         (auto simp: finish_def pop_layer_def calm_def)
  qed
qed

lemma post_orders_accepted:
  assumes "rq_method r = ''POST''" and "rq_path r = ''/orders''" and "db_ok (db w)"
    and "header_get (rq_header r) headerName = k" and "keys w k = None"
    and "serve (order_service pf metrics) r w = (Some resp, w')" and "rs_status resp = 202"
  obtains body h oid where "read_body r = Some body" and "Hash pf body = Ok h"
    and "keys w' k = Some (Done h oid 202 (rs_body resp))" and "rs_body resp = accepted_body oid"
    and "oid \<in> or_id ` set (orders (db w'))" and "db_ok (db w')"
proof -
  let ?h = "ServeMux (service_routes pf metrics) []"
  obtain q b w1 where run: "Require pf (Create (service_execute pf)) (front_request pf r w)
      (front_rw pf r w) (front_world r w) = (q, b, w1)" by (metis prod.exhaust)
  then have h: "?h (front_request pf r w) (front_rw pf r w) (front_world r w) = (q, b, w1)"
    using post_orders_route [of "front_request pf r w"] assms(1,2) by simp
  have "q \<noteq> Err e" for e
    using http_handler.returns [OF post_orders_handler run] .
  from serve_front [where h = ?h, OF h this] assms(6) have
    out: "db w' = db w1" "q = Ok () \<Longrightarrow> resp = finish (pop_layer b)"
      "rw_sent b \<noteq> None \<Longrightarrow> rs_status resp = fst (the (rw_sent b))"
      "q \<noteq> Ok () \<Longrightarrow> unsent b \<Longrightarrow> rs_status resp = 500"
    by (auto simp: order_service_def)
  have ok1: "db_ok (db w1)" using Require_steps [OF run] assms(3) by simp
  have "unsent (front_rw pf r w)" "db_ok (db (front_world r w))"
    "header_get (rq_header (front_request pf r w)) headerName = k" "keys (front_world r w) k = None"
    using assms(3-5) by simp_all
  from run this show thesis
  proof (cases rule: Require_answers)
    case (accepted body h oid)
    then show thesis using out(1,2) ok1 by (intro that [of body h oid]) auto
  next
    case (refused code bd)
    from answered_simps(3) obtain hdr where
      "rw_sent (answered code bd (front_rw pf r w)) = Some (code, hdr)" by blast
    with refused out(3) assms(7) show thesis by simp
  next
    case (panicked p)
    then show thesis using out(4) assms(7) by simp
  qed
qed

section \<open>What holds in every reachable state\<close>

lemma db_step_done:
  assumes "db_step pf d d'" and "db_ok d" and "key_store_of d k = Some (Done h oid code body)"
  shows "key_store_of d' k = Some (Done h oid code body)"
  using assms
proof (induction rule: db_step.induct)
  case (claim_step now k' h' d d')
  have "key_store_of d k' = None"
    using claim_step.hyps sql_claim_old [of d k' _ now h'] by (cases "key_store_of d k'") auto
  with sql_claim_new [OF this, of now h'] claim_step show ?case by auto
next
  case (release_step k' d d')
  from sql_release_refines [OF release_step.prems(1) release_step.hyps] release_step.prems(2)
  show ?case by (auto simp: spec_release_def split: option.splits key_state.splits)
next
  case (create_step now ord eid k' d d')
  then obtain cp where cp: "completion_for k' ord = Some cp" "cp_status_code cp = 202"
    by (auto simp: completion_for_def)
  from stored_keys [OF create_step.hyps(1) [unfolded cp(1)] create_step.prems(1)] cp(2)
    create_step.prems(2) accepted_code(3)
  show ?case
    by (auto simp: spec_complete_def dest!: sym [of _ "key_store_of d'"]
        split: option.splits key_state.splits if_splits)
next
  case (publish_step d f opts publish now d')
  then show ?case by (simp add: key_store_of_def set_events_def)
qed

lemma db_steps_done:
  "db_steps pf d d' \<Longrightarrow> db_ok d \<Longrightarrow> key_store_of d k = Some (Done h oid code body) \<Longrightarrow>
     key_store_of d' k = Some (Done h oid code body) \<and> db_ok d'"
  by (induction rule: rtranclp_induct) (auto dest: db_step_done db_step_db_ok)

text \<open>One request and one drain, in these steps.\<close>

lemma serve_steps:
  assumes "\<And>r b w. db (snd (snd (metrics r b w))) = db w" and "db_ok (db w)"
  shows "db_steps pf (db w) (db (snd (serve (order_service pf metrics) r w)))"
proof -
  let ?w = "w\<lparr>cancelled := False\<rparr>"
  obtain q b w1 where run: "order_service pf metrics r fresh_rw ?w = (q, b, w1)"
    by (metis prod.exhaust)
  have "db (snd (serve (order_service pf metrics) r w)) = db w1"
    using run by (simp add: serve_def split: go.split)
  with movesD [OF order_service_moves [of metrics, OF assms(1)] run] assms(2) show ?thesis by simp
qed

lemma drainBatch_steps:
  assumes "sink publish" and "drainBatch pf opts publish locked w = (r, w')" and "db_ok (db w)"
  shows "db_steps pf (db w) (db w')"
proof (rule sink.drainBatch_cases [OF assms])
  fix f
  assume f: "db w' = set_events (map f (outbox_events (db w))) (db w)"
    and each: "\<And>x. x \<in> set (outbox_events (db w)) \<Longrightarrow>
      if x \<in> set (batch_rows (clock w) locked (po_BatchSize opts) (outbox_events (db w)))
      then attempted pf opts publish (clock w) x (f x) else f x = x"
  have "f x = x \<or> attempted pf opts publish (clock w) x (f x)"
    if "x \<in> set (outbox_events (db w))" for x
    using each [OF that] by (auto split: if_splits)
  from publish_step [OF this f] show ?thesis by blast
qed simp

lemma run_ticks_steps:
  assumes "sink publish" and "run_ticks pf opts publish locked ticks w = (r, w')" and "db_ok (db w)"
  shows "db_steps pf (db w) (db w')"
  using assms(2,3)
proof (induction ticks arbitrary: w)
  case (Cons t ticks)
  obtain q w1 where q: "drainBatch pf opts publish locked (w\<lparr>clock := t\<rparr>) = (q, w1)"
    by (cases "drainBatch pf opts publish locked (w\<lparr>clock := t\<rparr>)")
  have 1: "db_steps pf (db w) (db w1)"
    using drainBatch_steps [OF assms(1) q] Cons.prems(2) by simp
  have 2: "db_ok (db w1)" using sink.drainBatch_db_ok [OF assms(1) q] Cons.prems(2) by simp
  have "w' = w \<or> db w' = db w1 \<or> (\<exists>w2. db w2 = db w1 \<and> run_ticks pf opts publish locked ticks w2 = (r, w'))"
    using Cons.prems(1) q by (auto simp: emit_def split: if_splits go.splits)
  with 1 2 Cons.IH show ?case by (metis rtranclp.rtrancl_refl rtranclp_trans)
qed simp

lemma Run_steps:
  assumes "sink publish" and "Run pf opts publish locked ticks w = (r, w')" and "db_ok (db w)"
  shows "db_steps pf (db w) (db w')"
  using assms run_ticks_steps [OF assms(1), of pf opts locked ticks w r w']
  by (auto simp: Run_def split: if_splits)

text \<open>C16: what the service does to its database, fault by fault.  Serving any request, with any faults,
  and any drain of the outbox into any sink take the database through a sequence of the atomic
  steps of \<open>db_step\<close>: claiming a free key, dropping an unfinished claim, storing an order with its
  event and the completion of its claimed key, and attempting events.  Nothing else happens to it.\<close>

theorem service_moves_by_steps:
  assumes "\<And>r b w. db (snd (snd (metrics r b w))) = db w" and "sink publish" and "db_ok (db w)"
  shows "db_steps pf (db w) (db (snd (serve (order_service pf metrics) r w))) \<and>
    db_steps pf (db w) (db (snd (drainBatch pf opts publish locked w)))"
  using serve_steps [of metrics, OF assms(1,3)] drainBatch_steps [OF assms(2) prod.collapse [symmetric] assms(3)]
  by simp

text \<open>C1: exactly one order and one event per completed key, whatever happens.  In every state the
  database can reach by these steps, in any interleaving of concurrent requests and publishers,
  orders, completed keys and \<open>OrderCreated\<close> events are in one-to-one correspondence, the
  constraints of the schema hold, and every completed key stores the 202 that announced its order.\<close>

theorem one_order_one_event_per_key:
  assumes "db_steps pf empty_db d"
  shows "db_ok d \<and> distinct (map or_id (orders d)) \<and>
    mset (map k_resource_id (done_rows d)) = mset (map or_id (orders d)) \<and>
    mset (map ev_aggregate_id (outbox_events d)) = mset (map or_id (orders d)) \<and>
    list_all (\<lambda>r. k_status_code r = 202 \<and>
      k_response_body r = Some (accepted_body (k_resource_id r))) (done_rows d)"
  using db_steps_invariant [OF assms db_ok_empty paired_empty]
  by (simp add: paired_def db_ok_def)

theorem service_moves_by_steps_witness:
  "db_steps sample_platform empty_db (db (snd (serve (order_service sample_platform Health)
     sample_request sample_world)))"
proof -
  have "db (snd (snd (Health r b w))) = db w" for r b w
    by (simp add: Health_def split: prod.split)
  from service_moves_by_steps [of Health, OF this log_sink.sink_axioms sample_db_ok,
      of sample_platform sample_request]
  show ?thesis by (simp add: sample_world_def)
qed

text \<open>What is done stays done.  Along any steps of the database, in any interleaving, a completed key
  keeps its request hash, its resource, its status and its response bytes for ever.\<close>

theorem completed_key_is_final:
  assumes "db_steps pf d d'" and "db_ok d" and "key_store_of d k = Some (Done h oid code body)"
  shows "key_store_of d' k = Some (Done h oid code body)"
  using db_steps_done [OF assms] by simp

definition done_db :: database where
  "done_db = empty_db\<lparr>idempotency_keys :=
     [complete_row sample_completion (new_key_row 0 ''k1'' ''h'')]\<rparr>"

theorem completed_key_is_final_witness:
  "key_store_of (done_db\<lparr>idempotency_keys := idempotency_keys done_db @ [new_key_row 5 ''k2'' ''g'']\<rparr>) ''k1'' =
     Some (Done ''h'' ''ord_1'' 202 ''{}'')"
proof (rule completed_key_is_final)
  have "db_step sample_platform done_db
      (done_db\<lparr>idempotency_keys := idempotency_keys done_db @ [new_key_row 5 ''k2'' ''g'']\<rparr>)"
    by (rule claim_step [of 5 "''k2''" "''g''"])
       (simp add: sql_claim_def done_db_def complete_row_def new_key_row_def)
  then show "db_steps sample_platform done_db
      (done_db\<lparr>idempotency_keys := idempotency_keys done_db @ [new_key_row 5 ''k2'' ''g'']\<rparr>)" by blast
  show "db_ok done_db" by code_simp
  show "key_store_of done_db ''k1'' = Some (Done ''h'' ''ord_1'' 202 ''{}'')" by code_simp
qed

section \<open>Retries\<close>

text \<open>A replay through fresh wrappers.\<close>

lemma write_replay_unsent:
  assumes "unsent b" and "final_code (rec_status_code rec)" and "body_allowed (rec_status_code rec)"
  shows "write_replay rec b =
    (Ok (), answered (rec_status_code rec) (rec_response_body rec)
              (set_header ''Idempotent-Replay'' ''true'' b)
            \<lparr>rw_header := rw_header (set_header ''Idempotent-Replay'' ''true''
                             (set_header ''Content-Type'' ''application/json'' b)),
             rw_sent := Some (rec_status_code rec, rw_header (set_header ''Idempotent-Replay'' ''true''
                             (set_header ''Content-Type'' ''application/json'' b)))\<rparr>)"
proof -
  let ?b = "set_header ''Idempotent-Replay'' ''true'' (set_header ''Content-Type'' ''application/json'' b)"
  have "list_all fresh_layer (rw_layers ?b)" "rw_sent ?b = None" "rw_body ?b = []"
    using assms(1) by (simp_all add: unsent_def set_header_def)
  moreover have "rec_status_code rec \<noteq> 0" using assms(2) by (auto simp: final_code_def)
  ultimately show ?thesis
    using assms(2,3) write_header_fresh [of "rw_layers ?b" ?b "rec_status_code rec"]
      write_recorded [of "rec_status_code rec" "rw_layers ?b"]
    by (simp add: write_replay_def write_header_def write_bytes_def base_write_def answered_def Let_def
        set_header_def)
qed

lemma Require_replays:
  assumes "calm w" and "header_get (rq_header r) headerName = k" and "k \<noteq> []"
    and "read_body r = Some body" and "Hash pf body = Ok h"
    and "keys w k = Some (Done h oid code rb)"
  shows "\<exists>rec. rec_status_code rec = code \<and> rec_response_body rec = rb \<and>
    Require pf nxt r b w = reply (write_replay rec b) w"
proof -
  from assms(6) obtain row where
    "find_row k_key k (idempotency_keys (db w)) = Some row" "k_state row = ''completed''"
    "k_request_hash row = h" "k_status_code row = code" "rec_response_body (record_of row) = rb"
    by (auto simp: key_store_Done)
  with Claim_calm_taken [OF assms(1), of k row h] assms(2-5) show ?thesis
    by (intro exI [of _ "record_of row"]) (simp add: Require_def Require_with_def StateCompleted_def)
qed

text \<open>The requests after the first: the same body, another body, and a readiness probe.\<close>

lemma replay_served:
  assumes "rq_method r = ''POST''" and "rq_path r = ''/orders''" and "calm w"
    and "header_get (rq_header r) headerName = k" and "k \<noteq> []"
    and "read_body r = Some body" and "Hash pf body = Ok h"
    and "keys w k = Some (Done h oid 202 rb)"
  shows "\<exists>resp w'. serve (order_service pf metrics) r w = (Some resp, w') \<and> rs_status resp = 202 \<and>
    rs_body resp = rb \<and> header_get (rs_header resp) ''Idempotent-Replay'' = ''true'' \<and>
    db w' = db w \<and> calm w'"
proof -
  let ?h = "ServeMux (service_routes pf metrics) []"
  let ?r = "front_request pf r w" and ?b = "front_rw pf r w" and ?w = "front_world r w"
  have calm: "calm ?w" using assms(3) by (simp add: calm_def)
  then obtain rec where rec: "rec_status_code rec = 202" "rec_response_body rec = rb"
    "Require pf (Create (service_execute pf)) ?r ?b ?w = reply (write_replay rec ?b) ?w"
    using Require_replays [of ?w ?r k body pf h oid 202 rb] assms(4-8) by auto
  obtain b where b: "write_replay rec ?b = (Ok (), b)"
      "rs_status (finish (pop_layer b)) = 202" "rs_body (finish (pop_layer b)) = rb"
      "header_get (rs_header (finish (pop_layer b))) ''Idempotent-Replay'' = ''true''"
    using write_replay_unsent [of ?b rec] rec(1,2) accepted_code
    by (auto simp: finish_def pop_layer_def answered_def set_header_def Let_def)
  have "?h ?r ?b ?w = (Ok (), b, ?w)"
    using post_orders_route [of ?r] assms(1,2) rec(3) b(1) by (simp add: reply_def)
  from serve_front [where h = ?h, OF this] b(2-4) calm show ?thesis
    by (auto simp: order_service_def)
qed

lemma conflict_served:
  assumes "rq_method r = ''POST''" and "rq_path r = ''/orders''" and "calm w"
    and "header_get (rq_header r) headerName = k" and "k \<noteq> []"
    and "read_body r = Some body" and "Hash pf body = Ok h'" and "h' \<noteq> h"
    and "keys w k = Some (Done h oid code rb)"
  shows "\<exists>resp w'. serve (order_service pf metrics) r w = (Some resp, w') \<and> rs_status resp = 409 \<and>
    db w' = db w \<and> calm w'"
proof -
  let ?h = "ServeMux (service_routes pf metrics) []"
  let ?r = "front_request pf r w" and ?b = "front_rw pf r w" and ?w = "front_world r w"
  have calm: "calm ?w" using assms(3) by (simp add: calm_def)
  from assms(9) obtain row where row: "find_row k_key k (idempotency_keys (db ?w)) = Some row"
      "k_request_hash row = h"
    by (auto simp: key_store_Done)
  have "Require pf (Create (service_execute pf)) ?r ?b ?w =
      reply (WriteError 409 ''idempotency_key_reused''
        ''this Idempotency-Key was used with a different request body'' None ?b) ?w"
    using Claim_calm_taken [OF calm row(1), of h'] row(2) assms(4-8)
    by (simp add: Require_def Require_with_def)
  then have "?h ?r ?b ?w = (Ok (), answered 409 (encode (error_json ''idempotency_key_reused''
        ''this Idempotency-Key was used with a different request body'' None)) ?b, ?w)"
    using post_orders_route [of ?r] assms(1,2)
    by (simp add: reply_def WriteError_unsent final_code_def informational_def body_allowed_def)
  from serve_front [where h = ?h, OF this] calm show ?thesis
    by (auto simp: order_service_def)
qed

lemma readyz_served:
  assumes "rq_method r = ''GET''" and "rq_path r = ''/readyz''" and "calm w"
  shows "\<exists>resp w'. serve (order_service pf metrics) r w = (Some resp, w') \<and> rs_status resp = 200 \<and>
    db w' = db w \<and> calm w' \<and> uuids w \<le> uuids w'"
proof -
  let ?h = "ServeMux (service_routes pf metrics) []"
  let ?r = "front_request pf r w" and ?b = "front_rw pf r w" and ?w = "front_world r w"
  have calm: "calm ?w" using assms(3) by (simp add: calm_def)
  have "?h ?r ?b ?w = (Ok (), answered 200 (encode (JObj [(''status'', JStr ''ready'')])) ?b, ?w)"
    using assms(1,2) calm
    by (simp add: service_routes_def Register_def Route_def match_path_def method_ok_def Ready_def ping_def
        driver_call_calm run_stmt_def WriteJSON_unsent final_code_def informational_def body_allowed_def)
  moreover have "uuids w \<le> uuids ?w" by (simp add: front_world_def)
  ultimately show ?thesis using serve_front [where h = ?h, of pf r w "Ok ()"] calm
    by (fastforce simp: order_service_def)
qed

section \<open>A good order is accepted\<close>

lemma Claim_calm_free:
  assumes "calm w" and "keys w k = None"
  shows "\<exists>d. Claim k h w = (Ok (OutcomeOwned, claimed_record k h), w\<lparr>db := d\<rparr>) \<and>
    key_store_of d = (keys w)(k \<mapsto> Claimed h) \<and> other_tables d = other_tables (db w)"
  using sql_claim_new [OF assms(2), of "clock w" h] assms(1)
  by (auto simp: Claim_def query_row_def driver_call_calm run_stmt_def other_tables_def)

lemma priced_total:
  assumes "price_items (UnitPrice NewStatic) reqs = Ok items" and "distinct (map sku reqs)"
    and "\<And>it. it \<in> set reqs \<Longrightarrow> 0 < sint (quantity it) \<and> sint (quantity it) < 2 ^ 31"
  shows "0 \<le> sint (Total items)"
    and "list_all (\<lambda>it. item_row_ok (item_row_of oid it)) items" and "distinct (map sku items)"
proof -
  note priced = price_items_Ok [OF assms(1)]
  show "distinct (map sku items)" using priced assms(2) by simp
  have q: "0 < sint (quantity it) \<and> sint (quantity it) < 2 ^ 31" if "it \<in> set items" for it
  proof -
    have "quantity it \<in> set (map quantity reqs)"
      using that priced by (metis image_eqI list.set_map)
    then show ?thesis using assms(3) by auto
  qed
  have p: "0 \<le> sint (unit_price it) \<and> sint (unit_price it) \<le> 150000" if "it \<in> set items" for it
    using static_pricer.priced_range [OF assms(1) that] .
  have "- (2 ^ 31) \<le> sint (quantity it)" if "it \<in> set items" for it
    using q [OF that] by linarith
  then show "list_all (\<lambda>it. item_row_ok (item_row_of oid it)) items"
    using p q by (auto simp: list_all_iff item_row_ok_def item_row_of_def fits_int4_def)
  have "0 \<le> exact_total items" using p q by (intro exact_total_nonneg) (auto intro: less_imp_le)
  moreover have "exact_total items \<le> int (length items) * (150000 * (2 ^ 31))"
    using p q by (intro exact_total_le) (auto intro: less_imp_le)
  moreover have "length items \<le> 3"
    using catalogue_length [OF assms(1)] priced assms(2) by simp
  ultimately show "0 \<le> sint (Total items)"
    using Total_exact sint_word_of_int_fits [of "exact_total items"] by simp
qed

lemma service_execute_calm:
  assumes "calm w" and "db_ok (db w)"
    and "Validate (cc_customer_id cmd) (cc_payment_method_id cmd) (cc_items cmd) = None"
    and "price_items (UnitPrice NewStatic) (cc_items cmd) = Ok items"
    and "distinct (map sku (cc_items cmd))"
    and "\<And>it. it \<in> set (cc_items cmd) \<Longrightarrow> sint (quantity it) < 2 ^ 31"
    and oid: "oid = ''ord_'' @ pf_uuid pf (uuids w)" and "oid \<notin> or_id ` set (orders (db w))"
    and "pf_uuid pf (Suc (uuids w)) \<notin> ev_id ` set (outbox_events (db w))"
    and "pf_jsonb pf (encode (payload_json (pending_order oid cmd ''NGN'' items))) \<noteq> None"
    and "keys w k = Some (Claimed h)" and "k \<noteq> []"
  shows "\<exists>w'. service_execute pf cmd k w = (Ok \<lparr>cr_order_id = oid, cr_status = ''pending''\<rparr>, w') \<and> calm w'"
proof -
  let ?ord = "pending_order oid cmd ''NGN'' items"
  let ?ev = "created_event ?ord (pf_uuid pf (Suc (uuids w)))"
  let ?w2 = "w\<lparr>uuids := Suc (Suc (uuids w))\<rparr>"
  let ?cp = "\<lparr>cp_key = k, cp_resource_type = ''order'', cp_resource_id = oid, cp_status_code = 202,
      cp_response_body = encode (result_json (result_of ?ord))\<rparr>"
  have pos: "0 < sint (quantity it) \<and> sint (quantity it) < 2 ^ 31" if "it \<in> set (cc_items cmd)" for it
    using assms(3,6) that by (simp add: Validate_None_iff)
  note priced = priced_total [OF assms(4,5) pos]
  have cp: "completion_for k ?ord = Some ?cp"
    using assms(12) by (simp add: completion_for_def pending_order_def)
  have "\<exists>d. Store_CreateOrder pf ?ord [?ev] (Some ?cp) ?w2 = (Ok (), ?w2\<lparr>db := d\<rparr>)"
  proof (rule Store_CreateOrder_calm)
    show "calm ?w2" using assms(1) by (simp add: calm_def)
    show "order_row_ok (order_row_of (clock ?w2) ?ord)"
      using priced(1) by (simp add: order_row_ok_def order_row_of_def pending_order_def order_statuses_def)
    show "list_all (\<lambda>it. item_row_ok (item_row_of (o_id ?ord) it)) (o_items ?ord)"
      "distinct (map sku (o_items ?ord))"
      using priced(2,3) by (simp_all add: pending_order_def)
  qed (use assms accepted_code in \<open>simp_all add: pending_order_def created_event_def\<close>)
  then obtain d where store: "Store_CreateOrder pf ?ord [?ev] (Some ?cp) ?w2 = (Ok (), ?w2\<lparr>db := d\<rparr>)" ..
  have "NewEvent pf ''order'' oid ''OrderCreated'' (VJson (payload_json ?ord)) (w\<lparr>uuids := Suc (uuids w)\<rparr>) =
      (Ok ?ev, ?w2)"
    by (simp add: NewEvent_def new_uuid_def created_event_def pending_order_def)
  with store cp assms(3,4) oid have
    "service_execute pf cmd k w = (Ok \<lparr>cr_order_id = oid, cr_status = ''pending''\<rparr>, ?w2\<lparr>db := d\<rparr>)"
    by (simp add: service_execute_def Execute_def new_order_id_def new_uuid_def Currency_def
        result_of_def) (simp add: pending_order_def)
  moreover have "calm (?w2\<lparr>db := d\<rparr>)" using assms(1) by (simp add: calm_def)
  ultimately show ?thesis by blast
qed

lemma service_execute_creates:
  assumes "service_execute pf cmd k w = (Ok \<lparr>cr_order_id = oid, cr_status = ''pending''\<rparr>, w')"
    and "db_ok (db w)" and "k \<noteq> []" and "keys w k = Some (Claimed h)"
  shows "keys w' k = Some (Done h oid 202 (accepted_body oid)) \<and> oid \<in> or_id ` set (orders (db w')) \<and>
    length (orders (db w')) = Suc (length (orders (db w))) \<and> db_ok (db w')"
  using assms(1,2) unfolding service_execute_def
proof (cases rule: service.Execute_cases)
  case (created items oid' eid)
  let ?ord = "pending_order oid' cmd (Currency NewStatic) items"
  have ids [simp]: "oid' = oid" using created(4) by (simp add: result_of_def pending_order_def)
  obtain cp where cp: "completion_for k ?ord = Some cp" "cp_key cp = k" "cp_status_code cp = 202"
      "cp_resource_id cp = oid" "cp_response_body cp = accepted_body oid"
    using assms(3) by (auto simp: completion_for_def accepted_body_def result_of_def pending_order_def)
  from stored_keys [OF created(3) [unfolded cp(1)] assms(2)] cp assms(4) accepted_code
  have "keys w' k = Some (Done h oid 202 (accepted_body oid))"
    by (auto simp: spec_complete_def fun_upd_def dest!: fun_cong [of _ _ k] split: if_splits)
  moreover have "oid \<in> or_id ` set (orders (db w'))" "length (orders (db w')) = Suc (length (orders (db w)))"
    using created(3) by (auto simp: stored_def order_row_of_def pending_order_def)
  ultimately show ?thesis using created(5) by simp
qed auto

text \<open>Without faults, step by step.\<close>

lemma order_accepted:
  assumes "rq_method r = ''POST''" and "rq_path r = ''/orders''" and "calm w" and "db_ok (db w)"
    and "header_get (rq_header r) headerName = k" and "k \<noteq> []" and "keys w k = None"
    and "read_body r = Some body" and "Hash pf body = Ok h"
    and "request_of_body (r\<lparr>rq_body := body, rq_body_fails := None\<rparr>) = Some q"
    and "cmd = command_of q"
    and "Validate (cc_customer_id cmd) (cc_payment_method_id cmd) (cc_items cmd) = None"
    and "price_items (UnitPrice NewStatic) (cc_items cmd) = Ok items"
    and "distinct (map sku (cc_items cmd))"
    and "list_all (\<lambda>it. sint (quantity it) < 2 ^ 31) (cc_items cmd)"
    and "n = uuids (front_world r w)" and "oid = ''ord_'' @ pf_uuid pf n"
    and "oid \<notin> or_id ` set (orders (db w))"
    and "pf_uuid pf (Suc n) \<notin> ev_id ` set (outbox_events (db w))"
    and "pf_jsonb pf (encode (payload_json (pending_order oid cmd ''NGN'' items))) \<noteq> None"
  shows "\<exists>resp w'. serve (order_service pf metrics) r w = (Some resp, w') \<and>
    rs_status resp = 202 \<and> rs_body resp = accepted_body oid \<and> calm w' \<and>
    keys w' k = Some (Done h oid 202 (accepted_body oid)) \<and> oid \<in> or_id ` set (orders (db w')) \<and>
    length (orders (db w')) = Suc (length (orders (db w))) \<and> db_ok (db w')"
proof -
  let ?r = "front_request pf r w" and ?b = "front_rw pf r w" and ?w = "front_world r w"
  let ?r1 = "?r\<lparr>rq_body := body, rq_body_fails := None\<rparr>"
  let ?r2 = "?r1\<lparr>rq_ctx := (rq_ctx ?r1)\<lparr>cx_idempotency_key := Some k\<rparr>\<rparr>"
  have calm: "calm ?w" using assms(3) by (simp add: calm_def)
  from Claim_calm_free [OF calm, of k h] assms(7) obtain d where
    c: "Claim k h ?w = (Ok (OutcomeOwned, claimed_record k h), ?w\<lparr>db := d\<rparr>)"
      "key_store_of d = (keys w)(k \<mapsto> Claimed h)" "other_tables d = other_tables (db w)"
    by auto
  have okd: "db_ok d" using db_ok_Claim [OF c(1)] assms(4) by simp
  have "\<exists>w'. service_execute pf cmd k (?w\<lparr>db := d\<rparr>) = (Ok \<lparr>cr_order_id = oid, cr_status = ''pending''\<rparr>, w') \<and> calm w'"
    using calm okd assms(6,12-20) c(2,3)
    by (intro service_execute_calm) (auto simp: calm_def other_tables_def list_all_iff)
  then obtain w' where ex: "service_execute pf cmd k (?w\<lparr>db := d\<rparr>) =
      (Ok \<lparr>cr_order_id = oid, cr_status = ''pending''\<rparr>, w')" and calm': "calm w'" by blast
  note created = service_execute_creates [OF ex _ assms(6), of h]
  have "request_of_body ?r2 = request_of_body (r\<lparr>rq_body := body, rq_body_fails := None\<rparr>)"
    by (simp add: request_of_body_def)
  then have "Create (service_execute pf) ?r2 (push_layer (Capture 0) ?b) (?w\<lparr>db := d\<rparr>) =
      (Ok (), answered 202 (accepted_body oid) (push_layer (Capture 0) ?b), w')"
    using assms(10,11) ex
    by (simp add: Create_def KeyFromContext_def reply_def WriteJSON_unsent accepted_code accepted_body_def)
  then have "run_owned Release (Create (service_execute pf)) k ?r1 ?b (?w\<lparr>db := d\<rparr>) =
      (Ok (), answered 202 (accepted_body oid) ?b, w')"
    by (simp add: run_owned_def succeeded_def)
  then have run: "Require pf (Create (service_execute pf)) ?r ?b ?w =
      (Ok (), answered 202 (accepted_body oid) ?b, w')"
    using assms(5,6,8,9) c(1) by (simp add: Require_def Require_with_def)
  let ?h = "ServeMux (service_routes pf metrics) []"
  have "?h ?r ?b ?w = (Ok (), answered 202 (accepted_body oid) ?b, w')"
    using post_orders_route [of ?r] assms(1,2) run by simp
  from serve_front [where h = ?h, OF this] calm' created c(2,3) okd show ?thesis
    by (auto simp: order_service_def other_tables_def)
qed

text \<open>C15: a good order is accepted.  Without faults, a \<open>POST /orders\<close> with an unused key and a JSON body
  that decodes to a valid command for known, distinct skus in quantities below \<open>2 ^ 31\<close>, which the column can
  hold, is answered with a 202 that names a new order, which is stored and on record under the key, provided
  the random ids are new and Postgres accepts the event's payload as \<open>jsonb\<close>.\<close>

theorem good_order_is_accepted:
  assumes "rq_method r = ''POST''" and "rq_path r = ''/orders''" and "calm w" and "db_ok (db w)"
    and "header_get (rq_header r) headerName = k" and "k \<noteq> []" and "keys w k = None"
    and "read_body r = Some body" and "Hash pf body = Ok h"
    and "request_of_body (r\<lparr>rq_body := body, rq_body_fails := None\<rparr>) = Some q"
    and "cmd = command_of q"
    and "Validate (cc_customer_id cmd) (cc_payment_method_id cmd) (cc_items cmd) = None"
    and "price_items (UnitPrice NewStatic) (cc_items cmd) = Ok items"
    and "distinct (map sku (cc_items cmd))"
    and "list_all (\<lambda>it. sint (quantity it) < 2 ^ 31) (cc_items cmd)"
    and "n = uuids (front_world r w)" and "oid = ''ord_'' @ pf_uuid pf n"
    and "oid \<notin> or_id ` set (orders (db w))"
    and "pf_uuid pf (Suc n) \<notin> ev_id ` set (outbox_events (db w))"
    and "pf_jsonb pf (encode (payload_json (pending_order oid cmd ''NGN'' items))) \<noteq> None"
  shows "\<exists>resp w'. serve (order_service pf metrics) r w = (Some resp, w') \<and>
    rs_status resp = 202 \<and> rs_body resp = accepted_body oid \<and>
    keys w' k = Some (Done h oid 202 (accepted_body oid)) \<and>
    oid \<in> or_id ` set (orders (db w')) \<and> length (orders (db w')) = Suc (length (orders (db w)))"
  using order_accepted [OF assms] by blast

section \<open>An order on an empty database\<close>

definition sample_create :: request where
  "sample_create = \<lparr>rq_method = ''POST'', rq_path = ''/orders'',
     rq_header = [(''Idempotency-Key'', ''k1''), (''X-Request-Id'', ''q1'')],
     rq_body = ''{\"customer_id\":\"c\",\"payment_method_id\":\"p\",\"items\":[{\"sku\":\"switch-2\",\"quantity\":2}]}'',
     rq_body_fails = None, rq_ctx = \<lparr>cx_request_id = None, cx_idempotency_key = None\<rparr>\<rparr>"

lemma sample_create_facts:
  "rq_method sample_create = ''POST''" "rq_path sample_create = ''/orders''"
  "header_get (rq_header sample_create) headerName = ''k1''" "keys sample_world ''k1'' = None"
  by (simp_all add: sample_create_def headerName_def header_get_def sample_world_def empty_db_def
      key_store_of_def)

lemma sample_create_decodes:
  "case (read_body sample_create, is_ok (Hash sample_platform (rq_body sample_create)),
         request_of_body (sample_create\<lparr>rq_body := rq_body sample_create, rq_body_fails := None\<rparr>)) of
     (Some body, True, Some q) \<Rightarrow>
       body = rq_body sample_create \<and>
       (let cmd = command_of q in
         Validate (cc_customer_id cmd) (cc_payment_method_id cmd) (cc_items cmd) = None \<and>
         is_ok (price_items (UnitPrice NewStatic) (cc_items cmd)) \<and>
         distinct (map sku (cc_items cmd)) \<and>
         list_all (\<lambda>it. sint (quantity it) < 2 ^ 31) (cc_items cmd))
   | _ \<Rightarrow> False"
  by code_simp

lemma sample_create_accepted:
  obtains h q items where "read_body sample_create = Some (rq_body sample_create)"
    and "Hash sample_platform (rq_body sample_create) = Ok h"
    and "request_of_body (sample_create\<lparr>rq_body := rq_body sample_create, rq_body_fails := None\<rparr>) = Some q"
    and "Validate (cc_customer_id (command_of q)) (cc_payment_method_id (command_of q))
       (cc_items (command_of q)) = None"
    and "price_items (UnitPrice NewStatic) (cc_items (command_of q)) = Ok items"
    and "distinct (map sku (cc_items (command_of q)))"
    and "list_all (\<lambda>it. sint (quantity it) < 2 ^ 31) (cc_items (command_of q))"
  using sample_create_decodes by (auto simp: Let_def is_ok_iff split: option.splits bool.splits)

lemma sample_world_simps:
  "calm sample_world" "uuids (front_world sample_create sample_world) = 0"
  "''ord_u0'' = ''ord_'' @ pf_uuid sample_platform 0" "''ord_u0'' \<notin> or_id ` set (orders (db sample_world))"
  "pf_uuid sample_platform (Suc 0) \<notin> ev_id ` set (outbox_events (db sample_world))"
  "pf_jsonb sample_platform text \<noteq> None"
proof -
  show "''ord_u0'' = ''ord_'' @ pf_uuid sample_platform 0" by code_simp
qed (simp_all add: sample_world_def calm_def empty_db_def sample_platform_def front_world_def sample_create_def header_get_def)

definition first_run :: "response option \<times> world" where
  "first_run = serve (order_service sample_platform Health) sample_create sample_world"

lemma first_run_facts:
  obtains resp w where "serve (order_service sample_platform Health) sample_create sample_world = (Some resp, w)"
    and "rs_status resp = 202" and "calm w"
proof (rule sample_create_accepted)
  fix h q items
  assume d: "read_body sample_create = Some (rq_body sample_create)"
    "Hash sample_platform (rq_body sample_create) = Ok h"
    "request_of_body (sample_create\<lparr>rq_body := rq_body sample_create, rq_body_fails := None\<rparr>) = Some q"
    "Validate (cc_customer_id (command_of q)) (cc_payment_method_id (command_of q)) (cc_items (command_of q)) = None"
    "price_items (UnitPrice NewStatic) (cc_items (command_of q)) = Ok items"
    "distinct (map sku (cc_items (command_of q)))"
    "list_all (\<lambda>it. sint (quantity it) < 2 ^ 31) (cc_items (command_of q))"
  from order_accepted [OF sample_create_facts(1,2) sample_world_simps(1) sample_db_ok sample_create_facts(3) _
      sample_create_facts(4) d(1-3) refl d(4-7) sample_world_simps(2) [symmetric] sample_world_simps(3-6), of Health]
  show thesis using that by auto
qed

theorem good_order_is_accepted_witness:
  "\<exists>resp w'. serve (order_service sample_platform Health) sample_create sample_world = (Some resp, w') \<and>
     rs_status resp = 202 \<and> rs_body resp = accepted_body ''ord_u0''"
proof (rule sample_create_accepted)
  fix h q items
  assume d: "read_body sample_create = Some (rq_body sample_create)"
    "Hash sample_platform (rq_body sample_create) = Ok h"
    "request_of_body (sample_create\<lparr>rq_body := rq_body sample_create, rq_body_fails := None\<rparr>) = Some q"
    "Validate (cc_customer_id (command_of q)) (cc_payment_method_id (command_of q)) (cc_items (command_of q)) = None"
    "price_items (UnitPrice NewStatic) (cc_items (command_of q)) = Ok items"
    "distinct (map sku (cc_items (command_of q)))"
    "list_all (\<lambda>it. sint (quantity it) < 2 ^ 31) (cc_items (command_of q))"
  from good_order_is_accepted [OF sample_create_facts(1,2) sample_world_simps(1) sample_db_ok sample_create_facts(3) _
      sample_create_facts(4) d(1-3) refl d(4-7) sample_world_simps(2) [symmetric] sample_world_simps(3-6), of Health]
  show ?thesis by blast
qed

theorem one_order_one_event_per_key_witness:
  "length (orders (db (snd first_run))) = length (done_rows (db (snd first_run)))"
proof -
  have "db_steps sample_platform (db sample_world) (db (snd first_run))"
  proof -
    obtain q b w1 where run: "order_service sample_platform Health sample_create fresh_rw
        (sample_world\<lparr>cancelled := False\<rparr>) = (q, b, w1)" by (metis prod.exhaust)
    have "db (snd first_run) = db w1" using run by (simp add: first_run_def serve_def split: go.split)
    moreover have "db (snd (snd (Health r b w))) = db w" for r b w
      by (simp add: Health_def split: prod.split)
    ultimately show ?thesis
      using movesD [OF order_service_moves [of Health] run] sample_db_ok by simp
  qed
  moreover have "db sample_world = empty_db" by (simp add: sample_world_def)
  ultimately have "mset (map k_resource_id (done_rows (db (snd first_run)))) =
      mset (map or_id (orders (db (snd first_run))))"
    using one_order_one_event_per_key [of sample_platform "db (snd first_run)"] by simp
  from arg_cong [OF this, of size] show ?thesis by simp
qed

end
