(* ===== verification/Order_Writes.thy ===== *)
theory Order_Writes
  imports Order_Store
begin

text \<open>
  The transaction of \<open>CreateOrder\<close> (\<open>services/order/adapter/postgres/store.go\<close>) as the sequence of its
  statements, for the theory of concurrent transactions, and that \<open>create_tx\<close> runs exactly these.
\<close>

section \<open>The statements of CreateOrder\<close>

datatype "write" =
    InsertOrder order
  | InsertItem string item
  | InsertEvent event
  | CompleteKey completion

definition writes_of :: "order \<Rightarrow> event list \<Rightarrow> completion option \<Rightarrow> write list" where
  "writes_of ord events c =
    InsertOrder ord # map (InsertItem (o_id ord)) (o_items ord) @ map InsertEvent events @
      (case c of None \<Rightarrow> [] | Some cp \<Rightarrow> [CompleteKey cp])"

text \<open>One of them, with the check of \<open>Complete\<close> that one row was updated; \<open>None\<close> is a failure.\<close>

fun run_write :: "platform \<Rightarrow> int \<Rightarrow> write \<Rightarrow> database \<Rightarrow> database option" where
  "run_write pf now (InsertOrder ord) d =
    (case sql_insert_order now ord d of Inr (_, d') \<Rightarrow> Some d' | Inl _ \<Rightarrow> None)"
| "run_write pf now (InsertItem oid it) d =
    (case sql_insert_item oid it d of Inr (_, d') \<Rightarrow> Some d' | Inl _ \<Rightarrow> None)"
| "run_write pf now (InsertEvent e) d =
    (case sql_insert_event pf now e d of Inr (_, d') \<Rightarrow> Some d' | Inl _ \<Rightarrow> None)"
| "run_write pf now (CompleteKey cp) d =
    (case sql_complete cp d of Inr (n, d') \<Rightarrow> if n = 1 then Some d' else None | Inl _ \<Rightarrow> None)"

fun run_writes :: "platform \<Rightarrow> int \<Rightarrow> write list \<Rightarrow> database \<Rightarrow> database option" where
  "run_writes pf now [] d = Some d"
| "run_writes pf now (x # xs) d =
    (case run_write pf now x d of None \<Rightarrow> None | Some d' \<Rightarrow> run_writes pf now xs d')"

lemma run_writes_append:
  "run_writes pf now (xs @ ys) d =
    (case run_writes pf now xs d of None \<Rightarrow> None | Some d' \<Rightarrow> run_writes pf now ys d')"
  by (induction xs arbitrary: d) (auto split: option.split)

text \<open>They are what \<open>create_tx\<close> runs.\<close>

lemma insert_items_writes:
  assumes "calm w"
  shows "case run_writes pf now (map (InsertItem oid) items) (db w) of
      Some d \<Rightarrow> insert_items oid items w = (Ok (), w\<lparr>db := d\<rparr>)
    | None \<Rightarrow> \<not> is_ok (fst (insert_items oid items w))"
  using assms
proof (induction items arbitrary: w)
  case (Cons it items)
  have "calm (w\<lparr>db := d\<rparr>)" for d using Cons.prems by (simp add: calm_def)
  note IH = Cons.IH [OF this]
  show ?case
    using IH [of "snd (the (Some (projr (sql_insert_item oid it (db w)))))"] Cons.prems
    by (auto simp: driver_call_calm run_stmt_def split: sum.split option.splits)
qed simp

lemma Append_writes:
  assumes "calm w"
  shows "case run_writes pf (clock w) (map InsertEvent events) (db w) of
      Some d \<Rightarrow> Append pf events w = (Ok (), w\<lparr>db := d\<rparr>)
    | None \<Rightarrow> \<not> is_ok (fst (Append pf events w))"
  using assms
proof (induction events arbitrary: w)
  case (Cons e events)
  have "calm (w\<lparr>db := d\<rparr>)" for d using Cons.prems by (simp add: calm_def)
  note IH = Cons.IH [OF this]
  show ?case
    using IH [of "snd (projr (sql_insert_event pf (clock w) e (db w)))"] Cons.prems
    by (auto simp: driver_call_calm run_stmt_def split: sum.split option.splits)
qed simp

lemma create_tx_writes:
  assumes "calm w"
  shows "case run_writes pf (clock w) (writes_of ord events c) (db w) of
      Some d \<Rightarrow> create_tx pf ord events c w = (Ok (), w\<lparr>db := d\<rparr>)
    | None \<Rightarrow> \<not> is_ok (fst (create_tx pf ord events c w))"
proof (cases "sql_insert_order (clock w) ord (db w)")
  case (Inl e)
  then show ?thesis using assms by (simp add: writes_of_def create_tx_def driver_call_calm run_stmt_def)
next
  case (Inr x)
  obtain u d1 where x: "x = (u, d1)" by (cases x)
  let ?w1 = "w\<lparr>db := d1\<rparr>"
  have calm: "calm (w\<lparr>db := d\<rparr>)" for d using assms by (simp add: calm_def)
  have one: "driver_call True (sql_insert_order (clock w) ord) w = (Ok (), ?w1)"
    using Inr x assms by (simp add: driver_call_calm run_stmt_def)
  note items = insert_items_writes [OF calm [of d1], where pf = pf and now = "clock w" and oid = "o_id ord" and items = "o_items ord"]
  show ?thesis
  proof (cases "run_writes pf (clock w) (map (InsertItem (o_id ord)) (o_items ord)) d1")
    case None
    with items one Inr x show ?thesis
      by (auto simp: writes_of_def create_tx_def run_writes_append split: prod.splits go.splits)
  next
    case (Some d2)
    note events = Append_writes [OF calm [of d2], where pf = pf and events = events]
    show ?thesis
    proof (cases "run_writes pf (clock w) (map InsertEvent events) d2")
      case None
      with items events Some one Inr x show ?thesis
        by (auto simp: writes_of_def create_tx_def run_writes_append split: prod.splits go.splits)
    next
      case Some3: (Some d3)
      have "Append pf events (w\<lparr>db := d2\<rparr>) = (Ok (), w\<lparr>db := d3\<rparr>)" using events Some3 by simp
      with items Some Some3 one Inr x assms calm [of d3] show ?thesis
        by (auto simp: writes_of_def create_tx_def run_writes_append Complete_def driver_call_calm run_stmt_def
            split: option.split sum.split)
    qed
  qed
qed

text \<open>A store that happened is a run of the statements.\<close>

lemma stored_items_run:
  assumes "db_ok (d\<lparr>order_items := order_items d @ map (item_row_of oid) items\<rparr>)" and "items \<noteq> [] \<Longrightarrow> oid \<in> or_id ` set (orders d)"
  shows "run_writes pf now (map (InsertItem oid) items) d =
    Some (d\<lparr>order_items := order_items d @ map (item_row_of oid) items\<rparr>)"
  using assms
proof (induction items arbitrary: d)
  case (Cons it items)
  let ?d = "d\<lparr>order_items := order_items d @ [item_row_of oid it]\<rparr>"
  have "item_row_ok (item_row_of oid it)" "(oid, sku it) \<notin> item_key ` set (order_items d)"
    using Cons.prems(1) by (auto simp: db_ok_def item_row_of_def)
  then have "sql_insert_item oid it d = Inr ((), ?d)"
    using Cons.prems(2) by (auto simp: sql_insert_item_def item_row_ok_def item_row_of_def find_row_None_iff)
  moreover have "run_writes pf now (map (InsertItem oid) items) ?d =
      Some (?d\<lparr>order_items := order_items ?d @ map (item_row_of oid) items\<rparr>)"
    by (rule Cons.IH) (use Cons.prems in simp_all)
  ultimately show ?case by simp
qed simp

lemma stored_events_run:
  assumes "db_ok (d\<lparr>outbox_events := outbox_events d @ map2 (new_event_row now) es ps\<rparr>)"
    and "list_all2 (\<lambda>e p. pf_jsonb pf (e_payload e) = Some p) es ps"
  shows "run_writes pf now (map InsertEvent es) d =
    Some (d\<lparr>outbox_events := outbox_events d @ map2 (new_event_row now) es ps\<rparr>)"
  using assms(2,1)
proof (induction arbitrary: d rule: list_all2_induct)
  case (Cons e es p ps)
  let ?d = "d\<lparr>outbox_events := outbox_events d @ [new_event_row now e p]\<rparr>"
  have "e_id e \<notin> ev_id ` set (outbox_events d)" using Cons.prems by (auto simp: db_ok_def new_event_row_def)
  then have "sql_insert_event pf now e d = Inr ((), ?d)"
    using Cons.hyps by (simp add: sql_insert_event_def find_row_None_iff)
  moreover have "run_writes pf now (map InsertEvent es) ?d =
      Some (?d\<lparr>outbox_events := outbox_events ?d @ map2 (new_event_row now) es ps\<rparr>)"
    by (rule Cons.IH) (use Cons.prems in simp)
  ultimately show ?case by simp
qed simp

lemma stored_runs:
  assumes "stored pf now ord evs c d d'" and "db_ok d" and "db_ok d'" and "\<And>cp. c = Some cp \<Longrightarrow> fits_int4 (cp_status_code cp)"
  shows "run_writes pf now (writes_of ord evs c) d = Some d'"
proof -
  obtain ps where ps: "list_all2 (\<lambda>e p. pf_jsonb pf (e_payload e) = Some p) evs ps"
    "d' = \<lparr>orders = orders d @ [order_row_of now ord],
             order_items = order_items d @ map (item_row_of (o_id ord)) (o_items ord),
             outbox_events = outbox_events d @ map2 (new_event_row now) evs ps,
             idempotency_keys = completed_keys c (idempotency_keys d)\<rparr>"
    using assms(1) unfolding stored_def by blast
  let ?d1 = "d\<lparr>orders := orders d @ [order_row_of now ord]\<rparr>"
  let ?d2 = "?d1\<lparr>order_items := order_items ?d1 @ map (item_row_of (o_id ord)) (o_items ord)\<rparr>"
  let ?d3 = "?d2\<lparr>outbox_events := outbox_events ?d2 @ map2 (new_event_row now) evs ps\<rparr>"
  have "db_ok ?d3" using assms(2,3) unfolding ps(2) by (simp add: db_ok_def)
  moreover from this have "db_ok ?d2" by (simp add: db_ok_def)
  ultimately have 2: "run_writes pf now (map (InsertItem (o_id ord)) (o_items ord)) ?d1 = Some ?d2"
    and 3: "run_writes pf now (map InsertEvent evs) ?d2 = Some ?d3"
    using stored_items_run [of ?d1 "o_id ord" "o_items ord"] stored_events_run [OF _ ps(1), of ?d2]
    by (simp_all add: order_row_of_def)
  have "o_id ord \<notin> or_id ` set (orders d)" "order_row_ok (order_row_of now ord)"
    using stored_fresh [OF assms(1,3)] assms(3) unfolding ps(2) by (simp_all add: db_ok_def)
  then have 1: "run_write pf now (InsertOrder ord) d = Some ?d1"
    by (simp add: sql_insert_order_def find_row_None_iff)
  show ?thesis
  proof (cases c)
    case None
    with 1 2 3 ps(2) show ?thesis by (simp add: writes_of_def run_writes_append completed_keys_def)
  next
    case (Some cp)
    have "key_store_of ?d3 = key_store_of d" by (rule key_store_of_cong) simp
    then have "spec_complete cp (key_store_of ?d3) \<noteq> None" using assms(1) Some by (simp add: stored_def)
    with sql_complete_refines [OF \<open>db_ok ?d3\<close>, of cp] assms(4) [OF Some] have "run_write pf now (CompleteKey cp) ?d3 = Some d'"
      by (simp add: sql_complete_def ps(2) Some completed_keys_def)
    with 1 2 3 Some show ?thesis by (simp add: writes_of_def run_writes_append)
  qed
qed


end
