(* ===== verification/Concurrent_System.thy ===== *)
theory Concurrent_System
  imports Publisher_Race Order_Service Order_Writes
begin

text \<open>
  Everything at once: the statements of any number of requests and publishers on one database, interleaved
  in any way and broken off anywhere.  A request's \<open>Claim\<close> and \<open>Release\<close> are single statements that commit
  by themselves; its \<open>CreateOrder\<close> (\<open>services/order/adapter/postgres/store.go\<close>) is a transaction of several
  statements; the publishers run as in theory \<open>Publisher_Race\<close>.  What a transaction has written is seen by
  itself only until it commits, and its statements wait for the locks of others.
\<close>

section \<open>The system\<close>

text \<open>
  An open transaction of \<open>CreateOrder\<close>: what it is for, the statements still to run, the rows it has
  inserted and its version of the row of its key, which it holds locked from then on.
\<close>

record creation =
  cn_now :: int
  cn_order :: order
  cn_event :: event
  cn_key :: string
  cn_todo :: "write list"
  cn_orders :: "order_row list"
  cn_items :: "item_row list"
  cn_events :: "event_row list"
  cn_version :: "key_row option"

text \<open>What it sees: what is committed and its own writes.  Its commit makes the others see it too.\<close>

definition view :: "creation \<Rightarrow> database \<Rightarrow> database" where
  "view c d =
    \<lparr>orders = orders d @ cn_orders c, order_items = order_items d @ cn_items c,
     outbox_events = outbox_events d @ cn_events c,
     idempotency_keys =
       (case cn_version c of
          None \<Rightarrow> idempotency_keys d
        | Some v \<Rightarrow> update_rows (\<lambda>r. k_key r = k_key v) (\<lambda>_. v) (idempotency_keys d))\<rparr>"

text \<open>After a statement: the own rows are those of the new view that are not committed.\<close>

definition after_write :: "database \<Rightarrow> write \<Rightarrow> database \<Rightarrow> creation \<Rightarrow> creation" where
  "after_write d x v c =
    c\<lparr>cn_todo := tl (cn_todo c),
      cn_orders := drop (length (orders d)) (orders v),
      cn_items := drop (length (order_items d)) (order_items v),
      cn_events := drop (length (outbox_events d)) (outbox_events v),
      cn_version := (case x of CompleteKey cp \<Rightarrow> find_row k_key (cp_key cp) (idempotency_keys v)
                     | _ \<Rightarrow> cn_version c)\<rparr>"

record system =
  sy_fleet :: fleet
  sy_creations :: "nat \<Rightarrow> creation option"

abbreviation table :: "system \<Rightarrow> database" where
  "table s \<equiv> ft_table (sy_fleet s)"

definition with_table :: "database \<Rightarrow> system \<Rightarrow> system" where
  "with_table d s = s\<lparr>sy_fleet := (sy_fleet s)\<lparr>ft_table := d\<rparr>\<rparr>"

definition with_creation :: "nat \<Rightarrow> creation option \<Rightarrow> system \<Rightarrow> system" where
  "with_creation p x s = s\<lparr>sy_creations := (sy_creations s)(p := x)\<rparr>"

text \<open>
  A statement waits while another transaction has inserted a row with the same primary key, or has the
  row of the key locked.
\<close>

definition locked_by_other :: "system \<Rightarrow> nat option \<Rightarrow> string \<Rightarrow> bool" where
  "locked_by_other s p k \<longleftrightarrow>
    (\<exists>q c v. Some q \<noteq> p \<and> sy_creations s q = Some c \<and> cn_version c = Some v \<and> k_key v = k)"

fun must_wait :: "system \<Rightarrow> nat \<Rightarrow> write \<Rightarrow> bool" where
  "must_wait s p (InsertOrder ord) \<longleftrightarrow>
    (\<exists>q c. q \<noteq> p \<and> sy_creations s q = Some c \<and> o_id ord \<in> or_id ` set (cn_orders c))"
| "must_wait s p (InsertItem oid it) \<longleftrightarrow>
    (\<exists>q c. q \<noteq> p \<and> sy_creations s q = Some c \<and> (oid, sku it) \<in> item_key ` set (cn_items c))"
| "must_wait s p (InsertEvent e) \<longleftrightarrow>
    (\<exists>q c. q \<noteq> p \<and> sy_creations s q = Some c \<and> e_id e \<in> ev_id ` set (cn_events c))"
| "must_wait s p (CompleteKey cp) \<longleftrightarrow> locked_by_other s (Some p) (cp_key cp)"

definition new_creation :: "int \<Rightarrow> order \<Rightarrow> string \<Rightarrow> string \<Rightarrow> creation" where
  "new_creation now ord eid k =
    \<lparr>cn_now = now, cn_order = ord, cn_event = created_event ord eid, cn_key = k,
     cn_todo = writes_of ord [created_event ord eid] (completion_for k ord),
     cn_orders = [], cn_items = [], cn_events = [], cn_version = None\<rparr>"

text \<open>
  The last rule covers every way a transaction ends without committing: a failed statement, a lost
  connection, a panic.  A statement that changes no row, such as \<open>Claim\<close>'s insert for a key that is there,
  needs no rule.
\<close>

inductive system_step :: "platform \<Rightarrow> publisher_options \<Rightarrow> system \<Rightarrow> system \<Rightarrow> bool" for pf opts where
  publishes:
    "fleet_step pf opts (sy_fleet s) f \<Longrightarrow> ft_open f \<noteq> ft_open (sy_fleet s) \<Longrightarrow>
       system_step pf opts s (s\<lparr>sy_fleet := f\<rparr>)"
| claims_key:
    "sql_claim now k h (table s) = Inr (Some k, d) \<Longrightarrow> system_step pf opts s (with_table d s)"
| releases_key:
    "\<not> locked_by_other s None k \<Longrightarrow> sql_release k (table s) = Inr ((), d) \<Longrightarrow>
       system_step pf opts s (with_table d s)"
| begins:
    "sy_creations s p = None \<Longrightarrow> k \<noteq> [] \<Longrightarrow> o_status ord = StatusPending \<Longrightarrow>
       system_step pf opts s (with_creation p (Some (new_creation now ord eid k)) s)"
| writes:
    "sy_creations s p = Some c \<Longrightarrow> cn_todo c = x # rest \<Longrightarrow> \<not> must_wait s p x \<Longrightarrow>
       run_write pf (cn_now c) x (view c (table s)) = Some v \<Longrightarrow>
       system_step pf opts s (with_creation p (Some (after_write (table s) x v c)) s)"
| commits_order:
    "sy_creations s p = Some c \<Longrightarrow> cn_todo c = [] \<Longrightarrow>
       system_step pf opts s (with_table (view c (table s)) (with_creation p None s))"
| gives_up:
    "sy_creations s p = Some c \<Longrightarrow> system_step pf opts s (with_creation p None s)"

abbreviation system_steps :: "platform \<Rightarrow> publisher_options \<Rightarrow> system \<Rightarrow> system \<Rightarrow> bool" where
  "system_steps pf opts \<equiv> (system_step pf opts)\<^sup>*\<^sup>*"

definition idle_system :: "database \<Rightarrow> system" where
  "idle_system d = \<lparr>sy_fleet = idle_fleet d, sy_creations = (\<lambda>_. None)\<rparr>"

lemma with_simps [simp]:
  "table (with_table d s) = d" "sy_creations (with_table d s) = sy_creations s"
  "sy_fleet (with_creation p x s) = sy_fleet s"
  "sy_creations (with_creation p x s) = (sy_creations s)(p := x)"
  "sy_fleet (with_table d s) = (sy_fleet s)\<lparr>ft_table := d\<rparr>"
  by (simp_all add: with_table_def with_creation_def)

lemma view_simps [simp]:
  "orders (view c d) = orders d @ cn_orders c" "order_items (view c d) = order_items d @ cn_items c"
  "outbox_events (view c d) = outbox_events d @ cn_events c"
  by (simp_all add: view_def)


section \<open>What an open transaction has done\<close>

definition orders_in :: "int \<Rightarrow> write list \<Rightarrow> order_row list" where
  "orders_in now xs = concat (map (\<lambda>x. case x of InsertOrder ord \<Rightarrow> [order_row_of now ord] | _ \<Rightarrow> []) xs)"

definition items_in :: "write list \<Rightarrow> item_row list" where
  "items_in xs = concat (map (\<lambda>x. case x of InsertItem oid it \<Rightarrow> [item_row_of oid it] | _ \<Rightarrow> []) xs)"

definition events_in :: "write list \<Rightarrow> event list" where
  "events_in xs = concat (map (\<lambda>x. case x of InsertEvent e \<Rightarrow> [e] | _ \<Rightarrow> []) xs)"

definition completions_in :: "write list \<Rightarrow> completion list" where
  "completions_in xs = concat (map (\<lambda>x. case x of CompleteKey cp \<Rightarrow> [cp] | _ \<Rightarrow> []) xs)"

lemmas written_defs = orders_in_def items_in_def events_in_def completions_in_def

lemma written_append [simp]:
  "orders_in now (xs @ ys) = orders_in now xs @ orders_in now ys" "items_in (xs @ ys) = items_in xs @ items_in ys"
  "events_in (xs @ ys) = events_in xs @ events_in ys"
  "completions_in (xs @ ys) = completions_in xs @ completions_in ys"
  by (simp_all add: written_defs)

lemma written_one [simp]:
  "orders_in now [x] = (case x of InsertOrder ord \<Rightarrow> [order_row_of now ord] | _ \<Rightarrow> [])"
  "items_in [x] = (case x of InsertItem oid it \<Rightarrow> [item_row_of oid it] | _ \<Rightarrow> [])"
  "events_in [x] = (case x of InsertEvent e \<Rightarrow> [e] | _ \<Rightarrow> [])"
  "completions_in [x] = (case x of CompleteKey cp \<Rightarrow> [cp] | _ \<Rightarrow> [])"
  "orders_in now [] = []" "items_in [] = []" "events_in [] = []" "completions_in [] = []"
  by (simp_all add: written_defs)

lemma written_writes_of:
  "orders_in now (writes_of ord evs c) = [order_row_of now ord]"
  "items_in (writes_of ord evs c) = map (item_row_of (o_id ord)) (o_items ord)"
  "events_in (writes_of ord evs c) = evs"
  "completions_in (writes_of ord evs c) = (case c of None \<Rightarrow> [] | Some cp \<Rightarrow> [cp])"
proof -
  have "orders_in now (map (InsertItem oid) its) = []" "items_in (map (InsertItem oid) its) = map (item_row_of oid) its"
    "events_in (map (InsertItem oid) its) = []" "completions_in (map (InsertItem oid) its) = []" for oid its
    by (induction its) (simp_all add: written_defs)
  moreover have "orders_in now (map InsertEvent es) = []" "items_in (map InsertEvent es) = []"
    "events_in (map InsertEvent es) = es" "completions_in (map InsertEvent es) = []" for es
    by (induction es) (simp_all add: written_defs)
  moreover have split: "writes_of ord evs c = [InsertOrder ord] @ map (InsertItem (o_id ord)) (o_items ord) @
      map InsertEvent evs @ (case c of None \<Rightarrow> [] | Some cp \<Rightarrow> [CompleteKey cp])"
    by (simp add: writes_of_def)
  ultimately show "orders_in now (writes_of ord evs c) = [order_row_of now ord]"
    "items_in (writes_of ord evs c) = map (item_row_of (o_id ord)) (o_items ord)"
    "events_in (writes_of ord evs c) = evs"
    "completions_in (writes_of ord evs c) = (case c of None \<Rightarrow> [] | Some cp \<Rightarrow> [cp])"
    unfolding split written_append by (simp_all split: option.split)
qed

definition planned :: "creation \<Rightarrow> write list" where
  "planned c = writes_of (cn_order c) [cn_event c] (completion_for (cn_key c) (cn_order c))"

definition own_rows :: "platform \<Rightarrow> database \<Rightarrow> creation \<Rightarrow> write list \<Rightarrow> bool" where
  "own_rows pf d c dn \<longleftrightarrow>
    cn_orders c = orders_in (cn_now c) dn \<and> cn_items c = items_in dn \<and>
    (\<exists>ps. list_all2 (\<lambda>e q. pf_jsonb pf (e_payload e) = Some q) (events_in dn) ps \<and>
       cn_events c = map2 (new_event_row (cn_now c)) (events_in dn) ps) \<and>
    (case completions_in dn of [] \<Rightarrow> cn_version c = None
     | cp # _ \<Rightarrow> \<exists>r \<in> set (idempotency_keys d). claimed_by (cp_key cp) r \<and> cn_version c = Some (complete_row cp r))"

definition creation_sound :: "platform \<Rightarrow> database \<Rightarrow> creation \<Rightarrow> bool" where
  "creation_sound pf d c \<longleftrightarrow>
    o_status (cn_order c) = StatusPending \<and> cn_key c \<noteq> [] \<and> (\<exists>eid. cn_event c = created_event (cn_order c) eid) \<and>
    db_ok (view c d) \<and> (\<exists>dn. planned c = dn @ cn_todo c \<and> own_rows pf d c dn)"

definition apart :: "creation \<Rightarrow> creation \<Rightarrow> bool" where
  "apart c c' \<longleftrightarrow>
    or_id ` set (cn_orders c) \<inter> or_id ` set (cn_orders c') = {} \<and>
    ev_id ` set (cn_events c) \<inter> ev_id ` set (cn_events c') = {} \<and>
    (\<forall>v v'. cn_version c = Some v \<longrightarrow> cn_version c' = Some v' \<longrightarrow> k_key v \<noteq> k_key v')"

definition system_inv :: "platform \<Rightarrow> publisher_options \<Rightarrow> system \<Rightarrow> bool" where
  "system_inv pf opts s \<longleftrightarrow> fleet_inv pf opts (sy_fleet s) \<and>
    (\<forall>p c. sy_creations s p = Some c \<longrightarrow> creation_sound pf (table s) c) \<and>
    (\<forall>p q c c'. sy_creations s p = Some c \<longrightarrow> sy_creations s q = Some c' \<longrightarrow> p \<noteq> q \<longrightarrow> apart c c')"

lemma planned_completion:
  assumes "cn_key c \<noteq> []"
  obtains cp where "completion_for (cn_key c) (cn_order c) = Some cp" and "completions_in (planned c) = [cp]"
    and "cp_status_code cp = 202" and "cp_key cp = cn_key c"
  using assms that by (auto simp: planned_def written_writes_of completion_for_def)

text \<open>The items written belong to the order written.\<close>

lemma items_of_own_order:
  assumes "planned c = dn @ todo" and "own_rows pf d c dn" and "r \<in> set (cn_items c)"
  shows "it_order_id r \<in> or_id ` set (cn_orders c)"
proof -
  have "r \<in> set (items_in (planned c))" using assms by (simp add: own_rows_def)
  then have "it_order_id r = o_id (cn_order c)"
    by (auto simp: planned_def written_writes_of item_row_of_def)
  moreover have "dn \<noteq> []" using assms(2,3) by (auto simp: own_rows_def)
  then have "order_row_of (cn_now c) (cn_order c) \<in> set (cn_orders c)"
    using assms(1,2) by (cases dn) (auto simp: own_rows_def planned_def writes_of_def orders_in_def)
  ultimately show ?thesis by (force simp: order_row_of_def)
qed

lemma version_row_ok:
  assumes "creation_sound pf d c" and "cn_version c = Some v"
  shows "key_row_ok v" and "\<exists>r \<in> set (idempotency_keys d). k_key r = k_key v \<and> claimed_by (k_key v) r"
proof -
  obtain dn where dn: "planned c = dn @ cn_todo c" "own_rows pf d c dn" "cn_key c \<noteq> []"
    using assms(1) unfolding creation_sound_def by blast
  obtain cp where cp: "completions_in (planned c) = [cp]" "cp_status_code cp = 202"
    using planned_completion [OF dn(3)] by metis
  obtain cp' rest where c': "completions_in dn = cp' # rest"
    using dn(2) assms(2) by (cases "completions_in dn") (auto simp: own_rows_def)
  with cp(1) dn(1) have "cp' = cp" by simp
  with c' dn(2) assms(2) obtain r where r: "r \<in> set (idempotency_keys d)" "claimed_by (cp_key cp) r" "v = complete_row cp r"
    by (auto simp: own_rows_def)
  then have "k_key v = cp_key cp" by (simp add: complete_row_def claimed_by_def)
  with r show "\<exists>r \<in> set (idempotency_keys d). k_key r = k_key v \<and> claimed_by (k_key v) r"
    by (auto simp: claimed_by_def)
  show "key_row_ok v" using r(3) cp(2) by (simp add: key_row_ok_def complete_row_def key_states_def fits_int4_def)
qed


text \<open>What a transaction sees is in order as soon as its rows clash with none.\<close>

lemma view_apart:
  assumes "db_ok (view c d)"
  shows "or_id ` set (cn_orders c) \<inter> or_id ` set (orders d) = {}"
    and "ev_id ` set (cn_events c) \<inter> ev_id ` set (outbox_events d) = {}"
  using assms by (auto simp: db_ok_def)

lemma keys_view: "map k_key (idempotency_keys (view c d)) = map k_key (idempotency_keys d)"
  by (induction "idempotency_keys d") (auto simp: view_def update_rows_def split: option.split)

lemma key_rows_view:
  assumes "r \<in> set (idempotency_keys (view c d))"
  shows "r \<in> set (idempotency_keys d) \<or> cn_version c = Some r"
  using assms by (auto simp: view_def set_update_rows split: option.splits if_splits)

lemma key_row_kept:
  assumes "r \<in> set (idempotency_keys d)" and "\<And>v. cn_version c = Some v \<Longrightarrow> k_key v \<noteq> k_key r"
  shows "r \<in> set (idempotency_keys (view c d))"
  using assms by (cases "cn_version c") (force simp: view_def set_update_rows)+

lemma view_db_ok:
  assumes "creation_sound pf d c" and "db_ok d2"
    and "or_id ` set (cn_orders c) \<inter> or_id ` set (orders d2) = {}"
    and "ev_id ` set (cn_events c) \<inter> ev_id ` set (outbox_events d2) = {}"
  shows "db_ok (view c d2)"
proof -
  have v: "db_ok (view c d)" using assms(1) by (simp add: creation_sound_def)
  have own: "it_order_id r \<in> or_id ` set (cn_orders c)" if "r \<in> set (cn_items c)" for r
    using assms(1) that items_of_own_order unfolding creation_sound_def by blast
  have items: "distinct (map item_key (order_items d2 @ cn_items c))"
  proof -
    have "it_order_id r \<notin> or_id ` set (cn_orders c)" if "r \<in> set (order_items d2)" for r
      using that assms(2,3) by (auto simp: db_ok_def list_all_iff)
    then have "item_key ` set (order_items d2) \<inter> item_key ` set (cn_items c) = {}"
      using own by fastforce
    moreover have "distinct (map item_key (cn_items c))" "distinct (map item_key (order_items d2))"
      using v assms(2) by (simp_all add: db_ok_def)
    ultimately show ?thesis by simp
  qed
  have keys: "list_all key_row_ok (idempotency_keys (view c d2))"
    using version_row_ok(1) [OF assms(1)] key_rows_view assms(2) unfolding db_ok_def list_all_iff by blast
  have "distinct (map or_id (orders d2 @ cn_orders c))" "distinct (map ev_id (outbox_events d2 @ cn_events c))"
    using v assms(2-4) by (auto simp: db_ok_def)
  moreover have "list_all order_row_ok (cn_orders c)" "list_all item_row_ok (cn_items c)"
    "list_all event_row_ok (cn_events c)" using v by (simp_all add: db_ok_def)
  moreover have "list_all (\<lambda>r. it_order_id r \<in> set (map or_id (orders d2 @ cn_orders c))) (order_items d2 @ cn_items c)"
    using own assms(2) by (auto simp: db_ok_def list_all_iff)
  ultimately show ?thesis
    using assms(2) items keys unfolding db_ok_def view_simps keys_view by simp
qed

text \<open>A change of the committed database leaves an open transaction sound when it makes no clash and leaves the locked row alone.\<close>

lemma creation_sound_table:
  assumes "creation_sound pf d c" and "db_ok d2"
    and "or_id ` set (cn_orders c) \<inter> or_id ` set (orders d2) = {}"
    and "ev_id ` set (cn_events c) \<inter> ev_id ` set (outbox_events d2) = {}"
    and "\<And>r v. cn_version c = Some v \<Longrightarrow> r \<in> set (idempotency_keys d) \<Longrightarrow> claimed_by (k_key v) r \<Longrightarrow>
      r \<in> set (idempotency_keys d2)"
  shows "creation_sound pf d2 c"
proof -
  obtain dn where dn: "planned c = dn @ cn_todo c" "own_rows pf d c dn"
    using assms(1) unfolding creation_sound_def by blast
  have "own_rows pf d2 c dn"
    using dn(2) assms(5) by (auto simp: own_rows_def complete_row_def claimed_by_def split: list.splits)
  with dn(1) view_db_ok [OF assms(1-4)] assms(1) show ?thesis unfolding creation_sound_def by blast
qed

text \<open>The version of the locked row in place of the row.\<close>

lemma version_update:
  assumes "distinct (map k_key rows)" and "r \<in> set rows" and "claimed_by k r"
  shows "update_rows (\<lambda>x. k_key x = k) (\<lambda>_. complete_row cp r) rows = update_rows (claimed_by k) (complete_row cp) rows"
proof -
  have "x = r" if "x \<in> set rows" "k_key x = k" for x
    using that assms by (metis claimed_by_def distinct_map inj_onD)
  with assms(3) show ?thesis by (auto simp: update_rows_def claimed_by_def)
qed

text \<open>The commit.\<close>

lemma creation_stored:
  assumes "creation_sound pf d c" and "cn_todo c = []" and "db_ok d"
  shows "\<exists>eid. stored pf (cn_now c) (cn_order c) [created_event (cn_order c) eid]
    (completion_for (cn_key c) (cn_order c)) d (view c d)"
proof -
  obtain eid where eid: "cn_event c = created_event (cn_order c) eid" and k: "cn_key c \<noteq> []"
    and rows: "own_rows pf d c (planned c)"
    using assms(1,2) by (auto simp: creation_sound_def)
  obtain cp where cp: "completion_for (cn_key c) (cn_order c) = Some cp" "completions_in (planned c) = [cp]"
      "cp_key cp = cn_key c" "cp_status_code cp = 202"
    using planned_completion [OF k] by metis
  obtain r where r: "r \<in> set (idempotency_keys d)" "claimed_by (cn_key c) r" "cn_version c = Some (complete_row cp r)"
    using rows cp(2,3) by (auto simp: own_rows_def)
  have dist: "distinct (map k_key (idempotency_keys d))" using assms(3) by (rule db_ok_keys)
  note keys = version_update [OF dist r(1,2), of cp]
  have "k_key (complete_row cp r) = cn_key c" using r(2) by (simp add: complete_row_def claimed_by_def)
  moreover from find_row_eq_Some [OF dist] r(1,2) have "find_row k_key (cn_key c) (idempotency_keys d) = Some r"
    by (simp add: claimed_by_def)
  then have "spec_complete cp (key_store_of d) \<noteq> None"
    using r(2) cp(3) by (simp add: spec_complete_def key_store_of_def abs_row_def claimed_by_def)
  moreover obtain ps where "list_all2 (\<lambda>e q. pf_jsonb pf (e_payload e) = Some q) [cn_event c] ps"
      "cn_events c = map2 (new_event_row (cn_now c)) [cn_event c] ps"
    using rows by (auto simp: own_rows_def planned_def written_writes_of)
  moreover have "cn_orders c = [order_row_of (cn_now c) (cn_order c)]"
    "cn_items c = map (item_row_of (o_id (cn_order c))) (o_items (cn_order c))"
    using rows by (simp_all add: own_rows_def planned_def written_writes_of)
  ultimately show ?thesis
    using cp(1,3) r(3) eid keys
    by (intro exI [of _ eid]) (auto simp: stored_def view_def completed_keys_def)
qed


text \<open>A statement: the transaction sees what it has written, on top of what is committed.\<close>

lemma run_write_db_ok: "run_write pf now x d = Some d' \<Longrightarrow> db_ok d \<Longrightarrow> db_ok d'"
  by (cases x) (auto split: sum.splits if_splits intro: db_ok_insert_order db_ok_insert_item db_ok_insert_event
      db_ok_sql_complete)

lemma wrote_unlocked:
  assumes "planned c = dn @ CompleteKey cp # rest" and "own_rows pf d c dn" and "cn_key c \<noteq> []"
  shows "cn_version c = None" and "completions_in dn = []"
proof -
  obtain cp' where "completions_in (planned c) = [cp']" using planned_completion [OF assms(3)] by metis
  then have "completions_in dn @ cp # completions_in rest = [cp']"
    by (simp add: assms(1) completions_in_def)
  then show "completions_in dn = []" by (simp add: append_eq_Cons_conv)
  with assms(2) show "cn_version c = None" by (simp add: own_rows_def)
qed

lemma wrote_sound:
  assumes "creation_sound pf d c" and "cn_todo c = x # rest" and "run_write pf (cn_now c) x (view c d) = Some v"
    and "db_ok d"
  shows "view (after_write d x v c) d = v" and "creation_sound pf d (after_write d x v c)"
proof -
  obtain dn where dn: "planned c = dn @ x # rest" "own_rows pf d c dn" "cn_key c \<noteq> []"
    using assms(1,2) unfolding creation_sound_def by metis
  have same: "planned (after_write d x v c) = planned c" by (simp add: planned_def after_write_def)
  have "view (after_write d x v c) d = v \<and> own_rows pf d (after_write d x v c) (dn @ [x])"
  proof (cases x)
    case (InsertOrder ord)
    then have "v = (view c d)\<lparr>orders := orders d @ cn_orders c @ [order_row_of (cn_now c) ord]\<rparr>"
      using assms(3) by (auto simp: sql_insert_order_def split: if_splits)
    with InsertOrder dn(2) show ?thesis
      by (auto simp: view_def after_write_def own_rows_def split: list.splits option.splits)
  next
    case (InsertItem oid it)
    then have "v = (view c d)\<lparr>order_items := order_items d @ cn_items c @ [item_row_of oid it]\<rparr>"
      using assms(3) by (auto simp: sql_insert_item_def split: if_splits)
    with InsertItem dn(2) show ?thesis
      by (auto simp: view_def after_write_def own_rows_def split: list.splits option.splits)
  next
    case (InsertEvent e)
    then obtain q where q: "pf_jsonb pf (e_payload e) = Some q"
        "v = (view c d)\<lparr>outbox_events := outbox_events d @ cn_events c @ [new_event_row (cn_now c) e q]\<rparr>"
      using assms(3) by (auto simp: sql_insert_event_def split: if_splits option.splits)
    obtain ps where ps: "list_all2 (\<lambda>e q. pf_jsonb pf (e_payload e) = Some q) (events_in dn) ps"
        "cn_events c = map2 (new_event_row (cn_now c)) (events_in dn) ps"
      using dn(2) by (auto simp: own_rows_def)
    have "list_all2 (\<lambda>e q. pf_jsonb pf (e_payload e) = Some q) (events_in dn @ [e]) (ps @ [q])"
      "map2 (new_event_row (cn_now c)) (events_in dn @ [e]) (ps @ [q]) = cn_events c @ [new_event_row (cn_now c) e q]"
      using ps q(1) list_all2_lengthD [OF ps(1)] by (simp_all add: list_all2_appendI)
    with InsertEvent dn(2) q(2) show ?thesis
      by (auto simp: view_def after_write_def own_rows_def split: list.splits option.splits)
  next
    case (CompleteKey cp)
    note free = wrote_unlocked [OF dn(1) [unfolded CompleteKey] dn(2,3)]
    have v: "v = d\<lparr>orders := orders d @ cn_orders c, order_items := order_items d @ cn_items c,
        outbox_events := outbox_events d @ cn_events c,
        idempotency_keys := update_rows (claimed_by (cp_key cp)) (complete_row cp) (idempotency_keys d)\<rparr>"
      and n: "length (filter (claimed_by (cp_key cp)) (idempotency_keys d)) = 1"
      using assms(3) CompleteKey free(1) by (auto simp: view_def sql_complete_def split: if_splits)
    obtain r where r: "r \<in> set (idempotency_keys d)" "claimed_by (cp_key cp) r"
      using n by (metis filter_empty_conv list.size(3) zero_neq_one)
    note dist = db_ok_keys [OF assms(4)]
    have "find_row k_key (cp_key cp) (idempotency_keys d) = Some r"
      using find_row_eq_Some [OF dist] r by (simp add: claimed_by_def)
    then have "find_row k_key (cp_key cp) (idempotency_keys v) = Some (complete_row cp r)"
      using r(2) by (simp add: v find_update_claimed)
    moreover have "k_key (complete_row cp r) = cp_key cp" using r(2) by (simp add: complete_row_def claimed_by_def)
    ultimately show ?thesis
      using CompleteKey dn(2) free r version_update [OF dist r, of cp]
      by (auto simp: view_def after_write_def own_rows_def v)
  qed
  then have v: "view (after_write d x v c) d = v" and own: "own_rows pf d (after_write d x v c) (dn @ [x])" by blast+
  from v show "view (after_write d x v c) d = v" .
  have "db_ok v" using run_write_db_ok [OF assms(3)] assms(1) by (simp add: creation_sound_def)
  then show "creation_sound pf d (after_write d x v c)"
    using assms(1,2) dn(1) own v same
    by (auto simp: creation_sound_def after_write_def intro!: exI [of _ "dn @ [x]"])
qed


section \<open>Every interleaving is a sequence of atomic steps\<close>

text \<open>What a step of the publishers does to the committed database.\<close>

lemma publisher_db_step:
  assumes "fleet_step pf opts f f'" and "ft_open f' \<noteq> ft_open f" and "fleet_inv pf opts f"
  shows "ft_table f' = ft_table f \<or>
    (db_step pf (ft_table f) (ft_table f') \<and> orders (ft_table f') = orders (ft_table f) \<and>
     idempotency_keys (ft_table f') = idempotency_keys (ft_table f) \<and>
     ev_id ` set (outbox_events (ft_table f')) = ev_id ` set (outbox_events (ft_table f)))"
  using assms(1)
proof cases
  case (commits p t)
  have ok: "db_ok (ft_table f)" using assms(3) by (simp add: fleet_inv_def)
  obtain finished where "tx_sound pf opts (outbox_events (ft_table f)) t finished []"
    using fleet_inv_tx [OF assms(3) commits(2)] commits(3) by (auto simp: tx_sound_def)
  from commit_is_serial [OF this ok] obtain locked w w' where run:
      "drainBatch pf opts (answering (tx_answers t)) locked w = (Ok (), w')" "db w = ft_table f" "db w' = ft_table f'"
    using commits(1) by auto
  have "db_ok (db w)" using ok run(2) by simp
  with run(1) show ?thesis
  proof (cases rule: recorded.drainBatch_cases)
    case (committed g)
    have step: "g x = x \<or> attempted pf opts (answering (tx_answers t)) (clock w) x (g x)"
      if "x \<in> set (outbox_events (ft_table f))" for x
      using committed(2) [of x] that run(2) by (auto split: if_splits)
    then have "ev_id (g x) = ev_id x" if "x \<in> set (outbox_events (ft_table f))" for x
      using that attempted_key by fastforce
    then have "ev_id ` g ` set (outbox_events (ft_table f)) = ev_id ` set (outbox_events (ft_table f))"
      by (force simp: image_iff)
    with publish_step [OF step] committed(1) run(2,3) show ?thesis
      by (auto simp: set_events_def)
  qed simp
qed (use assms(2) in auto)

lemma system_fleet_step:
  assumes "system_step pf opts s s'" and "system_inv pf opts s"
  shows "fleet_steps pf opts (sy_fleet s) (sy_fleet s')"
  using assms(1)
proof cases
  case (claims_key now k h d)
  have ok: "db_ok (table s)" using assms(2) by (simp add: system_inv_def fleet_inv_def)
  have "outbox_events d = outbox_events (table s) @ []"
    using claims_key(2) by (auto simp: sql_claim_def split: option.splits)
  from elsewhere [OF this db_ok_sql_claim [OF claims_key(2) ok]] show ?thesis
    by (auto simp: claims_key(1))
next
  case (releases_key k d)
  have ok: "db_ok (table s)" using assms(2) by (simp add: system_inv_def fleet_inv_def)
  have "outbox_events d = outbox_events (table s) @ []"
    using releases_key(3) by (auto simp: sql_release_def)
  from elsewhere [OF this db_ok_sql_release [OF releases_key(3) ok]] show ?thesis
    by (auto simp: releases_key(1))
next
  case (commits_order p c)
  have sound: "creation_sound pf (table s) c" using assms(2) commits_order(2) by (simp add: system_inv_def)
  obtain dn where "own_rows pf (table s) c dn" using sound unfolding creation_sound_def by blast
  then have "list_all (\<lambda>r. ev_status r = ''pending'') (cn_events c)"
    by (auto simp: own_rows_def list_all_iff new_event_row_def dest!: set_zip_leftD)
  moreover have "db_ok (view c (table s))" using sound by (simp add: creation_sound_def)
  ultimately show ?thesis
    using elsewhere [of "view c (table s)" "sy_fleet s" "cn_events c" pf opts] by (auto simp: commits_order(1))
qed auto


lemma apart_sym: "apart c c' \<Longrightarrow> apart c' c"
  by (auto simp: apart_def)

lemma wrote_ids:
  assumes "run_write pf now x (view c d) = Some v"
  shows "or_id ` set (cn_orders (after_write d x v c)) \<subseteq>
      or_id ` set (cn_orders c) \<union> (case x of InsertOrder ord \<Rightarrow> {o_id ord} | _ \<Rightarrow> {})"
    and "ev_id ` set (cn_events (after_write d x v c)) \<subseteq>
      ev_id ` set (cn_events c) \<union> (case x of InsertEvent e \<Rightarrow> {e_id e} | _ \<Rightarrow> {})"
    and "cn_version (after_write d x v c) = Some r \<Longrightarrow>
      cn_version c = Some r \<or> (\<exists>cp. x = CompleteKey cp \<and> k_key r = cp_key cp)"
  using assms
  by (cases x; auto simp: after_write_def sql_insert_order_def sql_insert_item_def sql_insert_event_def sql_complete_def
      order_row_of_def new_event_row_def dest: find_row_SomeD split: sum.splits if_splits option.splits)+

lemma disjoint_grown: "A \<subseteq> B \<union> C \<Longrightarrow> B \<inter> D = {} \<Longrightarrow> C \<inter> D = {} \<Longrightarrow> A \<inter> D = {}"
  by blast

lemma wrote_apart:
  assumes "run_write pf now x (view c d) = Some v" and "\<not> must_wait s p x"
    and "sy_creations s q = Some c'" and "q \<noteq> p" and "apart c c'"
  shows "apart (after_write d x v c) c'"
  unfolding apart_def
proof (intro conjI allI impI)
  have "(case x of InsertOrder ord \<Rightarrow> {o_id ord} | _ \<Rightarrow> {}) \<inter> or_id ` set (cn_orders c') = {}"
    "(case x of InsertEvent e \<Rightarrow> {e_id e} | _ \<Rightarrow> {}) \<inter> ev_id ` set (cn_events c') = {}"
    using assms(2-4) by (cases x; auto)+
  with assms(5) show
    "or_id ` set (cn_orders (after_write d x v c)) \<inter> or_id ` set (cn_orders c') = {}"
    "ev_id ` set (cn_events (after_write d x v c)) \<inter> ev_id ` set (cn_events c') = {}"
    unfolding apart_def
    by (auto intro!: disjoint_grown [OF wrote_ids(1) [OF assms(1)]] disjoint_grown [OF wrote_ids(2) [OF assms(1)]]
        simp only:)
  show "k_key r \<noteq> k_key r'" if "cn_version (after_write d x v c) = Some r" "cn_version c' = Some r'" for r r'
  proof -
    have "k_key r' \<noteq> cp_key cp" if "x = CompleteKey cp" for cp
      using that assms(2-4) \<open>cn_version c' = Some r'\<close> by (auto simp: locked_by_other_def)
    moreover have "k_key r0 \<noteq> k_key r'" if "cn_version c = Some r0" for r0
      using that assms(5) \<open>cn_version c' = Some r'\<close> by (simp add: apart_def)
    ultimately show ?thesis using wrote_ids(3) [OF assms(1) that(1)] by metis
  qed
qed

lemma new_creation_sound:
  assumes "k \<noteq> []" and "o_status ord = StatusPending" and "db_ok d"
  shows "creation_sound pf d (new_creation now ord eid k)"
proof -
  have "view (new_creation now ord eid k) d = d" by (simp add: view_def new_creation_def)
  with assms show ?thesis
    by (auto simp: creation_sound_def own_rows_def planned_def new_creation_def)
qed

lemma system_inv_db_ok: "system_inv pf opts s \<Longrightarrow> db_ok (table s)"
  by (simp add: system_inv_def fleet_inv_def)

lemma system_inv_sound: "system_inv pf opts s \<Longrightarrow> sy_creations s p = Some c \<Longrightarrow> creation_sound pf (table s) c"
  by (simp add: system_inv_def)

text \<open>A new committed database under the same open transactions.\<close>

lemma system_inv_table:
  assumes "system_inv pf opts s" and "fleet_inv pf opts (sy_fleet s')"
    and "\<And>p c. sy_creations s' p = Some c \<Longrightarrow> sy_creations s p = Some c"
    and "\<And>p c. sy_creations s' p = Some c \<Longrightarrow>
      or_id ` set (cn_orders c) \<inter> or_id ` set (orders (table s')) = {}"
    and "\<And>p c. sy_creations s' p = Some c \<Longrightarrow>
      ev_id ` set (cn_events c) \<inter> ev_id ` set (outbox_events (table s')) = {}"
    and "\<And>p c r v. sy_creations s' p = Some c \<Longrightarrow> cn_version c = Some v \<Longrightarrow>
      r \<in> set (idempotency_keys (table s)) \<Longrightarrow> claimed_by (k_key v) r \<Longrightarrow> r \<in> set (idempotency_keys (table s'))"
  shows "system_inv pf opts s'"
proof -
  have "db_ok (table s')" using assms(2) by (simp add: fleet_inv_def)
  then have "creation_sound pf (table s') c" if "sy_creations s' p = Some c" for p c
    by (rule creation_sound_table [OF system_inv_sound [OF assms(1) assms(3) [OF that]]])
       (use that assms(4-6) in auto)
  moreover have "apart c c'" if "sy_creations s' p = Some c" "sy_creations s' q = Some c'" "p \<noteq> q" for p q c c'
    using assms(1) assms(3) [OF that(1)] assms(3) [OF that(2)] that(3) by (simp add: system_inv_def)
  ultimately show ?thesis using assms(2) by (simp add: system_inv_def)
qed

lemma open_apart_table:
  assumes "system_inv pf opts s" and "sy_creations s p = Some c"
  shows "or_id ` set (cn_orders c) \<inter> or_id ` set (orders (table s)) = {}"
    and "ev_id ` set (cn_events c) \<inter> ev_id ` set (outbox_events (table s)) = {}"
  using view_apart system_inv_sound [OF assms] unfolding creation_sound_def by blast+

lemma system_inv_ids:
  assumes "system_inv pf opts s" and "fleet_inv pf opts (sy_fleet s')" and "sy_creations s' = sy_creations s"
    and "or_id ` set (orders (table s')) = or_id ` set (orders (table s))"
    and "ev_id ` set (outbox_events (table s')) = ev_id ` set (outbox_events (table s))"
    and "\<And>p c r v. sy_creations s p = Some c \<Longrightarrow> cn_version c = Some v \<Longrightarrow>
      r \<in> set (idempotency_keys (table s)) \<Longrightarrow> claimed_by (k_key v) r \<Longrightarrow> r \<in> set (idempotency_keys (table s'))"
  shows "system_inv pf opts s'"
proof (rule system_inv_table [OF assms(1,2)])
  show "or_id ` set (cn_orders c) \<inter> or_id ` set (orders (table s')) = {}"
    "ev_id ` set (cn_events c) \<inter> ev_id ` set (outbox_events (table s')) = {}" if "sy_creations s' p = Some c" for p c
    using that open_apart_table [OF assms(1), of p c] unfolding assms(3-5) by blast+
qed (use assms(3,6) in auto)

lemma system_inv_step:
  assumes "system_step pf opts s s'" and "system_inv pf opts s"
  shows "system_inv pf opts s' \<and> db_steps pf (table s) (table s')"
proof -
  have fleet: "fleet_inv pf opts (sy_fleet s')"
    using fleet_inv_steps [OF system_fleet_step [OF assms]] assms(2) by (simp add: system_inv_def)
  note sound = system_inv_sound [OF assms(2)] and free = open_apart_table [OF assms(2)]
  have disjoint: "apart c c'" if "sy_creations s p = Some c" "sy_creations s q = Some c'" "p \<noteq> q" for p q c c'
    using assms(2) that by (simp add: system_inv_def)
  show ?thesis
    using assms(1)
  proof cases
    case (publishes f)
    have "fleet_inv pf opts (sy_fleet s)" using assms(2) by (simp add: system_inv_def)
    from publisher_db_step [OF publishes(2,3) this] have
      t: "ft_table f = table s \<or> (db_step pf (table s) (ft_table f) \<and> orders (ft_table f) = orders (table s) \<and>
        idempotency_keys (ft_table f) = idempotency_keys (table s) \<and>
        ev_id ` set (outbox_events (ft_table f)) = ev_id ` set (outbox_events (table s)))" .
    have "system_inv pf opts s'"
      by (rule system_inv_ids [OF assms(2) fleet]) (use t in \<open>auto simp: publishes(1)\<close>)
    with t show ?thesis by (auto simp: publishes(1))
  next
    case (claims_key now k h d)
    have d: "orders d = orders (table s)" "outbox_events d = outbox_events (table s)"
      "set (idempotency_keys (table s)) \<subseteq> set (idempotency_keys d)"
      using claims_key(2) by (auto simp: sql_claim_def split: option.splits)
    have "system_inv pf opts s'"
      by (rule system_inv_ids [OF assms(2) fleet]) (use d in \<open>auto simp: claims_key(1)\<close>)
    with claim_step [OF claims_key(2)] show ?thesis by (auto simp: claims_key(1))
  next
    case (releases_key k d)
    have d: "orders d = orders (table s)" "outbox_events d = outbox_events (table s)"
      "idempotency_keys d = delete_rows (claimed_by k) (idempotency_keys (table s))"
      using releases_key(3) by (auto simp: sql_release_def)
    have "system_inv pf opts s'"
    proof (rule system_inv_ids [OF assms(2) fleet])
      fix p c r v
      assume "sy_creations s p = Some c" "cn_version c = Some v" "r \<in> set (idempotency_keys (table s))"
        "claimed_by (k_key v) r"
      moreover from this releases_key(2) have "k_key v \<noteq> k" by (auto simp: locked_by_other_def releases_key(1))
      ultimately show "r \<in> set (idempotency_keys (table s'))"
        by (simp add: releases_key(1) d(3) set_delete_rows claimed_by_def)
    qed (use d(1,2) in \<open>simp_all add: releases_key(1)\<close>)
    with release_step [OF releases_key(3)] show ?thesis by (auto simp: releases_key(1))
  next
    case (begins p k ord now eid)
    have "creation_sound pf (table s) (new_creation now ord eid k)"
      by (rule new_creation_sound [OF begins(3,4) system_inv_db_ok [OF assms(2)]])
    moreover have "apart (new_creation now ord eid k) c" "apart c (new_creation now ord eid k)" for c
      by (simp_all add: apart_def new_creation_def)
    ultimately have "system_inv pf opts s'"
      using assms(2) by (auto simp: system_inv_def begins(1))
    then show ?thesis by (simp add: begins(1))
  next
    case (writes p c x rest v)
    note ok = wrote_sound(2) [OF sound [OF writes(2)] writes(3,5) system_inv_db_ok [OF assms(2)]]
    have "apart (after_write (table s) x v c) c'" if "sy_creations s q = Some c'" "q \<noteq> p" for q c'
      using wrote_apart [OF writes(5,4) that disjoint [OF writes(2) that(1)]] that(2) by blast
    with ok assms(2) have "system_inv pf opts s'"
      by (auto simp: system_inv_def writes(1) apart_sym)
    then show ?thesis by (simp add: writes(1))
  next
    case (commits_order p c)
    note stored = creation_stored [OF sound [OF commits_order(2)] commits_order(3) system_inv_db_ok [OF assms(2)]]
    have "system_inv pf opts s'"
    proof (rule system_inv_table [OF assms(2) fleet])
      show "sy_creations s q = Some c'" if "sy_creations s' q = Some c'" for q c'
        using that by (auto simp: commits_order(1) split: if_splits)
      fix q c' assume q: "sy_creations s' q = Some c'"
      then have q': "sy_creations s q = Some c'" "p \<noteq> q" by (auto simp: commits_order(1) split: if_splits)
      note others = disjoint [OF commits_order(2) q'] and fresh = free [OF q'(1)]
      show "or_id ` set (cn_orders c') \<inter> or_id ` set (orders (table s')) = {}"
        "ev_id ` set (cn_events c') \<inter> ev_id ` set (outbox_events (table s')) = {}"
        using others fresh by (auto simp: commits_order(1) apart_def)
      fix r v assume "cn_version c' = Some v" "r \<in> set (idempotency_keys (table s))" "claimed_by (k_key v) r"
      then show "r \<in> set (idempotency_keys (table s'))"
        using others key_row_kept [of r "table s" c] by (auto simp: commits_order(1) apart_def claimed_by_def)
    qed
    moreover have "db_ok (table s')" using fleet by (simp add: fleet_inv_def)
    moreover have "o_status (cn_order c) = StatusPending" "cn_key c \<noteq> []"
      using sound [OF commits_order(2)] by (simp_all add: creation_sound_def)
    ultimately show ?thesis
      using stored create_step [of pf "cn_now c" "cn_order c" _ "cn_key c" "table s" "table s'"]
      by (auto simp: commits_order(1))
  next
    case (gives_up p c)
    with assms(2) have "system_inv pf opts s'" by (auto simp: system_inv_def split: if_splits)
    then show ?thesis by (simp add: gives_up(1))
  qed
qed

lemma system_inv_idle: "db_ok d \<Longrightarrow> system_inv pf opts (idle_system d)"
  by (simp add: system_inv_def idle_system_def fleet_inv_idle)

lemma system_steps_inv:
  assumes "system_steps pf opts (idle_system d) s" and "db_ok d"
  shows "system_inv pf opts s \<and> db_steps pf d (table s) \<and> fleet_steps pf opts (idle_fleet d) (sy_fleet s)"
  using assms(1)
proof (induction rule: rtranclp_induct)
  case base
  from system_inv_idle [OF assms(2)] show ?case by (simp add: idle_system_def) (simp add: idle_fleet_def)
next
  case (step s s')
  then show ?case using system_inv_step system_fleet_step by (meson rtranclp_trans)
qed


text \<open>A transaction that is alone runs to its end as \<open>create_tx\<close> does.\<close>

definition write_step :: "platform \<Rightarrow> nat \<Rightarrow> system \<Rightarrow> system \<Rightarrow> bool" where
  "write_step pf p s s' \<longleftrightarrow>
    (\<exists>c x rest v. sy_creations s p = Some c \<and> cn_todo c = x # rest \<and> \<not> must_wait s p x \<and>
       run_write pf (cn_now c) x (view c (table s)) = Some v \<and>
       s' = with_creation p (Some (after_write (table s) x v c)) s)"

lemma write_step_system: "(write_step pf p)\<^sup>*\<^sup>* s s' \<Longrightarrow> system_steps pf opts s s'"
  by (induction rule: rtranclp_induct) (auto simp: write_step_def intro: writes rtranclp.rtrancl_into_rtrancl)

lemma creation_alone:
  assumes "sy_creations s = (\<lambda>_. None)(p := Some c)" and "creation_sound pf (table s) c" and "db_ok (table s)"
    and "run_writes pf (cn_now c) (cn_todo c) (view c (table s)) = Some v"
  shows "\<exists>c'. (write_step pf p)\<^sup>*\<^sup>* s (with_creation p (Some c') s) \<and> cn_todo c' = [] \<and> view c' (table s) = v"
  using assms
proof (induction "cn_todo c" arbitrary: s c)
  case Nil
  have "(sy_creations s)(p := Some c) = sy_creations s" unfolding Nil.prems(1) by auto
  then have "with_creation p (Some c) s = s" by (simp add: with_creation_def)
  with Nil show ?case by (intro exI [of _ c]) simp
next
  case (Cons x rest)
  obtain v1 where v1: "run_write pf (cn_now c) x (view c (table s)) = Some v1"
      "run_writes pf (cn_now c) rest v1 = Some v"
    using Cons.prems(4) Cons.hyps(2) [symmetric] by (auto split: option.splits)
  let ?c = "after_write (table s) x v1 c"
  let ?s = "with_creation p (Some ?c) s"
  note sound = wrote_sound [OF Cons.prems(2) Cons.hyps(2) [symmetric] v1(1) Cons.prems(3)]
  have wait: "\<not> must_wait s p x"
    using Cons.prems(1) by (cases x) (auto simp: locked_by_other_def split: if_splits)
  have one: "write_step pf p s ?s"
    unfolding write_step_def using Cons.hyps(2) [symmetric] Cons.prems(1) v1(1) wait by fastforce
  have todo: "rest = cn_todo ?c" "cn_now ?c = cn_now c"
    using Cons.hyps(2) [symmetric] by (simp_all add: after_write_def)
  have "sy_creations ?s = (\<lambda>_. None)(p := Some ?c)" using Cons.prems(1) by auto
  from Cons.hyps(1) [OF todo(1) this] sound v1(2) todo Cons.prems(3) obtain c' where
    c': "(write_step pf p)\<^sup>*\<^sup>* ?s (with_creation p (Some c') ?s)" "cn_todo c' = []" "view c' (table s) = v"
    by auto
  have "with_creation p (Some c') ?s = with_creation p (Some c') s" by (simp add: with_creation_def)
  with one c' show ?case by (metis converse_rtranclp_into_rtranclp)
qed

text \<open>C2: the atomic steps are what the statements come to.  Any number of requests and publishers run their
  statements on one database, interleaved in any way that respects Postgres's row locks and the visibility
  of committed rows, and any of them may break off anywhere.  The committed database only ever moves by the
  atomic steps of \<open>db_step\<close>: claims, releases, whole orders with their events and key, and drains.  So orders,
  completed keys and events stay in one-to-one correspondence and the constraints of the schema kept, also
  in what a transaction that is still open sees.\<close>

theorem interleavings_are_atomic_steps:
  assumes "db_ok d" and "paired d" and "system_steps pf opts (idle_system d) s"
  shows "db_steps pf d (table s) \<and> db_ok (table s) \<and> paired (table s) \<and>
    (\<forall>p c. sy_creations s p = Some c \<longrightarrow> db_ok (view c (table s)))"
proof -
  have inv: "system_inv pf opts s" and steps: "db_steps pf d (table s)"
    using system_steps_inv [OF assms(3,1)] by blast+
  have "db_ok (view c (table s))" if "sy_creations s p = Some c" for p c
    using system_inv_sound [OF inv that] by (simp add: creation_sound_def)
  with db_steps_invariant [OF steps assms(1,2)] steps show ?thesis by blast
qed

definition sample_new_order :: order where
  "sample_new_order = \<lparr>o_id = ''ord_1'', o_customer_id = ''c'', o_status = StatusPending, o_total_amount = 0,
     o_currency = ''USD'', o_payment_method_id = ''p'', o_items = [], o_created_at = 0, o_updated_at = 0\<rparr>"

definition claimed_db :: database where
  "claimed_db = empty_db\<lparr>idempotency_keys := [new_key_row 0 ''k'' ''h'']\<rparr>"

lemma sample_order_writes:
  "case run_writes sample_platform 0 (writes_of sample_new_order [created_event sample_new_order ''e'']
     (completion_for ''k'' sample_new_order)) claimed_db of Some v \<Rightarrow> length (orders v) = 1 | None \<Rightarrow> False"
  by code_simp

theorem interleavings_are_atomic_steps_witness:
  "\<exists>s. system_steps sample_platform sample_options (idle_system empty_db) s \<and> paired (table s) \<and>
     length (orders (table s)) = 1"
proof -
  let ?c = "new_creation 0 sample_new_order ''e'' ''k''"
  let ?s1 = "with_table claimed_db (idle_system empty_db)"
  let ?s2 = "with_creation 0 (Some ?c) ?s1"
  have ok: "db_ok claimed_db" by code_simp
  have "sql_claim 0 ''k'' ''h'' (table (idle_system empty_db)) = Inr (Some ''k'', claimed_db)"
    by (simp add: sql_claim_def idle_system_def idle_fleet_def claimed_db_def empty_db_def)
  then have 1: "system_step sample_platform sample_options (idle_system empty_db) ?s1" by (rule claims_key)
  have 2: "system_step sample_platform sample_options ?s1 ?s2"
    by (rule begins) (simp_all add: idle_system_def sample_new_order_def)
  obtain v where v: "run_writes sample_platform 0 (writes_of sample_new_order [created_event sample_new_order ''e'']
     (completion_for ''k'' sample_new_order)) claimed_db = Some v" "length (orders v) = 1"
    using sample_order_writes by (auto split: option.splits)
  have view: "view ?c claimed_db = claimed_db" by (simp add: view_def new_creation_def)
  have "\<exists>c'. (write_step sample_platform 0)\<^sup>*\<^sup>* ?s2 (with_creation 0 (Some c') ?s2) \<and> cn_todo c' = [] \<and>
      view c' (table ?s2) = v"
  proof (rule creation_alone)
    show "sy_creations ?s2 = (\<lambda>_. None)(0 := Some ?c)" by (simp add: idle_system_def)
    show "creation_sound sample_platform (table ?s2) ?c"
      using new_creation_sound [OF _ _ ok] by (simp add: sample_new_order_def)
    show "db_ok (table ?s2)" using ok by simp
    show "run_writes sample_platform (cn_now ?c) (cn_todo ?c) (view ?c (table ?s2)) = Some v"
      using v(1) view by (simp add: new_creation_def)
  qed
  then obtain c' where c': "system_steps sample_platform sample_options ?s2 (with_creation 0 (Some c') ?s2)"
      "cn_todo c' = []" "view c' claimed_db = v" by (auto dest: write_step_system)
  let ?s3 = "with_creation 0 (Some c') ?s2"
  let ?s4 = "with_table (view c' (table ?s3)) (with_creation 0 None ?s3)"
  have 4: "system_step sample_platform sample_options ?s3 ?s4"
    by (rule commits_order) (use c'(2) in simp_all)
  have steps: "system_steps sample_platform sample_options (idle_system empty_db) ?s4"
    using 1 2 c'(1) 4 by (meson converse_rtranclp_into_rtranclp rtranclp.rtrancl_into_rtrancl)
  with interleavings_are_atomic_steps [OF db_ok_empty paired_empty steps] c'(3) v(2) show ?thesis
    by (intro exI [of _ ?s4]) simp
qed

end
