(* ===== verification/Claim_Race.thy ===== *)
theory Claim_Race
  imports Create_Order
begin

text \<open>
  Concurrent requests under one idempotency key.  Every request runs \<open>Require\<close>: the insert of
  \<open>Claim\<close>, the read of \<open>get\<close> when the insert found the key taken, the handler's transaction, and
  the deferred \<open>Release\<close>.  Postgres runs each statement, and each transaction, atomically; between
  them any other request may run.  The relation \<open>race_step\<close> has one rule per atomic action, with
  the SQL of \<open>internal/idempotency/store.go\<close>; a request may also break off at any point.
\<close>

section \<open>The requests\<close>

text \<open>The decision of \<open>Claim\<close> on the record it has read.\<close>

definition decided :: "string \<Rightarrow> key_record \<Rightarrow> outcome" where
  "decided requestHash existing =
    (if rec_request_hash existing \<noteq> requestHash then OutcomeConflict
     else if rec_state existing = StateCompleted then OutcomeReplay
     else OutcomeInProgress)"

datatype phase =
    Arriving
  | Reading
  | Owning
  | Completed
  | Released
  | Answered outcome
  | Failed

record race =
  tables :: database
  phases :: "nat \<Rightarrow> phase"

abbreviation goes :: "race \<Rightarrow> database \<Rightarrow> nat \<Rightarrow> phase \<Rightarrow> race" where
  "goes s d c p \<equiv> s\<lparr>tables := d, phases := (phases s)(c := p)\<rparr>"

inductive race_step ::
  "platform \<Rightarrow> (nat \<Rightarrow> string) \<Rightarrow> (nat \<Rightarrow> string) \<Rightarrow> race \<Rightarrow> race \<Rightarrow> bool" for pf ks hs where
  wins:
    "phases s c = Arriving \<Longrightarrow> sql_claim now (ks c) (hs c) (tables s) = Inr (Some k, d) \<Longrightarrow>
       race_step pf ks hs s (goes s d c Owning)"
| loses:
    "phases s c = Arriving \<Longrightarrow> sql_claim now (ks c) (hs c) (tables s) = Inr (None, d) \<Longrightarrow>
       race_step pf ks hs s (goes s d c Reading)"
| unheard:
    "phases s c = Arriving \<Longrightarrow> sql_claim now (ks c) (hs c) (tables s) = Inr (x, d) \<Longrightarrow>
       race_step pf ks hs s (goes s d c Failed)"
| reads:
    "phases s c = Reading \<Longrightarrow> sql_get_key (ks c) (tables s) = Inr (Some r, d) \<Longrightarrow>
       race_step pf ks hs s (goes s d c (Answered (decided (hs c) r)))"
| reads_nothing:
    "phases s c = Reading \<Longrightarrow> sql_get_key (ks c) (tables s) = Inr (None, d) \<Longrightarrow>
       race_step pf ks hs s (goes s d c Failed)"
| completes:
    "phases s c = Owning \<Longrightarrow> ks c \<noteq> [] \<Longrightarrow> db_ok d \<Longrightarrow>
       stored pf now ord events (completion_for (ks c) ord) (tables s) d \<Longrightarrow>
       race_step pf ks hs s (goes s d c Completed)"
| releases:
    "phases s c = Owning \<Longrightarrow> sql_release (ks c) (tables s) = Inr (u, d) \<Longrightarrow>
       race_step pf ks hs s (goes s d c Released)"
| releases_late:
    "phases s c = Completed \<Longrightarrow> sql_release (ks c) (tables s) = Inr (u, d) \<Longrightarrow>
       race_step pf ks hs s (goes s d c Completed)"
| breaks_off:
    "phases s c \<in> {Arriving, Reading, Owning} \<Longrightarrow>
       race_step pf ks hs s (goes s (tables s) c Failed)"
| elsewhere:
    "idempotency_keys d = idempotency_keys (tables s) \<Longrightarrow> db_ok d \<Longrightarrow>
       race_step pf ks hs s (s\<lparr>tables := d\<rparr>)"

inductive_cases race_step_elim: "race_step pf ks hs s s'"

abbreviation race_steps ::
  "platform \<Rightarrow> (nat \<Rightarrow> string) \<Rightarrow> (nat \<Rightarrow> string) \<Rightarrow> race \<Rightarrow> race \<Rightarrow> bool" where
  "race_steps pf ks hs \<equiv> (race_step pf ks hs)\<^sup>*\<^sup>*"

text \<open>Run without interruption, the two statements are \<open>Claim\<close>.\<close>

lemma Claim_is_insert_then_read:
  assumes "calm w"
  shows "Claim k h w =
    (case sql_claim (clock w) k h (db w) of
       Inr (Some _, d) \<Rightarrow> (Ok (OutcomeOwned, claimed_record k h), w\<lparr>db := d\<rparr>)
     | Inr (None, d) \<Rightarrow>
         (case sql_get_key k d of
            Inr (Some r, d') \<Rightarrow> (Ok (decided h r, r), w\<lparr>db := d'\<rparr>)
          | _ \<Rightarrow> (Err (Wrapf (''idempotency: get '' @ k @ '': '') ErrNoRows []), w\<lparr>db := d\<rparr>))
     | Inl e \<Rightarrow> (Err (Wrapf ''idempotency: claim: '' e []), w))"
  using assms
  by (auto simp: Claim_def get_key_def query_row_def driver_call_calm run_stmt_def decided_def
      sql_claim_def sql_get_key_def calm_def ErrNoRows_def
      split: option.splits sum.splits prod.splits)

section \<open>The invariant\<close>

text \<open>Who may be running the handler for key \<open>k\<close>, or has run it to its end.\<close>

definition holds :: "(nat \<Rightarrow> string) \<Rightarrow> race \<Rightarrow> string \<Rightarrow> nat \<Rightarrow> bool" where
  "holds ks s k c \<longleftrightarrow> ks c = k \<and> phases s c \<in> {Owning, Completed}"

definition done_as :: "race \<Rightarrow> string \<Rightarrow> string \<Rightarrow> bool" where
  "done_as s k h \<longleftrightarrow> (\<exists>rid code body. key_store_of (tables s) k = Some (Done h rid code body))"

definition key_view :: "(nat \<Rightarrow> string) \<Rightarrow> (nat \<Rightarrow> string) \<Rightarrow> race \<Rightarrow> nat \<Rightarrow> bool" where
  "key_view ks hs s c \<longleftrightarrow>
    (phases s c = Owning \<longrightarrow> key_store_of (tables s) (ks c) = Some (Claimed (hs c))) \<and>
    (phases s c \<in> {Completed, Answered OutcomeReplay} \<longrightarrow> done_as s (ks c) (hs c))"

definition race_inv :: "(nat \<Rightarrow> string) \<Rightarrow> (nat \<Rightarrow> string) \<Rightarrow> race \<Rightarrow> bool" where
  "race_inv ks hs s \<longleftrightarrow> db_ok (tables s) \<and> (\<forall>c. key_view ks hs s c) \<and>
    (\<forall>k c c'. holds ks s k c \<longrightarrow> holds ks s k c' \<longrightarrow> c = c')"

text \<open>
  Among the requests of a key that was free: all have still to arrive, or one of them holds the
  key, or one has broken off or let go.
\<close>

definition elected :: "(nat \<Rightarrow> string) \<Rightarrow> race \<Rightarrow> string \<Rightarrow> bool" where
  "elected ks s k \<longleftrightarrow>
    (key_store_of (tables s) k = None \<and> (\<forall>c. ks c = k \<longrightarrow> phases s c = Arriving)) \<or>
    (\<exists>c. holds ks s k c) \<or> (\<exists>c. ks c = k \<and> phases s c \<in> {Released, Failed})"

text \<open>What the actions do to the key store.\<close>

lemma completion_for_keys:
  assumes "stored pf now ord events (completion_for k ord) d d'" and "db_ok d" and "k \<noteq> []"
  shows "\<exists>h. key_store_of d k = Some (Claimed h) \<and>
    key_store_of d' = (key_store_of d)(k \<mapsto> Done h (o_id ord) 202 (encode (result_json (result_of ord))))"
proof -
  let ?cp = "\<lparr>cp_key = k, cp_resource_type = ''order'', cp_resource_id = o_id ord,
    cp_status_code = 202, cp_response_body = encode (result_json (result_of ord))\<rparr>"
  have "stored pf now ord events (Some ?cp) d d'"
    using assms(1,3) by (simp add: completion_for_def)
  from stored_keys [OF this assms(2)] show ?thesis
    by (auto simp: spec_complete_def fits_int4_def split: option.splits key_state.splits)
qed

lemma sql_claim_cases:
  assumes "sql_claim now k h d = Inr (x, d')"
  obtains (fresh) "key_store_of d k = None" and "x = Some k"
      and "key_store_of d' = (key_store_of d)(k \<mapsto> Claimed h)"
  | (taken) st where "key_store_of d k = Some st" and "x = None" and "d' = d"
  using assms sql_claim_new [of d k now h] sql_claim_old [of d k _ now h]
  by (cases "key_store_of d k") auto

lemma decided_replay:
  assumes "sql_get_key k d = Inr (Some r, d')" and "decided h r = OutcomeReplay"
  shows "\<exists>rid code body. key_store_of d k = Some (Done h rid code body)"
  using assms
  by (auto simp: sql_get_key_def decided_def key_store_Done StateCompleted_def
      split: if_splits)

text \<open>
  An action of one request moves the key store at its own key only, from free to claimed, from
  claimed by it to done or to free, or not at all.
\<close>

lemma race_step_cases:
  assumes "race_step pf ks hs s s'" and "race_inv ks hs s"
  obtains (claims) c p where "phases s c = Arriving" and "key_store_of (tables s) (ks c) = None"
      and "p \<in> {Owning, Failed}" and "db_ok (tables s')" and "phases s' = (phases s)(c := p)"
      and "key_store_of (tables s') = (key_store_of (tables s))(ks c \<mapsto> Claimed (hs c))"
  | (looks) c p where "key_store_of (tables s') = key_store_of (tables s)"
      and "db_ok (tables s')" and "phases s' = (phases s)(c := p)"
      and "phases s c \<in> {Arriving, Reading, Owning}" and "p \<notin> {Arriving, Owning, Completed}"
      and "p = Failed \<or> (\<exists>st. key_store_of (tables s) (ks c) = Some st) \<and> phases s c \<noteq> Owning"
      and "p = Answered OutcomeReplay \<Longrightarrow> done_as s (ks c) (hs c)"
  | (ends) c p v where "phases s c = Owning" and "db_ok (tables s')"
      and "phases s' = (phases s)(c := p)"
      and "key_store_of (tables s') = (key_store_of (tables s))(ks c := v)"
      and "(p = Released \<and> v = None) \<or>
           (p = Completed \<and> (\<exists>rid code body. v = Some (Done (hs c) rid code body)))"
  | (same) "key_store_of (tables s') = key_store_of (tables s)" and "db_ok (tables s')"
      and "phases s' = phases s"
proof -
  have ok: "db_ok (tables s)" and view: "\<And>c. key_view ks hs s c"
    using assms(2) by (auto simp: race_inv_def)
  show ?thesis
    using assms(1)
  proof cases
    case (wins c now k d)
    from wins(3) db_ok_sql_claim [OF wins(3) ok] claims [of c Owning] wins(1,2) show ?thesis
      by (cases rule: sql_claim_cases) auto
  next
    case (loses c now d)
    from loses(3) db_ok_sql_claim [OF loses(3) ok] looks [of c Reading] loses(1,2) show ?thesis
      by (cases rule: sql_claim_cases) auto
  next
    case (unheard c now x d)
    from unheard(3) db_ok_sql_claim [OF unheard(3) ok] claims [of c Failed] looks [of c Failed]
      unheard(1,2) show ?thesis
      by (cases rule: sql_claim_cases) auto
  next
    case (reads c r d)
    have "d = tables s" and "\<exists>st. key_store_of (tables s) (ks c) = Some st"
      using reads(3) by (auto simp: sql_get_key_def key_store_of_def)
    with reads decided_replay [OF reads(3), of "hs c"] ok done_as_def looks [of c "Answered (decided (hs c) r)"]
    show ?thesis by auto
  next
    case (reads_nothing c d)
    then have "d = tables s" by (simp add: sql_get_key_def)
    with reads_nothing ok looks [of c Failed] show ?thesis by auto
  next
    case (completes c d now ord events)
    from view [of c] completes(2) have "key_store_of (tables s) (ks c) = Some (Claimed (hs c))"
      by (simp add: key_view_def)
    with completion_for_keys [OF completes(5) ok completes(3)] completes(1,2,4)
      ends [of c Completed] show ?thesis by fastforce
  next
    case (releases c u d)
    from view [of c] releases(2) have "key_store_of (tables s) (ks c) = Some (Claimed (hs c))"
      by (simp add: key_view_def)
    with sql_release_refines [OF ok releases(3)] db_ok_sql_release [OF releases(3) ok] releases(1,2)
      ends [of c Released None] show ?thesis by (simp add: spec_release_def)
  next
    case (releases_late c u d)
    from view [of c] releases_late(2) obtain rid code body where
      "key_store_of (tables s) (ks c) = Some (Done (hs c) rid code body)"
      by (auto simp: key_view_def done_as_def)
    with sql_release_refines [OF ok releases_late(3)] have "key_store_of d = key_store_of (tables s)"
      by (simp add: spec_release_def)
    with db_ok_sql_release [OF releases_late(3) ok] releases_late(1,2) show ?thesis
      by (intro same) (auto simp: fun_eq_iff)
  next
    case (breaks_off c)
    with ok looks [of c Failed] show ?thesis by auto
  next
    case (elsewhere d)
    then show ?thesis by (intro same) (auto intro: key_store_of_cong)
  qed
qed

lemma race_step_inv:
  assumes "race_step pf ks hs s s'" and "race_inv ks hs s"
  shows "race_inv ks hs s'"
proof -
  have view: "key_view ks hs s c" for c
    using assms(2) by (simp add: race_inv_def)
  have one: "c = c'" if "holds ks s k c" "holds ks s k c'" for k c c'
    using assms(2) that by (auto simp: race_inv_def)
  from assms show ?thesis
  proof (cases rule: race_step_cases)
    case (claims c p)
    have free: "\<not> holds ks s (ks c) c'" for c'
      using view [of c'] claims(2) by (auto simp: holds_def key_view_def done_as_def)
    have "key_view ks hs s' c'" for c'
      using view [of c'] claims free [of c']
      by (auto simp: key_view_def done_as_def holds_def)
    moreover have "c1 = c2" if "holds ks s' k c1" "holds ks s' k c2" for k c1 c2
      using that claims(5) free one [of k c1 c2] by (auto simp: holds_def split: if_splits)
    ultimately show ?thesis using claims(4) by (auto simp: race_inv_def)
  next
    case (looks c p)
    have "key_view ks hs s' c'" for c'
      using view [of c'] looks by (auto simp: key_view_def done_as_def)
    moreover have "c1 = c2" if "holds ks s' k c1" "holds ks s' k c2" for k c1 c2
      using that looks(3,5) one [of k c1 c2] by (auto simp: holds_def split: if_splits)
    ultimately show ?thesis using looks(2) by (auto simp: race_inv_def)
  next
    case (ends c p v)
    have mine: "key_store_of (tables s) (ks c) = Some (Claimed (hs c))" "holds ks s (ks c) c"
      using view [of c] ends(1) by (auto simp: key_view_def holds_def)
    have alone: "\<not> holds ks s (ks c) c'" if "c' \<noteq> c" for c'
      using one [OF mine(2), of c'] that by auto
    have was: "holds ks s k a" if "holds ks s' k a" for k a
      using that ends(1,3) by (cases "a = c") (auto simp: holds_def)
    have "key_view ks hs s' c'" for c'
    proof (cases "ks c' = ks c \<and> c' \<noteq> c")
      case True
      with alone [of c'] view [of c'] mine(1)
      have "phases s c' \<notin> {Owning, Completed, Answered OutcomeReplay}"
        by (auto simp: holds_def key_view_def done_as_def)
      with True ends(3) show ?thesis by (simp add: key_view_def)
    next
      case False
      with view [of c'] ends(3-5) show ?thesis
        by (cases "c' = c") (auto simp: key_view_def done_as_def)
    qed
    moreover have "c1 = c2" if "holds ks s' k c1" "holds ks s' k c2" for k c1 c2
      using one [OF was [OF that(1)] was [OF that(2)]] .
    ultimately show ?thesis using ends(2) by (auto simp: race_inv_def)
  next
    case same
    have "key_view ks hs s' c" for c
      using view [of c] same(1,3) by (simp add: key_view_def done_as_def)
    with assms(2) same(2,3) show ?thesis by (simp add: race_inv_def holds_def)
  qed
qed

lemma elected_cong:
  assumes "\<And>c. ks c = k \<Longrightarrow> phases s' c = phases s c"
    and "key_store_of (tables s') k = key_store_of (tables s) k"
  shows "elected ks s' k \<longleftrightarrow> elected ks s k"
  using assms by (auto simp: elected_def holds_def)

lemma electedI:
  "ks c = k \<Longrightarrow> phases s c \<in> {Owning, Completed, Released, Failed} \<Longrightarrow> elected ks s k"
  by (auto simp: elected_def holds_def)

lemma elected_busy:
  assumes "elected ks s k" and "key_store_of (tables s) k \<noteq> None"
  obtains c where "ks c = k" and "phases s c \<in> {Owning, Completed, Released, Failed}"
  using assms by (auto simp: elected_def holds_def)

lemma race_step_elected:
  assumes "race_step pf ks hs s s'" and "race_inv ks hs s" and "elected ks s k"
  shows "elected ks s' k"
  using assms(1,2)
proof (cases rule: race_step_cases)
  case (claims c p)
  show ?thesis
  proof (cases "ks c = k")
    case True
    with claims(3,5) show ?thesis by (intro electedI [of _ c]) auto
  next
    case False
    with claims(5,6) assms(3) show ?thesis by (subst elected_cong) auto
  qed
next
  case (looks c p)
  show ?thesis
  proof (cases "ks c = k \<and> p \<noteq> Failed")
    case True
    with looks(6) obtain a where "ks a = k" "phases s a \<in> {Owning, Completed, Released, Failed}"
      using elected_busy [OF assms(3)] by auto
    with True looks(3,4,6) show ?thesis by (intro electedI [of _ a]) auto
  next
    case False
    show ?thesis
    proof (cases "ks c = k")
      case True
      with False looks(3) show ?thesis by (intro electedI [of _ c]) auto
    next
      case False
      with looks(1,3) assms(3) show ?thesis by (subst elected_cong) auto
    qed
  qed
next
  case (ends c p v)
  show ?thesis
  proof (cases "ks c = k")
    case True
    with ends(3,5) show ?thesis by (intro electedI [of _ c]) auto
  next
    case False
    with ends(3,4) assms(3) show ?thesis by (subst elected_cong) auto
  qed
next
  case same
  with assms(3) show ?thesis by (subst elected_cong) auto
qed

lemma race_steps_inv:
  assumes "race_steps pf ks hs s s'" and "race_inv ks hs s" and "elected ks s k"
  shows "race_inv ks hs s' \<and> elected ks s' k"
  using assms by (induction rule: rtranclp_induct) (auto intro: race_step_inv race_step_elected)

definition everyone_arrives :: "race \<Rightarrow> bool" where
  "everyone_arrives s \<longleftrightarrow> phases s = (\<lambda>_. Arriving)"

lemma race_inv_start:
  assumes "db_ok (tables s)" and "everyone_arrives s"
  shows "race_inv ks hs s" and "key_store_of (tables s) k = None \<Longrightarrow> elected ks s k"
  using assms by (auto simp: race_inv_def everyone_arrives_def key_view_def holds_def elected_def)


section \<open>One owner\<close>

text \<open>C9: exactly one of the concurrent requests for a free key owns it.  However the statements of any
  number of requests interleave, and wherever they break off, at most one request per key runs or
  has run the handler to its end; while it runs the key is claimed with its hash, so its completion
  cannot fail for want of a claim; an answer is replayed only when the key is done with that very
  hash; and as soon as a request has touched the key there is such an owner, unless one has given
  the key up or broken off.\<close>

theorem one_owner_per_key:
  assumes "race_steps pf ks hs s s'" and "db_ok (tables s)" and "everyone_arrives s"
    and "key_store_of (tables s) k = None"
  shows "(\<forall>c c'. holds ks s' k c \<and> holds ks s' k c' \<longrightarrow> c = c') \<and>
    (\<forall>c. ks c = k \<longrightarrow>
      (phases s' c = Owning \<longrightarrow> key_store_of (tables s') k = Some (Claimed (hs c))) \<and>
      (phases s' c \<in> {Completed, Answered OutcomeReplay} \<longrightarrow> done_as s' k (hs c)) \<and>
      (phases s' c \<noteq> Arriving \<longrightarrow>
        (\<exists>!a. holds ks s' k a) \<or> (\<exists>a. ks a = k \<and> phases s' a \<in> {Released, Failed})))"
proof -
  from race_steps_inv [OF assms(1) race_inv_start(1) [OF assms(2,3)]
      race_inv_start(2) [OF assms(2-4)]]
  have inv: "race_inv ks hs s'" and el: "elected ks s' k" by auto
  have view: "key_view ks hs s' c" for c
    using inv by (simp add: race_inv_def)
  have one: "c = c'" if "holds ks s' k c" "holds ks s' k c'" for c c'
    using inv that by (auto simp: race_inv_def)
  have elect: "(\<exists>!a. holds ks s' k a) \<or> (\<exists>a. ks a = k \<and> phases s' a \<in> {Released, Failed})"
    if "ks c = k" "phases s' c \<noteq> Arriving" for c
    using el that one by (auto simp: elected_def)
  show ?thesis
    using view elect one unfolding key_view_def by blast
qed

text \<open>Two requests race for a key: the first inserts, the second finds it taken and reads.\<close>

definition race_start :: race where
  "race_start = \<lparr>tables = empty_db, phases = \<lambda>_. Arriving\<rparr>"

definition race_won :: race where
  "race_won = goes race_start
     (empty_db\<lparr>idempotency_keys := [new_key_row 7 ''k'' ''h'']\<rparr>) 0 Owning"

lemma race_start_wins: "race_step pf (\<lambda>_. ''k'') (\<lambda>_. ''h'') race_start race_won"
  unfolding race_won_def
  by (rule wins [where now = 7 and k = "''k''"])
     (simp_all add: race_start_def sql_claim_def empty_db_def)

lemma race_won_loses:
  "race_step pf (\<lambda>_. ''k'') (\<lambda>_. ''h'') race_won (goes race_won (tables race_won) 1 Reading)"
  by (rule loses [where now = 8])
     (simp_all add: race_won_def race_start_def sql_claim_def empty_db_def new_key_row_def)

theorem one_owner_per_key_witness:
  "\<exists>!a. holds (\<lambda>_. ''k'') (goes race_won (tables race_won) 1 Reading) ''k'' a"
proof -
  let ?s = "goes race_won (tables race_won) 1 Reading"
  have run: "race_steps sample_platform (\<lambda>_. ''k'') (\<lambda>_. ''h'') race_start ?s"
    using race_start_wins race_won_loses by (blast intro: rtranclp.intros)
  have start: "db_ok (tables race_start)" "everyone_arrives race_start"
      "key_store_of (tables race_start) ''k'' = None"
    by (simp_all add: race_start_def everyone_arrives_def key_store_of_def empty_db_def
        db_ok_empty [unfolded empty_db_def])
  have here: "phases ?s 1 \<noteq> Arriving" "\<And>a. phases ?s a \<notin> {Released, Failed}"
    by (simp_all add: race_won_def race_start_def)
  from one_owner_per_key [OF run start] here show ?thesis
    by blast
qed
end
