(* ===== verification/Concurrent_Requests.thy ===== *)
theory Concurrent_Requests
  imports Concurrent_System Claim_Race
begin

text \<open>
  Whole requests, interleaved.  Every request to \<open>POST /orders\<close> runs \<open>Require\<close> of
  \<open>internal/idempotency/middleware.go\<close> around \<open>Create\<close>, statement by statement, on the database of theory
  \<open>Concurrent_System\<close>: the insert of \<open>Claim\<close>, the read of \<open>get\<close> when the key was taken, the statements of the
  handler's transaction and its commit, the deferred \<open>Release\<close>.  Publishers run along.  The relation
  \<open>service_step\<close> records what each request is told, and its invariant ties that to the key store.
\<close>

section \<open>The requests\<close>

datatype answer =
    Accepted string
  | Replayed int string
  | StillProcessing
  | KeyReused
  | Refused

text \<open>The status and the body of an answer that names an order.\<close>

fun order_answer :: "answer \<Rightarrow> (int \<times> string) option" where
  "order_answer (Accepted body) = Some (202, body)"
| "order_answer (Replayed code body) = Some (code, body)"
| "order_answer _ = None"

text \<open>What a request is told that has found its key taken.\<close>

definition taken_answer :: "string \<Rightarrow> key_record \<Rightarrow> answer" where
  "taken_answer requestHash existing =
    (case decided requestHash existing of
       OutcomeConflict \<Rightarrow> KeyReused
     | OutcomeReplay \<Rightarrow> Replayed (rec_status_code existing) (rec_response_body existing)
     | _ \<Rightarrow> StillProcessing)"

text \<open>
  Where a request is: before its insert; before its read; running the handler, without or with an open
  transaction; after a handler that failed, with the \<open>Release\<close> to come; done.
\<close>

datatype stage = Arrived | Looking | Handling | Creating | Failing | Told answer

record service =
  sv_system :: system
  sv_stages :: "nat \<Rightarrow> stage"

abbreviation sv_table :: "service \<Rightarrow> database" where
  "sv_table s \<equiv> table (sv_system s)"

definition moves_on :: "service \<Rightarrow> system \<Rightarrow> nat \<Rightarrow> stage \<Rightarrow> service" where
  "moves_on s y i x = s\<lparr>sv_system := y, sv_stages := (sv_stages s)(i := x)\<rparr>"

text \<open>
  \<open>ks\<close> and \<open>hs\<close> are the keys and the hashes of the bodies.  A request's transaction has the number of the
  request.  A statement whose answer is lost has run, and the request goes on as if it had failed; a
  process that dies is a transaction that is rolled back and a release that is lost.
\<close>

inductive service_step ::
  "platform \<Rightarrow> publisher_options \<Rightarrow> (nat \<Rightarrow> string) \<Rightarrow> (nat \<Rightarrow> string) \<Rightarrow> service \<Rightarrow> service \<Rightarrow> bool"
  for pf opts ks hs where
  claim_won:
    "sv_stages s i = Arrived \<Longrightarrow> ks i \<noteq> [] \<Longrightarrow>
       sql_claim now (ks i) (hs i) (sv_table s) = Inr (Some k, d) \<Longrightarrow> next_stage \<in> {Handling, Told Refused} \<Longrightarrow>
       service_step pf opts ks hs s (moves_on s (with_table d (sv_system s)) i next_stage)"
| claim_lost:
    "sv_stages s i = Arrived \<Longrightarrow> sql_claim now (ks i) (hs i) (sv_table s) = Inr (None, d) \<Longrightarrow>
       service_step pf opts ks hs s (moves_on s (sv_system s) i Looking)"
| looked:
    "sv_stages s i = Looking \<Longrightarrow> sql_get_key (ks i) (sv_table s) = Inr (Some r, d) \<Longrightarrow>
       service_step pf opts ks hs s (moves_on s (sv_system s) i (Told (taken_answer (hs i) r)))"
| failed_early:
    "sv_stages s i \<in> {Arrived, Looking} \<Longrightarrow>
       service_step pf opts ks hs s (moves_on s (sv_system s) i (Told Refused))"
| handler_begins:
    "sv_stages s i = Handling \<Longrightarrow> sy_creations (sv_system s) i = None \<Longrightarrow> o_status ord = StatusPending \<Longrightarrow>
       service_step pf opts ks hs s
         (moves_on s (with_creation i (Some (new_creation now ord eid (ks i))) (sv_system s)) i Creating)"
| handler_refuses:
    "sv_stages s i = Handling \<Longrightarrow> service_step pf opts ks hs s (moves_on s (sv_system s) i Failing)"
| handler_writes:
    "sv_stages s i = Creating \<Longrightarrow> sy_creations (sv_system s) i = Some c \<Longrightarrow> cn_todo c = x # rest \<Longrightarrow>
       \<not> must_wait (sv_system s) i x \<Longrightarrow> run_write pf (cn_now c) x (view c (sv_table s)) = Some v \<Longrightarrow>
       service_step pf opts ks hs s
         (moves_on s (with_creation i (Some (after_write (sv_table s) x v c)) (sv_system s)) i Creating)"
| handler_commits:
    "sv_stages s i = Creating \<Longrightarrow> sy_creations (sv_system s) i = Some c \<Longrightarrow> cn_todo c = [] \<Longrightarrow>
       next_stage \<in> {Told (Accepted (accepted_body (o_id (cn_order c)))), Failing} \<Longrightarrow>
       service_step pf opts ks hs s
         (moves_on s (with_table (view c (sv_table s)) (with_creation i None (sv_system s))) i next_stage)"
| handler_fails:
    "sv_stages s i = Creating \<Longrightarrow> sy_creations (sv_system s) i = Some c \<Longrightarrow>
       service_step pf opts ks hs s (moves_on s (with_creation i None (sv_system s)) i Failing)"
| releases:
    "sv_stages s i = Failing \<Longrightarrow> \<not> locked_by_other (sv_system s) None (ks i) \<Longrightarrow>
       sql_release (ks i) (sv_table s) = Inr ((), d) \<Longrightarrow>
       service_step pf opts ks hs s (moves_on s (with_table d (sv_system s)) i (Told Refused))"
| release_fails:
    "sv_stages s i = Failing \<Longrightarrow> service_step pf opts ks hs s (moves_on s (sv_system s) i (Told Refused))"
| drains:
    "fleet_step pf opts (sy_fleet (sv_system s)) f \<Longrightarrow> ft_open f \<noteq> ft_open (sy_fleet (sv_system s)) \<Longrightarrow>
       service_step pf opts ks hs s (s\<lparr>sv_system := (sv_system s)\<lparr>sy_fleet := f\<rparr>\<rparr>)"

abbreviation service_steps ::
  "platform \<Rightarrow> publisher_options \<Rightarrow> (nat \<Rightarrow> string) \<Rightarrow> (nat \<Rightarrow> string) \<Rightarrow> service \<Rightarrow> service \<Rightarrow> bool" where
  "service_steps pf opts ks hs \<equiv> (service_step pf opts ks hs)\<^sup>*\<^sup>*"

definition open_service :: "database \<Rightarrow> service" where
  "open_service d = \<lparr>sv_system = idle_system d, sv_stages = (\<lambda>_. Arrived)\<rparr>"

lemma moves_on_simps [simp]:
  "sv_system (moves_on s y i x) = y" "sv_stages (moves_on s y i x) = (sv_stages s)(i := x)"
  by (simp_all add: moves_on_def)

text \<open>A request's steps are steps of the system.\<close>

lemma service_system_step:
  assumes "service_step pf opts ks hs s s'" and "\<And>i. sv_stages s i = Handling \<Longrightarrow> ks i \<noteq> []"
  shows "system_steps pf opts (sv_system s) (sv_system s')"
  using assms(1)
proof cases
  case (claim_won i now k d next_stage)
  have "k = ks i" using claim_won(4) by (auto simp: sql_claim_def split: option.splits)
  with claim_won claims_key [of now "ks i" "hs i" "sv_system s" d] show ?thesis by auto
next
  case (handler_begins i ord now eid)
  with assms(2) begins [of "sv_system s" i "ks i" ord] show ?thesis by auto
next
  case (handler_writes i c x rest v)
  with writes [of "sv_system s" i c x rest pf v opts] show ?thesis by auto
next
  case (handler_commits i c next_stage)
  with commits_order [of "sv_system s" i c pf opts] show ?thesis by auto
next
  case (handler_fails i c)
  with gives_up [of "sv_system s" i c pf opts] show ?thesis by auto
next
  case (releases i d)
  with releases_key [of "sv_system s" "ks i" d pf opts] show ?thesis by auto
next
  case (drains f)
  with publishes [of pf opts "sv_system s" f] show ?thesis by auto
qed simp_all


section \<open>The invariant\<close>

definition active :: "stage \<Rightarrow> bool" where
  "active x \<longleftrightarrow> x \<in> {Handling, Creating, Failing}"

text \<open>
  What a request's stage says of its key: claimed for it while the handler runs, claimed or done while the
  release is to come, done with the very answer once an order has been named to the client.
\<close>

definition request_view :: "database \<Rightarrow> string \<Rightarrow> string \<Rightarrow> stage \<Rightarrow> bool" where
  "request_view d k h x \<longleftrightarrow>
    (x \<in> {Handling, Creating} \<longrightarrow> key_store_of d k = Some (Claimed h)) \<and>
    (x = Failing \<longrightarrow> key_store_of d k = Some (Claimed h) \<or>
       (\<exists>oid code body. key_store_of d k = Some (Done h oid code body))) \<and>
    (\<forall>a code body. x = Told a \<longrightarrow> order_answer a = Some (code, body) \<longrightarrow>
       code = 202 \<and> (\<exists>oid. body = accepted_body oid \<and> key_store_of d k = Some (Done h oid 202 body)))"

definition service_inv ::
  "platform \<Rightarrow> publisher_options \<Rightarrow> (nat \<Rightarrow> string) \<Rightarrow> (nat \<Rightarrow> string) \<Rightarrow> service \<Rightarrow> bool" where
  "service_inv pf opts ks hs s \<longleftrightarrow>
    system_inv pf opts (sv_system s) \<and> paired (sv_table s) \<and>
    (\<forall>i. request_view (sv_table s) (ks i) (hs i) (sv_stages s i)) \<and>
    (\<forall>i. active (sv_stages s i) \<longrightarrow> ks i \<noteq> []) \<and>
    (\<forall>i j. active (sv_stages s i) \<longrightarrow> active (sv_stages s j) \<longrightarrow> ks i = ks j \<longrightarrow> i = j) \<and>
    (\<forall>i c. sy_creations (sv_system s) i = Some c \<longrightarrow> sv_stages s i = Creating \<and> cn_key c = ks i)"

lemma system_steps_keep:
  "system_steps pf opts y y' \<Longrightarrow> system_inv pf opts y \<Longrightarrow> system_inv pf opts y' \<and> db_steps pf (table y) (table y')"
  by (induction rule: rtranclp_induct) (auto dest: system_inv_step)

lemma service_inv_db_ok: "service_inv pf opts ks hs s \<Longrightarrow> db_ok (sv_table s)"
  using system_inv_db_ok [of pf opts "sv_system s"] by (simp add: service_inv_def)

lemma service_inv_view: "service_inv pf opts ks hs s \<Longrightarrow> request_view (sv_table s) (ks i) (hs i) (sv_stages s i)"
  by (simp add: service_inv_def)

text \<open>A change of the database leaves a request's view alone when done keys stay done and its own key is not touched.\<close>

lemma request_view_kept:
  assumes "request_view d k h x" and "\<And>h oid code body. key_store_of d k = Some (Done h oid code body) \<Longrightarrow>
      key_store_of d' k = Some (Done h oid code body)"
    and "active x \<Longrightarrow> key_store_of d' k = key_store_of d k"
  shows "request_view d' k h x"
  using assms unfolding request_view_def active_def by auto

text \<open>One request moves, the others stay.\<close>

lemma service_inv_move:
  assumes "service_inv pf opts ks hs s" and "system_steps pf opts (sv_system s) y"
    and "request_view (table y) (ks i) (hs i) x"
    and "active x \<Longrightarrow> ks i \<noteq> [] \<and> (\<forall>j. j \<noteq> i \<longrightarrow> active (sv_stages s j) \<longrightarrow> ks j \<noteq> ks i)"
    and "\<And>j. j \<noteq> i \<Longrightarrow> active (sv_stages s j) \<Longrightarrow> key_store_of (table y) (ks j) = key_store_of (sv_table s) (ks j)"
    and "\<And>j c. sy_creations y j = Some c \<Longrightarrow>
      if j = i then x = Creating \<and> cn_key c = ks i else sy_creations (sv_system s) j = Some c"
  shows "service_inv pf opts ks hs (moves_on s y i x)"
proof -
  have inv: "system_inv pf opts (sv_system s)" and pair: "paired (sv_table s)"
    using assms(1) by (simp_all add: service_inv_def)
  from system_steps_keep [OF assms(2) inv] have y: "system_inv pf opts y" "db_steps pf (sv_table s) (table y)"
    by blast+
  note ok = service_inv_db_ok [OF assms(1)]
  have "paired (table y)" using db_steps_invariant [OF y(2) ok pair] by blast
  moreover have "request_view (table y) (ks j) (hs j) (sv_stages s j)" if "j \<noteq> i" for j
    by (rule request_view_kept [OF service_inv_view [OF assms(1)]])
       (use db_steps_done [OF y(2) ok] assms(5) [OF that] in auto)
  ultimately have views: "paired (table y)" "\<forall>j. request_view (table y) (ks j) (hs j) (((sv_stages s)(i := x)) j)"
    using assms(3) by auto
  have keyed: "\<forall>j. active (((sv_stages s)(i := x)) j) \<longrightarrow> ks j \<noteq> []"
    using assms(1,4) by (simp add: service_inv_def)
  have alone: "j = l" if "active (((sv_stages s)(i := x)) j)" "active (((sv_stages s)(i := x)) l)" "ks j = ks l" for j l
  proof (cases "j = i \<or> l = i")
    case True
    then show ?thesis using that assms(4) by (auto split: if_splits)
  next
    case False
    then show ?thesis using that assms(1) by (simp add: service_inv_def)
  qed
  have created: "((sv_stages s)(i := x)) j = Creating \<and> cn_key c = ks j" if "sy_creations y j = Some c" for j c
  proof (cases "j = i")
    case True
    then show ?thesis using assms(6) [OF that] by simp
  next
    case False
    then have "sy_creations (sv_system s) j = Some c" using assms(6) [OF that] by simp
    then have "sv_stages s j = Creating" "cn_key c = ks j"
      using assms(1) unfolding service_inv_def by blast+
    with False show ?thesis by simp
  qed
  show ?thesis
    unfolding service_inv_def moves_on_simps using y(1) views keyed alone created by blast
qed

lemma request_view_same:
  "key_store_of d' k = key_store_of d k \<Longrightarrow> request_view d' k h x = request_view d k h x"
  by (simp add: request_view_def)

lemma request_view_quiet:
  "request_view d k h Arrived" "request_view d k h Looking" "request_view d k h (Told Refused)"
  by (simp_all add: request_view_def)

text \<open>What a request that found its key taken is told is on record.\<close>

lemma taken_answer_view:
  assumes "sql_get_key k d = Inr (Some r, d')" and "db_ok d" and "paired d"
  shows "request_view d k h (Told (taken_answer h r))"
proof -
  obtain row where row: "find_row k_key k (idempotency_keys d) = Some row" "r = record_of row"
    using assms(1) by (auto simp: sql_get_key_def)
  show ?thesis
  proof (cases "decided h r")
    case OutcomeReplay
    then have st: "k_state row = ''completed''" "k_request_hash row = h"
      by (auto simp: decided_def row(2) record_of_def StateCompleted_def split: if_splits)
    then have "row \<in> set (done_rows d)" using find_row_SomeD [OF row(1)] by (simp add: done_rows_def)
    with assms(3) have "k_status_code row = 202" "k_response_body row = Some (accepted_body (k_resource_id row))"
      by (auto simp: paired_def list_all_iff)
    moreover from this have "rec_status_code r = 202" "rec_response_body r = accepted_body (k_resource_id row)"
      by (simp_all add: row(2) record_of_def)
    moreover from this st row have
      "key_store_of d k = Some (Done h (k_resource_id row) 202 (accepted_body (k_resource_id row)))"
      by (simp add: key_store_Done record_of_def)
    ultimately show ?thesis using OutcomeReplay by (simp add: request_view_def taken_answer_def)
  qed (simp_all add: request_view_def taken_answer_def)
qed

text \<open>What the statements do to the key store.\<close>

lemma claim_won_keys:
  assumes "sql_claim now k h d = Inr (Some x, d')"
  shows "key_store_of d k = None" and "key_store_of d' = (key_store_of d)(k \<mapsto> Claimed h)"
proof -
  show "key_store_of d k = None"
    using assms sql_claim_old [of d k _ now h] by (cases "key_store_of d k") auto
  with sql_claim_new [of d k now h] assms show "key_store_of d' = (key_store_of d)(k \<mapsto> Claimed h)" by auto
qed

lemma commit_keys:
  assumes "creation_sound pf d c" and "cn_todo c = []" and "db_ok d"
    and "key_store_of d (cn_key c) = Some (Claimed h)"
  shows "key_store_of (view c d) = (key_store_of d)(cn_key c \<mapsto>
    Done h (o_id (cn_order c)) 202 (accepted_body (o_id (cn_order c))))"
proof -
  obtain eid where st: "stored pf (cn_now c) (cn_order c) [created_event (cn_order c) eid]
      (completion_for (cn_key c) (cn_order c)) d (view c d)"
    using creation_stored [OF assms(1-3)] by blast
  have "cn_key c \<noteq> []" "o_status (cn_order c) = StatusPending" using assms(1) by (simp_all add: creation_sound_def)
  then obtain cp where cp: "completion_for (cn_key c) (cn_order c) = Some cp" "cp_key cp = cn_key c"
      "cp_status_code cp = 202" "cp_resource_id cp = o_id (cn_order c)"
      "cp_response_body cp = accepted_body (o_id (cn_order c))"
    by (auto simp: completion_for_def accepted_body_def result_of_def)
  from stored_keys [OF st [unfolded cp(1)] assms(3)] cp(2-5) assms(4) show ?thesis
    by (simp add: spec_complete_def fits_int4_def)
qed


section \<open>Every step keeps the invariant\<close>

lemma service_inv_parts:
  assumes "service_inv pf opts ks hs s"
  shows "\<And>i. active (sv_stages s i) \<Longrightarrow> ks i \<noteq> []"
    and "\<And>i j. active (sv_stages s i) \<Longrightarrow> active (sv_stages s j) \<Longrightarrow> ks i = ks j \<Longrightarrow> i = j"
    and "\<And>i c. sy_creations (sv_system s) i = Some c \<Longrightarrow> sv_stages s i = Creating \<and> cn_key c = ks i"
    and "system_inv pf opts (sv_system s)" and "paired (sv_table s)"
  using assms unfolding service_inv_def by blast+

lemma service_inv_alone:
  assumes "service_inv pf opts ks hs s" and "active (sv_stages s i)"
  shows "ks i \<noteq> [] \<and> (\<forall>j. j \<noteq> i \<longrightarrow> active (sv_stages s j) \<longrightarrow> ks j \<noteq> ks i)"
  using service_inv_parts(1,2) [OF assms(1)] assms(2) by metis

text \<open>A move of a request that leaves the database as it is.\<close>

lemma service_inv_stays:
  assumes "service_inv pf opts ks hs s" and "system_steps pf opts (sv_system s) y" and "table y = sv_table s"
    and "request_view (sv_table s) (ks i) (hs i) x" and "active x \<Longrightarrow> active (sv_stages s i)"
    and "\<And>j c. sy_creations y j = Some c \<Longrightarrow>
      if j = i then x = Creating \<and> cn_key c = ks i else sy_creations (sv_system s) j = Some c"
  shows "service_inv pf opts ks hs (moves_on s y i x)"
  by (rule service_inv_move [OF assms(1,2)]) (use assms(3-6) service_inv_alone [OF assms(1)] in auto)

lemma no_creation:
  "service_inv pf opts ks hs s \<Longrightarrow> sv_stages s i \<noteq> Creating \<Longrightarrow> sy_creations (sv_system s) i = None"
  using service_inv_parts(3) [of pf opts ks hs s i] by (cases "sy_creations (sv_system s) i") auto

lemma service_inv_turn:
  assumes "service_inv pf opts ks hs s" and "sv_stages s i \<noteq> Creating"
    and "request_view (sv_table s) (ks i) (hs i) x" and "active x \<Longrightarrow> active (sv_stages s i)"
  shows "service_inv pf opts ks hs (moves_on s (sv_system s) i x)"
  by (rule service_inv_stays [OF assms(1) rtranclp.rtrancl_refl refl assms(3,4)])
     (use no_creation [OF assms(1,2)] in \<open>auto split: if_splits\<close>)

lemma view_while_held:
  "request_view d k h x \<Longrightarrow> x \<in> {Handling, Creating} \<Longrightarrow> key_store_of d k = Some (Claimed h)"
  "key_store_of d k = Some (Claimed h) \<Longrightarrow> x \<in> {Handling, Creating, Failing, Told Refused} \<Longrightarrow> request_view d k h x"
  by (auto simp: request_view_def)

lemma service_inv_step:
  assumes "service_step pf opts ks hs s s'" and "service_inv pf opts ks hs s"
  shows "service_inv pf opts ks hs s'"
proof -
  have "ks i \<noteq> []" if "sv_stages s i = Handling" for i
    using service_inv_parts(1) [OF assms(2)] that by (simp add: active_def)
  from service_system_step [OF assms(1) this] have sys: "system_steps pf opts (sv_system s) (sv_system s')" .
  note parts = service_inv_parts [OF assms(2)] and seen = service_inv_view [OF assms(2)]
    and ok = service_inv_db_ok [OF assms(2)] and stays = service_inv_stays [OF assms(2)]
    and moved = service_inv_move [OF assms(2)] and no = no_creation [OF assms(2)]
    and turn = service_inv_turn [OF assms(2)]
  show ?thesis
    using assms(1)
  proof cases
    case (claim_won i now k d x)
    note keys = claim_won_keys [OF claim_won(4)]
    have free: "ks j \<noteq> ks i" if "active (sv_stages s j)" for j
      using seen [of j] that keys(1) by (auto simp: active_def request_view_def)
    have "request_view d (ks i) (hs i) x"
      using view_while_held(2) [of d "ks i" "hs i" x] keys(2) claim_won(5) by auto
    then show ?thesis
      using sys unfolding claim_won(1)
      by (intro moved) (use free keys(2) claim_won(2,3,5) no [of i] in auto)
  next
    case (claim_lost i now d)
    show ?thesis
      unfolding claim_lost(1) by (rule turn) (use claim_lost(2) in \<open>auto simp: request_view_quiet active_def\<close>)
  next
    case (looked i r d)
    from taken_answer_view [OF looked(3) ok parts(5)] looked(2) show ?thesis
      unfolding looked(1) by (intro turn) (simp_all add: active_def)
  next
    case (failed_early i)
    show ?thesis
      unfolding failed_early(1) by (rule turn) (use failed_early(2) in \<open>auto simp: request_view_quiet active_def\<close>)
  next
    case (handler_begins i ord now eid)
    with view_while_held(1) [OF seen [of i]] have "request_view (sv_table s) (ks i) (hs i) Creating"
      by (simp add: view_while_held(2))
    then show ?thesis
      using sys unfolding handler_begins(1)
      by (intro stays) (use handler_begins(2) in \<open>auto simp: active_def new_creation_def split: if_splits\<close>)
  next
    case (handler_refuses i)
    with view_while_held(1) [OF seen [of i]] have "request_view (sv_table s) (ks i) (hs i) Failing"
      by (simp add: view_while_held(2))
    with handler_refuses(2) show ?thesis unfolding handler_refuses(1) by (intro turn) (simp_all add: active_def)
  next
    case (handler_writes i c x rest v)
    from parts(3) [OF handler_writes(3)] seen [of i] have
      "request_view (sv_table s) (ks i) (hs i) Creating" "cn_key c = ks i" by simp_all
    then show ?thesis
      using sys unfolding handler_writes(1)
      by (intro stays) (use handler_writes(2) in \<open>auto simp: active_def after_write_def split: if_splits\<close>)
  next
    case (handler_commits i c x)
    have mine: "cn_key c = ks i" "key_store_of (sv_table s) (ks i) = Some (Claimed (hs i))" "ks i \<noteq> []"
      using parts(1,3) [of i] handler_commits(2,3) view_while_held(1) [OF seen [of i]] by (auto simp: active_def)
    note keys = commit_keys [OF system_inv_sound [OF parts(4) handler_commits(3)] handler_commits(4) ok]
    have kept: "ks j \<noteq> ks i" if "active (sv_stages s j)" "j \<noteq> i" for j
      using parts(2) [of i j] that handler_commits(2) by (auto simp: active_def)
    have "request_view (view c (sv_table s)) (ks i) (hs i) x"
      using keys mine handler_commits(5) by (auto simp: request_view_def)
    then show ?thesis
      using sys unfolding handler_commits(1)
      by (intro moved) (use keys mine kept handler_commits(2) in \<open>auto split: if_splits\<close>)
  next
    case (handler_fails i c)
    with view_while_held(1) [OF seen [of i]] have "request_view (sv_table s) (ks i) (hs i) Failing"
      by (simp add: view_while_held(2))
    then show ?thesis
      using sys unfolding handler_fails(1)
      by (intro stays) (use handler_fails(2) in \<open>auto simp: active_def split: if_splits\<close>)
  next
    case (releases i d)
    have keys: "key_store_of d k = key_store_of (sv_table s) k" if "k \<noteq> ks i" for k
      using sql_release_refines [OF ok releases(4)] that by (auto simp: spec_release_def split: option.splits key_state.splits)
    have kept: "ks j \<noteq> ks i" if "active (sv_stages s j)" "j \<noteq> i" for j
      using parts(2) [of i j] that releases(2) by (auto simp: active_def)
    show ?thesis
      using sys no [of i] unfolding releases(1)
      by (intro moved) (use keys kept releases(2) in \<open>auto simp: request_view_quiet active_def split: if_splits\<close>)
  next
    case (release_fails i)
    show ?thesis
      unfolding release_fails(1) by (rule turn) (use release_fails(2) in \<open>auto simp: request_view_quiet active_def\<close>)
  next
    case (drains f)
    let ?y = "(sv_system s)\<lparr>sy_fleet := f\<rparr>"
    have "fleet_inv pf opts (sy_fleet (sv_system s))" using parts(4) by (simp add: system_inv_def)
    from publisher_db_step [OF drains(2,3) this] have "idempotency_keys (table ?y) = idempotency_keys (sv_table s)"
      by auto
    then have same: "key_store_of (table ?y) = key_store_of (sv_table s)" by (rule key_store_of_cong)
    have y: "system_inv pf opts ?y" "db_steps pf (sv_table s) (table ?y)"
      using system_steps_keep [OF sys parts(4)] by (simp_all add: drains(1))
    have "paired (table ?y)" using db_steps_invariant [OF y(2) ok parts(5)] by blast
    moreover have "request_view (table ?y) (ks j) (hs j) (sv_stages s j)" for j
      using seen [of j] same request_view_same by metis
    ultimately show ?thesis
      using y(1) parts(1-3) unfolding service_inv_def drains(1) by simp
  qed
qed


lemma service_inv_open: "db_ok d \<Longrightarrow> paired d \<Longrightarrow> service_inv pf opts ks hs (open_service d)"
  using system_inv_idle [of d pf opts]
  by (simp add: service_inv_def open_service_def request_view_quiet active_def) (simp add: idle_system_def idle_fleet_def)

lemma service_steps_system:
  assumes "service_steps pf opts ks hs (open_service d) s" and "db_ok d" and "paired d"
  shows "service_inv pf opts ks hs s \<and> system_steps pf opts (idle_system d) (sv_system s)"
  using assms(1)
proof (induction rule: rtranclp_induct)
  case base
  from service_inv_open [OF assms(2,3)] show ?case by (simp add: open_service_def)
next
  case (step s s')
  then have "system_steps pf opts (sv_system s) (sv_system s')"
    using service_inv_parts(1) [of pf opts ks hs s] by (intro service_system_step) (auto simp: active_def)
  with step service_inv_step [OF step.hyps(2)] show ?case by (auto intro: rtranclp_trans)
qed

end
