(* ===== verification/Config.thy ===== *)
theory Config
  imports Duration
begin

text \<open>
  \<open>internal/config/config.go\<close>: the configuration a service reads from its environment, with the
  pieces of \<open>strings\<close> and \<open>strconv\<close> it uses.  \<open>printable\<close> stands for Unicode's table of printable
  runes, which \<open>%q\<close> consults: it takes the bytes of a rune beyond ASCII.
\<close>

section \<open>Text\<close>

text \<open>
  \<open>strings.ToLower\<close> as far as a comparison with an ASCII word can see: the capital letters, and the
  two runes beyond ASCII whose lower case is an ASCII letter, the dotted capital I (U+0130) and the
  Kelvin sign (U+212A).  Every other rune beyond ASCII stays beyond it and is left as it is.
\<close>

fun ToLower :: "string \<Rightarrow> string" where
  "ToLower [] = []"
| "ToLower (c # cs) =
    (if byte_in 65 90 c then char_of (byte_val c + 32) # ToLower cs
     else if c = CHR 0xC4 \<and> take 1 cs = [CHR 0xB0] then CHR ''i'' # ToLower (drop 1 cs)
     else if c = CHR 0xE2 \<and> take 2 cs = [CHR 0x84, CHR 0xAA] then CHR ''k'' # ToLower (drop 2 cs)
     else c # ToLower cs)"

text \<open>The rune at the head of a string, given the length of its encoding.\<close>

definition rune_value :: "string \<Rightarrow> nat" where
  "rune_value bs =
    (case map byte_val bs of
       [a] \<Rightarrow> a
     | [a, b] \<Rightarrow> (a - 0xC0) * 64 + (b - 0x80)
     | [a, b, c] \<Rightarrow> (a - 0xE0) * 4096 + (b - 0x80) * 64 + (c - 0x80)
     | [a, b, c, d] \<Rightarrow> (a - 0xF0) * 262144 + (b - 0x80) * 4096 + (c - 0x80) * 64 + (d - 0x80)
     | _ \<Rightarrow> 0)"

fun hex_fixed :: "nat \<Rightarrow> nat \<Rightarrow> string" where
  "hex_fixed 0 n = []"
| "hex_fixed (Suc w) n = hex_fixed w (n div 16) @ [hex_digit (n mod 16)]"

definition escape_byte :: "char \<Rightarrow> string" where
  "escape_byte c = [BACKSLASH, CHR ''x''] @ hex_fixed 2 (byte_val c)"

definition quote_ascii :: "char \<Rightarrow> string" where
  "quote_ascii c =
    (if c = QUOTE \<or> c = BACKSLASH then [BACKSLASH, c]
     else if byte_in 0x20 0x7E c then [c]
     else if c = CHR 0x07 then [BACKSLASH, CHR ''a'']
     else if c = CHR 0x08 then [BACKSLASH, CHR ''b'']
     else if c = CHR 0x0C then [BACKSLASH, CHR ''f'']
     else if c = CHR 0x0A then [BACKSLASH, CHR ''n'']
     else if c = CHR 0x0D then [BACKSLASH, CHR ''r'']
     else if c = CHR 0x09 then [BACKSLASH, CHR ''t'']
     else if c = CHR 0x0B then [BACKSLASH, CHR ''v'']
     else escape_byte c)"

definition quote_rune :: "(string \<Rightarrow> bool) \<Rightarrow> string \<Rightarrow> string" where
  "quote_rune printable bs =
    (if printable bs then bs
     else if rune_value bs < 0x10000 then [BACKSLASH, CHR ''u''] @ hex_fixed 4 (rune_value bs)
     else [BACKSLASH, CHR ''U''] @ hex_fixed 8 (rune_value bs))"

fun quote_chars :: "(string \<Rightarrow> bool) \<Rightarrow> string \<Rightarrow> string" where
  "quote_chars printable [] = []"
| "quote_chars printable (c # cs) =
    (if byte_val c < 0x80 then quote_ascii c @ quote_chars printable cs
     else case utf8_len (c # cs) of
            0 \<Rightarrow> escape_byte c @ quote_chars printable cs
          | Suc n \<Rightarrow> quote_rune printable (c # take n cs) @ quote_chars printable (drop n cs))"

text \<open>\<open>fmt\<close>'s \<open>%q\<close> of a string.\<close>

definition Quote :: "(string \<Rightarrow> bool) \<Rightarrow> string \<Rightarrow> string" where
  "Quote printable s = QUOTE # quote_chars printable s @ [QUOTE]"

section \<open>The configuration\<close>

datatype level = LevelDebug | LevelInfo | LevelWarn | LevelError

record config =
  cf_ServiceName :: string
  cf_HTTPAddr :: string
  cf_DatabaseDSN :: string
  cf_OTLPEndpoint :: string
  cf_LogLevel :: level
  cf_OutboxPollInterval :: int64
  cf_ShutdownTimeout :: int64

text \<open>\<open>os.LookupEnv\<close>.\<close>

type_synonym environ = "string \<rightharpoonup> string"

definition env :: "environ \<Rightarrow> string \<Rightarrow> string \<Rightarrow> string" where
  "env environ key fallback =
    (case environ key of Some v \<Rightarrow> if v \<noteq> [] then v else fallback | None \<Rightarrow> fallback)"

definition parseDuration :: "environ \<Rightarrow> string \<Rightarrow> int64 \<Rightarrow> int64 go" where
  "parseDuration environ key fallback =
    (case environ key of
       None \<Rightarrow> Ok fallback
     | Some raw \<Rightarrow>
        (if raw = [] then Ok fallback
         else case ParseDuration raw of
                Ok d \<Rightarrow> Ok d
              | Err e \<Rightarrow> Err (Wrapf (''config: '' @ key @ '': '') e [])
              | Panic p \<Rightarrow> Panic p))"

definition parseLevel :: "(string \<Rightarrow> bool) \<Rightarrow> string \<Rightarrow> level go" where
  "parseLevel printable raw =
    (let low = ToLower raw
     in if low = ''debug'' then Ok LevelDebug
        else if low = ''info'' then Ok LevelInfo
        else if low = ''warn'' then Ok LevelWarn
        else if low = ''error'' then Ok LevelError
        else Err (Errorf (''config: LOG_LEVEL: unknown level '' @ Quote printable raw)))"

definition second :: int64 where "second = 1000000000"

definition Load :: "(string \<Rightarrow> bool) \<Rightarrow> environ \<Rightarrow> string \<Rightarrow> config go" where
  "Load printable environ serviceName =
    (if environ ''DATABASE_DSN'' \<in> {None, Some []}
     then Err (Errorf ''config: DATABASE_DSN is required'')
     else case parseLevel printable (env environ ''LOG_LEVEL'' ''info'') of
       Err e \<Rightarrow> Err e
     | Panic p \<Rightarrow> Panic p
     | Ok level \<Rightarrow>
        (case parseDuration environ ''OUTBOX_POLL_INTERVAL'' second of
           Err e \<Rightarrow> Err e
         | Panic p \<Rightarrow> Panic p
         | Ok pollInterval \<Rightarrow>
            (case parseDuration environ ''SHUTDOWN_TIMEOUT'' (15 * second) of
               Err e \<Rightarrow> Err e
             | Panic p \<Rightarrow> Panic p
             | Ok shutdownTimeout \<Rightarrow> Ok
                \<lparr>cf_ServiceName = serviceName, cf_HTTPAddr = env environ ''HTTP_ADDR'' '':8080'',
                 cf_DatabaseDSN = env environ ''DATABASE_DSN'' [],
                 cf_OTLPEndpoint = env environ ''OTEL_EXPORTER_OTLP_ENDPOINT'' ''localhost:4317'',
                 cf_LogLevel = level, cf_OutboxPollInterval = pollInterval,
                 cf_ShutdownTimeout = shutdownTimeout\<rparr>)))"

section \<open>What Load accepts\<close>

text \<open>A variable is given when it is set and not empty; otherwise it has its default.\<close>

definition given :: "environ \<Rightarrow> string \<Rightarrow> string option" where
  "given environ k = (case environ k of Some v \<Rightarrow> if v = [] then None else Some v | None \<Rightarrow> None)"

definition malformed :: "environ \<Rightarrow> string \<Rightarrow> bool" where
  "malformed environ k \<longleftrightarrow>
    (if k = ''DATABASE_DSN'' then given environ k = None
     else if k = ''LOG_LEVEL'' then
       (case given environ k of None \<Rightarrow> False
        | Some v \<Rightarrow> ToLower v \<notin> {''debug'', ''info'', ''warn'', ''error''})
     else (case given environ k of None \<Rightarrow> False | Some v \<Rightarrow> \<not> is_ok (ParseDuration v)))"

definition checked_variables :: "string list" where
  "checked_variables = [''DATABASE_DSN'', ''LOG_LEVEL'', ''OUTBOX_POLL_INTERVAL'', ''SHUTDOWN_TIMEOUT'']"

text \<open>What each of the readers does, in these terms.\<close>

lemma env_given: "env environ k fallback = (case given environ k of Some v \<Rightarrow> v | None \<Rightarrow> fallback)"
  by (simp add: env_def given_def split: option.split)

lemma parseDuration_given:
  "parseDuration environ k fallback =
    (case given environ k of
       None \<Rightarrow> Ok fallback
     | Some v \<Rightarrow>
        (case ParseDuration v of
           Ok d \<Rightarrow> Ok d | Err e \<Rightarrow> Err (Wrapf (''config: '' @ k @ '': '') e []) | Panic p \<Rightarrow> Panic p))"
  by (auto simp: parseDuration_def given_def split: option.split)

lemma ParseDuration_no_panic: "ParseDuration s \<noteq> Panic p"
  by (auto simp: ParseDuration_def Let_def split: list.splits sum.splits)

lemma Load_not_Panic: "Load printable environ n \<noteq> Panic q"
  using ParseDuration_no_panic
  by (auto simp: Load_def parseDuration_def parseLevel_def Let_def split: go.splits option.splits if_splits)

lemma parseLevel_cases:
  obtains (ok) l where "parseLevel printable v = Ok l" and "ToLower v \<in> {''debug'', ''info'', ''warn'', ''error''}"
  | (bad) t where "parseLevel printable v = Err (Errorf (''config: LOG_LEVEL'' @ t))"
      and "ToLower v \<notin> {''debug'', ''info'', ''warn'', ''error''}"
proof -
  have "parseLevel printable v =
      Err (Errorf (''config: LOG_LEVEL'' @ '': unknown level '' @ Quote printable v))"
    if "ToLower v \<notin> {''debug'', ''info'', ''warn'', ''error''}"
    using that by (simp add: parseLevel_def Let_def)
  then show thesis
    using ok bad by (cases "ToLower v \<in> {''debug'', ''info'', ''warn'', ''error''}")
      (auto simp: parseLevel_def Let_def)
qed

lemma parseDuration_cases:
  assumes "k \<notin> {''DATABASE_DSN'', ''LOG_LEVEL''}"
  obtains (ok) d where "parseDuration environ k fallback = Ok d" and "\<not> malformed environ k"
      and "case given environ k of None \<Rightarrow> d = fallback | Some v \<Rightarrow> ParseDuration v = Ok d"
  | (bad) e where "parseDuration environ k fallback = Err (Wrapf (''config: '' @ k @ '': '') e [])"
      and "malformed environ k"
proof (cases "given environ k")
  case None
  with assms ok show thesis by (auto simp: parseDuration_given malformed_def)
next
  case (Some v)
  with assms ok bad ParseDuration_no_panic [of v] show thesis
    by (cases "ParseDuration v") (auto simp: parseDuration_given malformed_def)
qed

lemma duration_string_nonempty: "duration_string d \<noteq> []"
  using duration_body_nonempty by (simp add: duration_string_body)

text \<open>C29: \<open>Load\<close> fails on the first variable that is missing or malformed and names it; otherwise it
  succeeds, and every field is the given value of its variable or the documented default.  An empty
  variable counts as unset, and levels are read in any case.\<close>

theorem Load_correct:
  "case find (malformed environ) checked_variables of
     Some k \<Rightarrow> \<exists>e t. Load printable environ name = Err e \<and> error_text e = ''config: '' @ k @ t
   | None \<Rightarrow> \<exists>c. Load printable environ name = Ok c \<and> cf_ServiceName c = name \<and>
       given environ ''DATABASE_DSN'' = Some (cf_DatabaseDSN c) \<and>
       cf_HTTPAddr c = env environ ''HTTP_ADDR'' '':8080'' \<and>
       cf_OTLPEndpoint c = env environ ''OTEL_EXPORTER_OTLP_ENDPOINT'' ''localhost:4317'' \<and>
       parseLevel printable (env environ ''LOG_LEVEL'' ''info'') = Ok (cf_LogLevel c) \<and>
       (case given environ ''OUTBOX_POLL_INTERVAL'' of
          None \<Rightarrow> cf_OutboxPollInterval c = second | Some v \<Rightarrow> ParseDuration v = Ok (cf_OutboxPollInterval c)) \<and>
       (case given environ ''SHUTDOWN_TIMEOUT'' of
          None \<Rightarrow> cf_ShutdownTimeout c = 15 * second | Some v \<Rightarrow> ParseDuration v = Ok (cf_ShutdownTimeout c))"
proof -
  have dsn: "environ ''DATABASE_DSN'' \<in> {None, Some []} \<longleftrightarrow> malformed environ ''DATABASE_DSN''"
    "\<not> malformed environ ''DATABASE_DSN'' \<Longrightarrow> given environ ''DATABASE_DSN'' = Some (env environ ''DATABASE_DSN'' [])"
    by (auto simp: malformed_def given_def env_given split: option.splits if_splits)
  have level: "malformed environ ''LOG_LEVEL'' \<longleftrightarrow>
      ToLower (env environ ''LOG_LEVEL'' ''info'') \<notin> {''debug'', ''info'', ''warn'', ''error''}"
    by (auto simp: malformed_def env_given byte_in_def byte_val_def split: option.split)
  show ?thesis
  proof (cases "malformed environ ''DATABASE_DSN''")
    case True
    with dsn(1) show ?thesis by (simp add: checked_variables_def Load_def)
  next
    case d: False
    show ?thesis
    proof (cases "env environ ''LOG_LEVEL'' ''info''" rule: parseLevel_cases [where printable = printable])
      case (bad t)
      with d dsn(1) level show ?thesis by (simp add: checked_variables_def Load_def)
    next
      case l: (ok lv)
      consider (poll) p where "parseDuration environ ''OUTBOX_POLL_INTERVAL'' second = Ok p"
          "\<not> malformed environ ''OUTBOX_POLL_INTERVAL''"
          "case given environ ''OUTBOX_POLL_INTERVAL'' of None \<Rightarrow> p = second | Some v \<Rightarrow> ParseDuration v = Ok p"
        | (no_poll) e where "malformed environ ''OUTBOX_POLL_INTERVAL''"
          "parseDuration environ ''OUTBOX_POLL_INTERVAL'' second =
             Err (Wrapf (''config: '' @ ''OUTBOX_POLL_INTERVAL'' @ '': '') e [])"
        by (rule parseDuration_cases [of "''OUTBOX_POLL_INTERVAL''" environ second]) auto
      then show ?thesis
      proof cases
        case poll
        consider (stop) q where "parseDuration environ ''SHUTDOWN_TIMEOUT'' (15 * second) = Ok q"
            "\<not> malformed environ ''SHUTDOWN_TIMEOUT''"
            "case given environ ''SHUTDOWN_TIMEOUT'' of None \<Rightarrow> q = 15 * second | Some v \<Rightarrow> ParseDuration v = Ok q"
          | (no_stop) e where "malformed environ ''SHUTDOWN_TIMEOUT''"
            "parseDuration environ ''SHUTDOWN_TIMEOUT'' (15 * second) =
               Err (Wrapf (''config: '' @ ''SHUTDOWN_TIMEOUT'' @ '': '') e [])"
          by (rule parseDuration_cases [of "''SHUTDOWN_TIMEOUT''" environ "15 * second"]) auto
        then show ?thesis
          by cases (use d dsn l level poll in \<open>simp_all add: checked_variables_def Load_def split: option.splits\<close>)
      next
        case no_poll
        with d dsn(1) l level show ?thesis by (simp add: checked_variables_def Load_def)
      qed
    qed
  qed
qed

text \<open>C30: a duration the program prints is a duration the configuration reads.  Setting the two interval
  variables to the text of any \<open>time.Duration\<close>, negative ones and fractions included, gives back
  exactly that duration.\<close>

theorem printed_durations_are_read_back:
  assumes "given environ ''DATABASE_DSN'' \<noteq> None" and "environ ''LOG_LEVEL'' = None"
  shows "\<exists>c. Load printable (environ(''OUTBOX_POLL_INTERVAL'' \<mapsto> duration_string d,
      ''SHUTDOWN_TIMEOUT'' \<mapsto> duration_string d')) name = Ok c \<and>
    cf_OutboxPollInterval c = d \<and> cf_ShutdownTimeout c = d'"
  using assms
  by (auto simp: Load_def parseDuration_def duration_string_nonempty ParseDuration_String env_def
      parseLevel_def given_def byte_in_def byte_val_def Let_def split: option.splits if_splits)

theorem printed_durations_are_read_back_witness:
  "\<exists>c. Load (\<lambda>_. False) [''DATABASE_DSN'' \<mapsto> ''dsn'',
      ''OUTBOX_POLL_INTERVAL'' \<mapsto> duration_string 1500000000, ''SHUTDOWN_TIMEOUT'' \<mapsto> duration_string 0]
      ''order'' = Ok c \<and> cf_OutboxPollInterval c = 1500000000 \<and> cf_ShutdownTimeout c = 0"
  by (rule printed_durations_are_read_back) (simp_all add: given_def)

end
