(* ===== verification/Logger.thy ===== *)
theory Logger
  imports Config
begin

text \<open>
  The structured logger, \<open>internal/logger/logger.go\<close>, with the part of \<open>log/slog\<close> it builds on: the JSON
  handler, which keeps the attributes and groups it was derived with, and the logger's \<open>With\<close> and
  \<open>Log\<close>.  The span of a context is a parameter of each call: its two ids, when it is valid.
\<close>

section \<open>Levels\<close>

text \<open>\<open>slog.Level\<close> is an integer; the four named levels are ordered by it.\<close>

fun level_value :: "level \<Rightarrow> int" where
  "level_value LevelDebug = -4"
| "level_value LevelInfo = 0"
| "level_value LevelWarn = 4"
| "level_value LevelError = 8"

instantiation level :: linorder
begin

definition less_eq_level :: "level \<Rightarrow> level \<Rightarrow> bool" where
  "less_eq_level a b \<longleftrightarrow> level_value a \<le> level_value b"

definition less_level :: "level \<Rightarrow> level \<Rightarrow> bool" where
  "less_level a b \<longleftrightarrow> level_value a < level_value b"

instance
proof
  show "a = b" if "a \<le> b" and "b \<le> a" for a b :: level
    using that by (cases a; cases b) (simp_all add: less_eq_level_def)
qed (auto simp: less_eq_level_def less_level_def)

end

fun level_text :: "level \<Rightarrow> string" where
  "level_text LevelDebug = ''DEBUG''"
| "level_text LevelInfo = ''INFO''"
| "level_text LevelWarn = ''WARN''"
| "level_text LevelError = ''ERROR''"

section \<open>Handlers\<close>

text \<open>An attribute: a name and a value that is not a group of its own.\<close>

type_synonym attr = "string \<times> json"

record log_record =
  lg_time :: string
  lg_level :: level
  lg_msg :: string
  lg_attrs :: "attr list"

datatype derivation = Attrs "attr list" | Group string

text \<open>A \<open>slog.Handler\<close> of the program: the JSON handler or a \<open>traceHandler\<close> around another.\<close>

datatype slog_handler = JSONHandler level "derivation list" | traceHandler slog_handler

text \<open>
  What the JSON handler writes: time, level and message, then the attributes in their groups; a group
  that holds nothing is left out.
\<close>

fun nest :: "derivation list \<Rightarrow> attr list \<Rightarrow> attr list" where
  "nest [] attrs = attrs"
| "nest (Attrs bs # ds) attrs = bs @ nest ds attrs"
| "nest (Group n # ds) attrs = (case nest ds attrs of [] \<Rightarrow> [] | m # ms \<Rightarrow> [(n, JObj (m # ms))])"

definition json_line :: "derivation list \<Rightarrow> log_record \<Rightarrow> json" where
  "json_line ds r =
    JObj ([(''time'', JStr (lg_time r)), (''level'', JStr (level_text (lg_level r))), (''msg'', JStr (lg_msg r))] @
      nest ds (lg_attrs r))"

type_synonym span = "(string \<times> string) option"

fun Enabled :: "slog_handler \<Rightarrow> level \<Rightarrow> bool" where
  "Enabled (JSONHandler least ds) l \<longleftrightarrow> least \<le> l"
| "Enabled (traceHandler inner) l \<longleftrightarrow> Enabled inner l"

definition span_attrs :: "span \<Rightarrow> attr list" where
  "span_attrs sc =
    (case sc of None \<Rightarrow> []
     | Some (trace_id, span_id) \<Rightarrow> [(''trace_id'', JStr trace_id), (''span_id'', JStr span_id)])"

fun Handle :: "slog_handler \<Rightarrow> span \<Rightarrow> log_record \<Rightarrow> json" where
  "Handle (JSONHandler least ds) sc r = json_line ds r"
| "Handle (traceHandler inner) sc r = Handle inner sc (r\<lparr>lg_attrs := lg_attrs r @ span_attrs sc\<rparr>)"

fun WithAttrs :: "slog_handler \<Rightarrow> attr list \<Rightarrow> slog_handler" where
  "WithAttrs (JSONHandler least ds) attrs = (if attrs = [] then JSONHandler least ds else JSONHandler least (ds @ [Attrs attrs]))"
| "WithAttrs (traceHandler inner) attrs = traceHandler (WithAttrs inner attrs)"

fun WithGroup :: "slog_handler \<Rightarrow> string \<Rightarrow> slog_handler" where
  "WithGroup (JSONHandler least ds) name = (if name = [] then JSONHandler least ds else JSONHandler least (ds @ [Group name]))"
| "WithGroup (traceHandler inner) name = traceHandler (WithGroup inner name)"

text \<open>\<open>New\<close>; \<open>Logger.With\<close> derives the handler.\<close>

definition New :: "string \<Rightarrow> level \<Rightarrow> slog_handler" where
  "New service least = WithAttrs (traceHandler (JSONHandler least [])) [(''service'', JStr service)]"

text \<open>\<open>Logger.Log\<close>: the lines a call adds to the output.\<close>

definition Log :: "slog_handler \<Rightarrow> span \<Rightarrow> log_record \<Rightarrow> json list" where
  "Log h sc r = (if Enabled h (lg_level r) then [Handle h sc r] else [])"

fun derive :: "slog_handler \<Rightarrow> derivation list \<Rightarrow> slog_handler" where
  "derive h [] = h"
| "derive h (Attrs attrs # ds) = derive (WithAttrs h attrs) ds"
| "derive h (Group name # ds) = derive (WithGroup h name) ds"

section \<open>What a line holds\<close>

fun significant :: "derivation \<Rightarrow> bool" where
  "significant (Attrs attrs) \<longleftrightarrow> attrs \<noteq> []"
| "significant (Group name) \<longleftrightarrow> name \<noteq> []"

lemma derive_traceHandler:
  "derive (traceHandler (JSONHandler least ds0)) ds = traceHandler (JSONHandler least (ds0 @ filter significant ds))"
proof (induction ds arbitrary: ds0)
  case (Cons d ds)
  then show ?case by (cases d) simp_all
qed simp

text \<open>
  Reading a line as a JSON reader does, the last of several members with a name counting: the member
  \<open>k\<close> of the object reached through the groups \<open>gs\<close>.
\<close>

fun lookup :: "string list \<Rightarrow> string \<Rightarrow> json \<Rightarrow> json option" where
  "lookup [] k (JObj ms) = map_of (rev ms) k"
| "lookup (g # gs) k (JObj ms) = Option.bind (map_of (rev ms) g) (lookup gs k)"
| "lookup _ _ _ = None"

fun groups :: "derivation list \<Rightarrow> string list" where
  "groups [] = []"
| "groups (Attrs _ # ds) = groups ds"
| "groups (Group n # ds) = (if n = [] then groups ds else n # groups ds)"

lemma nest_nonempty: "attrs \<noteq> [] \<Longrightarrow> nest ds attrs \<noteq> []"
  by (induction ds attrs rule: nest.induct) (auto split: list.split)

lemma lookup_nest:
  assumes "map_of (rev attrs) k = Some v"
  shows "lookup (groups ds) k (JObj (pre @ nest (filter significant ds) attrs)) = Some v"
proof (induction ds arbitrary: pre)
  case Nil
  with assms show ?case by (simp add: map_add_Some_iff)
next
  case (Cons d ds)
  have "attrs \<noteq> []" using assms by auto
  then obtain m ms where m: "nest (filter significant ds) attrs = m # ms"
    using nest_nonempty by (metis list.exhaust)
  show ?case
  proof (cases d)
    case (Attrs bs)
    with Cons.IH [of "pre @ bs"] Cons.IH [of pre] show ?thesis by auto
  next
    case (Group n)
    with Cons.IH [of "[]"] Cons.IH [of pre] m show ?thesis by auto
  qed
qed

text \<open>C33: every line is stamped.  However a logger was derived from \<open>New\<close>'s with attributes and groups, it
  writes nothing below its level and one line at or above it, which begins with time, level, message
  and the service's name at the top, and which, when the context carries a valid span, holds the ids
  of its trace and span: at the top too unless groups are open, and then in the innermost of them.\<close>

theorem every_line_is_stamped:
  "case Log (derive (New service least) ds) sc r of
     [] \<Rightarrow> lg_level r < least
   | [line] \<Rightarrow> least \<le> lg_level r \<and>
       (\<exists>ms. line = JObj (
          [(''time'', JStr (lg_time r)), (''level'', JStr (level_text (lg_level r))), (''msg'', JStr (lg_msg r)),
           (''service'', JStr service)] @ ms)) \<and>
       (case sc of
          None \<Rightarrow> True
        | Some (trace_id, span_id) \<Rightarrow>
            lookup (groups ds) ''trace_id'' line = Some (JStr trace_id) \<and>
            lookup (groups ds) ''span_id'' line = Some (JStr span_id))
   | _ \<Rightarrow> False"
proof -
  let ?pre = "[(''time'', JStr (lg_time r)), (''level'', JStr (level_text (lg_level r))),
    (''msg'', JStr (lg_msg r)), (''service'', JStr service)]"
  let ?h = "traceHandler (JSONHandler least (Attrs [(''service'', JStr service)] # filter significant ds))"
  have h: "derive (New service least) ds = ?h"
    using derive_traceHandler [of least "[Attrs [(''service'', JStr service)]]" ds] by (simp add: New_def)
  have line: "Handle ?h sc r = JObj (?pre @ nest (filter significant ds) (lg_attrs r @ span_attrs sc))"
    by (simp add: json_line_def)
  have ids: "lookup (groups ds) ''trace_id'' (Handle ?h sc r) = Some (JStr trace_id) \<and>
      lookup (groups ds) ''span_id'' (Handle ?h sc r) = Some (JStr span_id)" if "sc = Some (trace_id, span_id)"
    for trace_id span_id
    unfolding line using that by (intro conjI lookup_nest) (simp_all add: span_attrs_def)
  show ?thesis
  proof (cases "least \<le> lg_level r")
    case True
    with ids line show ?thesis by (auto simp: Log_def h simp del: Handle.simps split: option.split)
  qed (simp add: Log_def h)
qed

end
