(* ===== verification/Lifecycle.thy ===== *)
theory Lifecycle
  imports Order_Service Logger
begin

text \<open>
  The life of the process: \<open>cmd/order/main.go\<close> with what it starts and stops, \<open>internal/otelx/otelx.go\<close>,
  \<open>internal/postgres/pool.go\<close>, \<open>internal/postgres/migrate.go\<close> and \<open>Server.Run\<close> of
  \<open>internal/httpx/server.go\<close>.  The calls these make into OpenTelemetry, Prometheus, pgx and goose are a
  parameter \<open>ext\<close>, which says for each call whether it returns an error; \<open>process\<close> records in order what
  the program opened, closed, installed and logged, and holds the world the service runs in.
\<close>

section \<open>The process\<close>

text \<open>A container the test helper asks for, with the log line that says it is ready.\<close>

record container_options =
  ct_image :: string
  ct_database :: string
  ct_username :: string
  ct_password :: string
  ct_wait_log :: string
  ct_occurrence :: nat
  ct_startup_timeout :: int64

datatype call =
    NewResource "(string \<times> string) list"
  | NewTraceExporter string
  | NewMetricExporter
  | TracerShutdown
  | MeterShutdown
  | ParseConfig string
  | NewWithConfig string
  | Ping
  | NewSessionLocker
  | NewProvider "string list"
  | ProviderUp
  | RunContainer container_options
  | ConnectionString "string list"
  | TerminateContainer

type_synonym external = "call \<Rightarrow> error option"

datatype handle = Signals | Tracer | Meter | Pool | PoolDB | Container

datatype global = GlobalLogger slog_handler | GlobalTracer | GlobalMeter | GlobalPropagator

datatype effect =
    Opened handle
  | Closed handle
  | Installed global
  | Pinged
  | Migrated
  | Listening string
  | Draining int64
  | Logged string error

record process =
  pr_world :: world
  pr_effects :: "effect list"

definition does :: "effect list \<Rightarrow> process \<Rightarrow> process" where
  "does es p = p\<lparr>pr_effects := pr_effects p @ es\<rparr>"

text \<open>
  A deferred call.  The panics of this model come from a goroutine other than main's: such a panic
  ends the process at once, and main's deferred calls do not run.
\<close>

fun deferred :: "(process \<Rightarrow> process) \<Rightarrow> 'a go \<times> process \<Rightarrow> 'a go \<times> process" where
  "deferred cleanup (Panic q, p) = (Panic q, p)"
| "deferred cleanup (r, p) = (r, cleanup p)"

section \<open>internal/otelx\<close>

definition version_Value :: string where "version_Value = ''0.1.0''"

text \<open>\<open>Providers\<close>: the shutdown functions, as the call each makes and the provider it stops.  The
  registry is the one \<open>/metrics\<close> reads.\<close>

record providers =
  pv_shutdown :: "(call \<times> handle) list"

definition resource_attributes :: "string \<Rightarrow> (string \<times> string) list" where
  "resource_attributes serviceName =
    [(''service.name'', serviceName), (''service.version'', version_Value),
     (''deployment.environment.name'', ''lab'')]"

definition Setup :: "external \<Rightarrow> string \<Rightarrow> string \<Rightarrow> process \<Rightarrow> providers go \<times> process" where
  "Setup ext serviceName otlpEndpoint p =
    (case ext (NewResource (resource_attributes serviceName)) of
       Some e \<Rightarrow> (Err (Wrapf ''otelx: resource: '' e []), p)
     | None \<Rightarrow>
       (case ext (NewTraceExporter otlpEndpoint) of
          Some e \<Rightarrow> (Err (Wrapf ''otelx: trace exporter: '' e []), p)
        | None \<Rightarrow>
          (let p1 = does [Opened Tracer] p
           in case ext NewMetricExporter of
                Some e \<Rightarrow>
                  (Err (the (errors_Join [Some (Wrapf ''otelx: metric exporter: '' e []), ext TracerShutdown])),
                   does [Closed Tracer] p1)
              | None \<Rightarrow>
                  (Ok \<lparr>pv_shutdown = [(TracerShutdown, Tracer), (MeterShutdown, Meter)]\<rparr>,
                   does [Opened Meter, Installed GlobalTracer, Installed GlobalMeter, Installed GlobalPropagator] p1))))"

fun shutdown_all :: "external \<Rightarrow> (call \<times> handle) list \<Rightarrow> process \<Rightarrow> error option list \<times> process" where
  "shutdown_all ext [] p = ([], p)"
| "shutdown_all ext ((c, h) # fns) p =
    (case shutdown_all ext fns (does [Closed h] p) of (errs, p') \<Rightarrow> (ext c # errs, p'))"

definition Shutdown :: "external \<Rightarrow> providers \<Rightarrow> process \<Rightarrow> error option \<times> process" where
  "Shutdown ext pv p =
    (case shutdown_all ext (pv_shutdown pv) p of (errs, p') \<Rightarrow> (errors_Join errs, p'))"

section \<open>internal/postgres\<close>

definition NewPool :: "external \<Rightarrow> string \<Rightarrow> process \<Rightarrow> unit go \<times> process" where
  "NewPool ext dsn p =
    (case ext (ParseConfig dsn) of
       Some e \<Rightarrow> (Err (Wrapf ''postgres: parse dsn: '' e []), p)
     | None \<Rightarrow>
       (case ext (NewWithConfig dsn) of
          Some e \<Rightarrow> (Err (Wrapf ''postgres: new pool: '' e []), p)
        | None \<Rightarrow>
          (let p1 = does [Opened Pool] p
           in case ext Ping of
                Some e \<Rightarrow> (Err (Wrapf ''postgres: ping: '' e []), does [Closed Pool] p1)
              | None \<Rightarrow> (Ok (), does [Pinged] p1))))"

text \<open>
  The embedded files of \<open>services/order/migrations/migrations.go\<close>, which matches \<open>*.sql\<close>; what they make of
  the database is in theory \<open>Database\<close>.
\<close>

definition migrations_FS :: "string list" where
  "migrations_FS = [''00001_orders.sql'', ''00002_infrastructure.sql'']"

definition Migrate :: "external \<Rightarrow> string list \<Rightarrow> process \<Rightarrow> unit go \<times> process" where
  "Migrate ext fsys p =
    deferred (does [Closed PoolDB])
      (let p1 = does [Opened PoolDB] p
       in case ext NewSessionLocker of
            Some e \<Rightarrow> (Err (Wrapf ''postgres: session locker: '' e []), p1)
          | None \<Rightarrow>
            (case ext (NewProvider fsys) of
               Some e \<Rightarrow> (Err (Wrapf ''postgres: goose provider: '' e []), p1)
             | None \<Rightarrow>
               (case ext ProviderUp of
                  Some e \<Rightarrow> (Err (Wrapf ''postgres: migrate: '' e []), p1)
                | None \<Rightarrow> (Ok (), does [Migrated] p1))))"

section \<open>internal/httpx/server.go: Run\<close>

record server_options =
  so_Addr :: string
  so_ShutdownTimeout :: int64

definition ErrServerClosed :: error where
  "ErrServerClosed = Sentinel ''http: Server closed''"

text \<open>
  How serving ends: \<open>ListenAndServe\<close> returns, or the context is cancelled first, \<open>Shutdown\<close> returns
  its result, and then \<open>ListenAndServe\<close> returns too.
\<close>

datatype serve_end = ListenEnded "error option" | Cancelled "error option" "error option"

text \<open>What the goroutine sends to \<open>errCh\<close>.\<close>

definition listen_result :: "error option \<Rightarrow> unit go" where
  "listen_result err =
    (case err of None \<Rightarrow> Ok () | Some e \<Rightarrow> if errors_is e ErrServerClosed then Ok () else Err e)"

definition Server_Run :: "server_options \<Rightarrow> serve_end \<Rightarrow> process \<Rightarrow> unit go \<times> process" where
  "Server_Run so how p =
    (case how of
       ListenEnded err \<Rightarrow> (listen_result err, p)
     | Cancelled shutdown err \<Rightarrow>
        (case shutdown of
           Some e \<Rightarrow> (Err e, does [Draining (so_ShutdownTimeout so)] p)
         | None \<Rightarrow> (listen_result err, does [Draining (so_ShutdownTimeout so)] p)))"

section \<open>cmd/order/main.go\<close>

definition serviceName :: string where "serviceName = ''order''"

definition order_options :: "config \<Rightarrow> publisher_options" where
  "order_options cfg =
    \<lparr>po_Interval = cf_OutboxPollInterval cfg, po_BatchSize = 50, po_MaxRetries = 5, po_BaseBackoff = second\<rparr>"

text \<open>
  What happens while the two goroutines of the group run: at a time, a request arrives, or the
  publisher's ticker fires while other publishers hold locks on some events.  One round of the
  publisher's loop is \<open>Run\<close> with a single tick.
\<close>

datatype activity = Incoming int request | Tick int "string list"

fun work :: "platform \<Rightarrow> handler \<Rightarrow> publisher_options \<Rightarrow> activity list \<Rightarrow> world \<Rightarrow> unit go \<times> world" where
  "work pf metrics opts [] w = (Ok (), w)"
| "work pf metrics opts (Incoming t r # rest) w =
    work pf metrics opts rest (snd (serve (order_service pf metrics) r (w\<lparr>clock := t\<rparr>)))"
| "work pf metrics opts (Tick t locked # rest) w =
    (case Run pf opts LogSink locked [t] (w\<lparr>cancelled := False\<rparr>) of
       (Panic q, w1) \<Rightarrow> (Panic q, w1)
     | (_, w1) \<Rightarrow> if cancelled w1 then (Ok (), w1) else work pf metrics opts rest w1)"

text \<open>\<open>errgroup.Group.Wait\<close>: the first error a function of the group returned.\<close>

fun group_Wait :: "unit go list \<Rightarrow> unit go" where
  "group_Wait [] = Ok ()"
| "group_Wait (Ok _ # rs) = group_Wait rs"
| "group_Wait (r # rs) = r"

text \<open>
  The group: the publisher starts its ticker, the server listens, requests and ticks are worked on,
  and in the end the server returns and the publisher, its context cancelled, returns nil.
\<close>

definition serve_group ::
  "platform \<Rightarrow> handler \<Rightarrow> config \<Rightarrow> activity list \<Rightarrow> serve_end \<Rightarrow> process \<Rightarrow> unit go \<times> process" where
  "serve_group pf metrics cfg acts how p =
    (case Run pf (order_options cfg) LogSink [] [] (pr_world p) of
       (Panic q, w) \<Rightarrow> (Panic q, p\<lparr>pr_world := w\<rparr>)
     | (_, w) \<Rightarrow>
        (let p1 = does [Listening (cf_HTTPAddr cfg)] p
         in case work pf metrics (order_options cfg) acts w of
              (Panic q, w1) \<Rightarrow> (Panic q, p1\<lparr>pr_world := w1\<rparr>)
            | (published, w1) \<Rightarrow>
               (case Server_Run \<lparr>so_Addr = cf_HTTPAddr cfg, so_ShutdownTimeout = cf_ShutdownTimeout cfg\<rparr>
                       how (p1\<lparr>pr_world := w1\<rparr>) of
                  (served, p2) \<Rightarrow> (group_Wait [served, published], p2))))"

definition flush :: "external \<Rightarrow> providers \<Rightarrow> process \<Rightarrow> process" where
  "flush ext pv p =
    (case Shutdown ext pv p of
       (None, p') \<Rightarrow> p'
     | (Some e, p') \<Rightarrow> does [Logged ''telemetry shutdown'' e] p')"

record boot =
  bt_platform :: platform
  bt_printable :: "string \<Rightarrow> bool"
  bt_environ :: environ
  bt_external :: external
  bt_metrics :: handler
  bt_activity :: "activity list"
  bt_end :: serve_end

definition order_run :: "boot \<Rightarrow> process \<Rightarrow> unit go \<times> process" where
  "order_run bt p =
    (let ext = bt_external bt
     in case Load (bt_printable bt) (bt_environ bt) serviceName of
       Err e \<Rightarrow> (Err e, p)
     | Panic q \<Rightarrow> (Panic q, p)
     | Ok cfg \<Rightarrow>
        deferred (does [Closed Signals])
          (case Setup ext (cf_ServiceName cfg) (cf_OTLPEndpoint cfg)
                  (does [Installed (GlobalLogger (New (cf_ServiceName cfg) (cf_LogLevel cfg))), Opened Signals] p) of
             (Err e, p1) \<Rightarrow> (Err e, p1)
           | (Panic q, p1) \<Rightarrow> (Panic q, p1)
           | (Ok providers, p1) \<Rightarrow>
              deferred (flush ext providers)
                (case NewPool ext (cf_DatabaseDSN cfg) p1 of
                   (Err e, p2) \<Rightarrow> (Err e, p2)
                 | (Panic q, p2) \<Rightarrow> (Panic q, p2)
                 | (Ok _, p2) \<Rightarrow>
                    deferred (does [Closed Pool])
                      (case Migrate ext migrations_FS p2 of
                         (Err e, p3) \<Rightarrow> (Err e, p3)
                       | (Panic q, p3) \<Rightarrow> (Panic q, p3)
                       | (Ok _, p3) \<Rightarrow>
                          serve_group (bt_platform bt) (bt_metrics bt) cfg (bt_activity bt) (bt_end bt) p3))))"

datatype ending = Exit nat | Crash string

definition order_main :: "boot \<Rightarrow> process \<Rightarrow> ending \<times> process" where
  "order_main bt p =
    (case order_run bt p of
       (Ok _, p') \<Rightarrow> (Exit 0, p')
     | (Err e, p') \<Rightarrow> (Exit 1, does [Logged ''order service exited'' e] p')
     | (Panic q, p') \<Rightarrow> (Crash q, p'))"

section \<open>Every resource is released\<close>

text \<open>
  The account of a trace: opening what is open, closing what is not, installing a telemetry global
  before both providers are built, pinging or migrating without a pool, and listening before the pool is open
  and the migrations have run are refused.  The result is what is still open, and whether the migrations have run.
\<close>

fun account :: "handle list \<times> bool \<Rightarrow> effect list \<Rightarrow> (handle list \<times> bool) option" where
  "account s [] = Some s"
| "account (open_now, up) (Opened h # es) =
    (if h \<in> set open_now then None else account (h # open_now, up) es)"
| "account (open_now, up) (Closed h # es) =
    (if h \<in> set open_now then account (remove1 h open_now, up) es else None)"
| "account (open_now, up) (Installed (GlobalLogger l) # es) = account (open_now, up) es"
| "account (open_now, up) (Installed g # es) =
    (if {Tracer, Meter} \<subseteq> set open_now then account (open_now, up) es else None)"
| "account (open_now, up) (Pinged # es) = (if Pool \<in> set open_now then account (open_now, up) es else None)"
| "account (open_now, up) (Migrated # es) =
    (if {Pool, PoolDB} \<subseteq> set open_now then account (open_now, True) es else None)"
| "account (open_now, up) (Listening a # es) =
    (if up \<and> {Signals, Tracer, Meter, Pool} \<subseteq> set open_now then account (open_now, up) es else None)"
| "account (open_now, up) (Draining t # es) =
    (if Pool \<in> set open_now then account (open_now, up) es else None)"
| "account (open_now, up) (Logged m e # es) = account (open_now, up) es"

fun telemetry_globals :: "effect list \<Rightarrow> global list" where
  "telemetry_globals [] = []"
| "telemetry_globals (Installed (GlobalLogger l) # es) = telemetry_globals es"
| "telemetry_globals (Installed g # es) = g # telemetry_globals es"
| "telemetry_globals (e # es) = telemetry_globals es"

text \<open>The pings, migrations and listeners of a trace, in order.\<close>

fun milestones :: "effect list \<Rightarrow> effect list" where
  "milestones [] = []"
| "milestones (Pinged # es) = Pinged # milestones es"
| "milestones (Migrated # es) = Migrated # milestones es"
| "milestones (Listening a # es) = Listening a # milestones es"
| "milestones (e # es) = milestones es"

lemmas process_defs = does_def Let_def

lemma pr_effects_does [simp]: "pr_effects (does es p) = pr_effects p @ es"
  and pr_world_does [simp]: "pr_world (does es p) = pr_world p"
  by (simp_all add: does_def)

text \<open>What each part leaves in the trace.\<close>

lemma Setup_effects:
  assumes "Setup ext n ep p = (r, p')"
  shows "pr_world p' = pr_world p \<and>
    (case r of
       Ok pv \<Rightarrow> pv_shutdown pv = [(TracerShutdown, Tracer), (MeterShutdown, Meter)] \<and>
         pr_effects p' = pr_effects p @ [Opened Tracer, Opened Meter, Installed GlobalTracer,
           Installed GlobalMeter, Installed GlobalPropagator]
     | Err e \<Rightarrow> pr_effects p' \<in> {pr_effects p, pr_effects p @ [Opened Tracer, Closed Tracer]}
     | Panic q \<Rightarrow> False)"
  using assms by (auto simp: Setup_def Let_def split: option.splits)

lemma NewPool_effects:
  assumes "NewPool ext dsn p = (r, p')"
  shows "pr_world p' = pr_world p \<and>
    (case r of
       Ok _ \<Rightarrow> pr_effects p' = pr_effects p @ [Opened Pool, Pinged] \<and> ext Ping = None
     | Err e \<Rightarrow> pr_effects p' \<in> {pr_effects p, pr_effects p @ [Opened Pool, Closed Pool]}
     | Panic q \<Rightarrow> False)"
  using assms by (auto simp: NewPool_def Let_def split: option.splits)

lemma Migrate_effects:
  assumes "Migrate ext fsys p = (r, p')"
  shows "pr_world p' = pr_world p \<and>
    (case r of
       Ok _ \<Rightarrow> pr_effects p' = pr_effects p @ [Opened PoolDB, Migrated, Closed PoolDB] \<and> ext ProviderUp = None
     | Err e \<Rightarrow> pr_effects p' = pr_effects p @ [Opened PoolDB, Closed PoolDB]
     | Panic q \<Rightarrow> False)"
  using assms by (auto simp: Migrate_def Let_def split: option.splits)

lemma Server_Run_effects:
  assumes "Server_Run so how p = (r, p')"
  shows "pr_world p' = pr_world p \<and> (\<forall>q. r \<noteq> Panic q) \<and>
    pr_effects p' \<in> {pr_effects p, pr_effects p @ [Draining (so_ShutdownTimeout so)]}"
  using assms
  by (auto simp: Server_Run_def listen_result_def split: option.splits serve_end.splits if_splits)

lemma work_not_Err: "work pf metrics opts acts w \<noteq> (Err e, w')"
  by (induction pf metrics opts acts w rule: work.induct) (auto split: go.splits prod.splits if_splits)

lemma serve_group_effects:
  assumes "serve_group pf metrics cfg acts how p = (r, p')" and "\<And>q. r \<noteq> Panic q"
  shows "\<exists>ds. pr_effects p' = pr_effects p @ Listening (cf_HTTPAddr cfg) # ds \<and>
    ds \<in> {[], [Draining (cf_ShutdownTimeout cfg)]}"
proof -
  let ?so = "\<lparr>so_Addr = cf_HTTPAddr cfg, so_ShutdownTimeout = cf_ShutdownTimeout cfg\<rparr>"
  obtain x w where r0: "Run pf (order_options cfg) LogSink [] [] (pr_world p) = (x, w)"
    by (metis prod.exhaust)
  obtain y w1 where w: "work pf metrics (order_options cfg) acts w = (y, w1)" by (metis prod.exhaust)
  obtain z p2 where s: "Server_Run ?so how ((does [Listening (cf_HTTPAddr cfg)] p)\<lparr>pr_world := w1\<rparr>) = (z, p2)"
    by (metis prod.exhaust)
  have "p' = p2"
    using assms(1) assms(2) r0 w s by (auto simp: serve_group_def Let_def split: go.splits)
  with Server_Run_effects [OF s] show ?thesis by auto
qed

lemma flush_effects:
  assumes "pv_shutdown pv = [(TracerShutdown, Tracer), (MeterShutdown, Meter)]"
  shows "\<exists>ls. pr_effects (flush ext pv p) = pr_effects p @ Closed Tracer # Closed Meter # ls \<and>
    ls \<in> {[]} \<union> range (\<lambda>e. [Logged ''telemetry shutdown'' e])"
  using assms by (auto simp: flush_def Shutdown_def split: option.split prod.split)

lemma deferred_eq:
  "deferred f (r, p) = (r, if \<exists>q. r = Panic q then p else f p)"
  by (cases r) auto

lemma deferred_Pair: "deferred f x = (r, p') \<longleftrightarrow>
    (\<exists>p. x = (r, p) \<and> p' = (if \<exists>q. r = Panic q then p else f p))"
  by (cases x) (auto simp: deferred_eq)

text \<open>The pool answered a ping before the migrations, and they ran before the server listened.\<close>

definition in_order :: "external \<Rightarrow> effect list \<Rightarrow> bool" where
  "in_order ext es \<longleftrightarrow>
    milestones es = [] \<or>
    (ext Ping = None \<and> (milestones es = [Pinged] \<or>
       (ext ProviderUp = None \<and> (milestones es = [Pinged, Migrated] \<or>
          (\<exists>a. milestones es = [Pinged, Migrated, Listening a])))))"

definition released :: "external \<Rightarrow> effect list \<Rightarrow> bool" where
  "released ext es \<longleftrightarrow> in_order ext es \<and> (case account ([], False) es of Some (open_now, _) \<Rightarrow> open_now = [] | None \<Rightarrow> False) \<and>
    telemetry_globals es \<in> {[], [GlobalTracer, GlobalMeter, GlobalPropagator]}"

lemma order_run_released:
  assumes "order_run bt p = (r, p')" and "\<And>q. r \<noteq> Panic q"
  shows "\<exists>es. pr_effects p' = pr_effects p @ es \<and> released (bt_external bt) es"
proof (cases "Load (bt_printable bt) (bt_environ bt) serviceName")
  case (Ok cfg)
  let ?ext = "bt_external bt"
  let ?p0 = "does [Installed (GlobalLogger (New (cf_ServiceName cfg) (cf_LogLevel cfg))), Opened Signals] p"
  obtain a p1 where a: "Setup ?ext (cf_ServiceName cfg) (cf_OTLPEndpoint cfg) ?p0 = (a, p1)" by force
  obtain b p2 where b: "NewPool ?ext (cf_DatabaseDSN cfg) p1 = (b, p2)" by force
  obtain c p3 where c: "Migrate ?ext migrations_FS p2 = (c, p3)" by force
  obtain d p4 where d: "serve_group (bt_platform bt) (bt_metrics bt) cfg (bt_activity bt) (bt_end bt) p3 = (d, p4)"
    by force
  note run = assms(1) [unfolded order_run_def Let_def Ok go.case a prod.case b c d]
  note effects = Setup_effects [OF a] NewPool_effects [OF b] Migrate_effects [OF c]
  show ?thesis
  proof (cases a)
    case [simp]: (Ok pv)
    note fl = flush_effects [of pv ?ext]
    show ?thesis
    proof (cases b)
      case [simp]: (Ok u)
      show ?thesis
      proof (cases c)
        case [simp]: (Ok u)
        have "r = d" using run by (auto simp: deferred_Pair)
        with serve_group_effects [OF d] assms(2) effects fl [of "does [Closed Pool] p4"] run show ?thesis
          by (auto simp: deferred_eq released_def in_order_def)
      qed (use run effects fl [of "does [Closed Pool] p3"] in \<open>auto simp: released_def in_order_def\<close>)
    qed (use run effects fl [of p2] in \<open>auto simp: released_def in_order_def\<close>)
  qed (use run effects in \<open>auto simp: released_def in_order_def\<close>)
qed (use assms in \<open>auto simp: order_run_def Let_def released_def in_order_def\<close>)

lemma account_Logged: "account s (es @ [Logged m e]) = account s es"
  by (induction s es rule: account.induct) auto

lemma telemetry_globals_Logged: "telemetry_globals (es @ [Logged m e]) = telemetry_globals es"
  by (induction es rule: telemetry_globals.induct) auto

lemma milestones_Logged: "milestones (es @ [Logged m e]) = milestones es"
  by (induction es rule: milestones.induct) auto

lemma released_Logged: "released ext es \<Longrightarrow> released ext (es @ [Logged m e])"
  by (simp add: released_def in_order_def account_Logged telemetry_globals_Logged milestones_Logged)

text \<open>C20: the process gives back everything it took.  However start-up and serving go, when \<open>main\<close> exits,
  every provider, pool, database handle and signal handler it opened has been closed exactly once;
  nothing is closed that was not open; the telemetry globals are installed all three, after both
  providers are built, or not at all; the migrations run only on a pool whose ping succeeded and the server
  listens only once they have run without an error; and it drains its requests before the pool is closed.\<close>

theorem resources_released:
  assumes "order_main bt p = (Exit n, p')" and "pr_effects p = []"
  shows "(\<exists>up. account ([], False) (pr_effects p') = Some ([], up)) \<and>
    telemetry_globals (pr_effects p') \<in> {[], [GlobalTracer, GlobalMeter, GlobalPropagator]} \<and>
    (milestones (pr_effects p') = [] \<or>
     (bt_external bt Ping = None \<and> (milestones (pr_effects p') = [Pinged] \<or>
        (bt_external bt ProviderUp = None \<and> (milestones (pr_effects p') = [Pinged, Migrated] \<or>
           (\<exists>a. milestones (pr_effects p') = [Pinged, Migrated, Listening a]))))))"
proof -
  obtain r p1 where run: "order_run bt p = (r, p1)" by (cases "order_run bt p")
  have "\<And>q. r \<noteq> Panic q" and
    "pr_effects p' \<in> {pr_effects p1} \<union> range (\<lambda>e. pr_effects p1 @ [Logged ''order service exited'' e])"
    using assms(1) run by (auto simp: order_main_def split: go.splits)
  moreover from order_run_released [OF run this(1)] assms(2) have "released (bt_external bt) (pr_effects p1)" by simp
  ultimately have "released (bt_external bt) (pr_effects p')" using released_Logged by auto
  then show ?thesis by (auto simp: released_def in_order_def split: option.splits)
qed

section \<open>How the process ends\<close>

text \<open>The calls of start-up in order, with the prefix of the error each may cause.\<close>

definition setup_calls :: "config \<Rightarrow> (call \<times> string) list" where
  "setup_calls cfg =
    [(NewResource (resource_attributes (cf_ServiceName cfg)), ''otelx: resource: ''),
     (NewTraceExporter (cf_OTLPEndpoint cfg), ''otelx: trace exporter: ''),
     (NewMetricExporter, ''otelx: metric exporter: '')]"

definition pool_calls :: "config \<Rightarrow> (call \<times> string) list" where
  "pool_calls cfg =
    [(ParseConfig (cf_DatabaseDSN cfg), ''postgres: parse dsn: ''),
     (NewWithConfig (cf_DatabaseDSN cfg), ''postgres: new pool: ''),
     (Ping, ''postgres: ping: '')]"

definition migrate_calls :: "string list \<Rightarrow> (call \<times> string) list" where
  "migrate_calls fsys =
    [(NewSessionLocker, ''postgres: session locker: ''),
     (NewProvider fsys, ''postgres: goose provider: ''),
     (ProviderUp, ''postgres: migrate: '')]"

text \<open>The first call that fails, with its prefix and its error.\<close>

fun first_failure :: "external \<Rightarrow> (call \<times> string) list \<Rightarrow> (string \<times> error) option" where
  "first_failure ext [] = None"
| "first_failure ext ((c, prefix) # cs) =
    (case ext c of Some e \<Rightarrow> Some (prefix, e) | None \<Rightarrow> first_failure ext cs)"

lemma first_failure_append:
  "first_failure ext (xs @ ys) =
    (case first_failure ext xs of Some f \<Rightarrow> Some f | None \<Rightarrow> first_failure ext ys)"
  by (induction ext xs rule: first_failure.induct) (auto split: option.split)

text \<open>The error serving ends with: what broke the listener, or what cut the shutdown short.\<close>

definition serving_error :: "serve_end \<Rightarrow> error option" where
  "serving_error how =
    (case how of
       Cancelled (Some e) _ \<Rightarrow> Some e
     | Cancelled None (Some e) \<Rightarrow> if errors_is e ErrServerClosed then None else Some e
     | ListenEnded (Some e) \<Rightarrow> if errors_is e ErrServerClosed then None else Some e
     | _ \<Rightarrow> None)"

lemma Server_Run_error:
  "fst (Server_Run so how p) = (case serving_error how of Some e \<Rightarrow> Err e | None \<Rightarrow> Ok ())"
  by (auto simp: Server_Run_def serving_error_def listen_result_def split: option.split serve_end.split)

text \<open>The result of a failed start-up: the wrapped error of the call, perhaps joined with another.\<close>

definition reports :: "error \<Rightarrow> string \<Rightarrow> error \<Rightarrow> bool" where
  "reports err prefix cause \<longleftrightarrow> errors_is err cause \<and>
    (\<exists>t. error_text err = prefix @ error_text cause @ t)"

lemma reports_Wrapf: "reports (Wrapf prefix e []) prefix e"
  by (auto simp: reports_def)

lemma reports_Join: "reports (the (errors_Join [Some (Wrapf prefix e []), x])) prefix e"
  by (cases x) (auto simp: reports_def errors_Join_def)

lemma Setup_outcome:
  assumes "Setup ext (cf_ServiceName cfg) (cf_OTLPEndpoint cfg) p = (r, p')"
  shows "case first_failure ext (setup_calls cfg) of
     Some (prefix, e) \<Rightarrow> \<exists>err. r = Err err \<and> reports err prefix e
   | None \<Rightarrow> is_ok r"
  using assms reports_Wrapf reports_Join
  by (auto simp: Setup_def setup_calls_def Let_def split: option.splits)

lemma NewPool_outcome:
  assumes "NewPool ext (cf_DatabaseDSN cfg) p = (r, p')"
  shows "case first_failure ext (pool_calls cfg) of
     Some (prefix, e) \<Rightarrow> \<exists>err. r = Err err \<and> reports err prefix e
   | None \<Rightarrow> is_ok r"
  using assms reports_Wrapf
  by (auto simp: NewPool_def pool_calls_def Let_def split: option.splits)

lemma Migrate_outcome:
  assumes "Migrate ext fsys p = (r, p')"
  shows "case first_failure ext (migrate_calls fsys) of
     Some (prefix, e) \<Rightarrow> \<exists>err. r = Err err \<and> reports err prefix e
   | None \<Rightarrow> is_ok r"
  using assms reports_Wrapf
  by (auto simp: Migrate_def migrate_calls_def Let_def split: option.splits)

lemma pr_world_flush [simp]: "pr_world (flush ext pv p) = pr_world p"
proof -
  have "pr_world (snd (shutdown_all ext fns p)) = pr_world p" for fns
    by (induction ext fns p rule: shutdown_all.induct) (auto split: prod.split)
  then show ?thesis by (auto simp: flush_def Shutdown_def split: option.split prod.split) (metis snd_conv)+
qed

text \<open>What the group of goroutines makes of its work: its result and the world it leaves.\<close>

definition group_outcome :: "boot \<Rightarrow> config \<Rightarrow> world \<Rightarrow> unit go \<times> world" where
  "group_outcome bt cfg w =
    (if sint (cf_OutboxPollInterval cfg) \<le> 0 then (Panic ''non-positive interval for NewTicker'', w)
     else case work (bt_platform bt) (bt_metrics bt) (order_options cfg) (bt_activity bt) w of
            (Panic q, w') \<Rightarrow> (Panic q, w')
          | (_, w') \<Rightarrow>
              (case serving_error (bt_end bt) of Some e \<Rightarrow> (Err e, w') | None \<Rightarrow> (Ok (), w')))"

lemma serve_group_outcome:
  assumes "serve_group (bt_platform bt) (bt_metrics bt) cfg (bt_activity bt) (bt_end bt) p = (r, p')"
  shows "(r, pr_world p') = group_outcome bt cfg (pr_world p)"
proof -
  let ?pf = "bt_platform bt"
  let ?so = "\<lparr>so_Addr = cf_HTTPAddr cfg, so_ShutdownTimeout = cf_ShutdownTimeout cfg\<rparr>"
  obtain y w1 where w: "work ?pf (bt_metrics bt) (order_options cfg) (bt_activity bt) (pr_world p) = (y, w1)"
    by (metis prod.exhaust)
  obtain z p2 where s: "Server_Run ?so (bt_end bt)
      ((does [Listening (cf_HTTPAddr cfg)] p)\<lparr>pr_world := w1\<rparr>) = (z, p2)" by (metis prod.exhaust)
  have p2: "pr_world p2 = w1" using Server_Run_effects [OF s] by simp
  have z: "z = (case serving_error (bt_end bt) of Some e \<Rightarrow> Err e | None \<Rightarrow> Ok ())"
    using Server_Run_error [of ?so "bt_end bt"] s by (metis fst_conv)
  have "y \<noteq> Err e" for e using w work_not_Err by blast
  with assms w s p2 z show ?thesis
    by (cases y) (auto simp: serve_group_def group_outcome_def Run_def order_options_def Let_def
        split: option.splits if_splits)
qed

lemma order_run_outcome:
  assumes "order_run bt p = (r, p')"
  shows "case Load (bt_printable bt) (bt_environ bt) serviceName of
     Panic _ \<Rightarrow> False
   | Err e \<Rightarrow> r = Err e \<and> p' = p
   | Ok cfg \<Rightarrow>
      (case first_failure (bt_external bt) (setup_calls cfg @ pool_calls cfg @ migrate_calls migrations_FS) of
         Some (prefix, e) \<Rightarrow> (\<exists>err. r = Err err \<and> reports err prefix e) \<and> pr_world p' = pr_world p
       | None \<Rightarrow> (r, pr_world p') = group_outcome bt cfg (pr_world p))"
proof (cases "Load (bt_printable bt) (bt_environ bt) serviceName")
  case (Ok cfg)
  let ?ext = "bt_external bt"
  let ?p0 = "does [Installed (GlobalLogger (New (cf_ServiceName cfg) (cf_LogLevel cfg))), Opened Signals] p"
  obtain a p1 where a: "Setup ?ext (cf_ServiceName cfg) (cf_OTLPEndpoint cfg) ?p0 = (a, p1)" by force
  obtain b p2 where b: "NewPool ?ext (cf_DatabaseDSN cfg) p1 = (b, p2)" by force
  obtain c p3 where c: "Migrate ?ext migrations_FS p2 = (c, p3)" by force
  obtain d p4 where d: "serve_group (bt_platform bt) (bt_metrics bt) cfg (bt_activity bt) (bt_end bt) p3 = (d, p4)"
    by force
  note run = assms [unfolded order_run_def Let_def Ok go.case a prod.case b c d]
  have world: "pr_world p1 = pr_world p" "pr_world p2 = pr_world p" "pr_world p3 = pr_world p"
    using Setup_effects [OF a] NewPool_effects [OF b] Migrate_effects [OF c] by simp_all
  note outcomes = Setup_outcome [OF a] NewPool_outcome [OF b] Migrate_outcome [OF c]
  show ?thesis
  proof (cases "first_failure ?ext (setup_calls cfg)")
    case None
    then obtain pv where [simp]: "a = Ok pv" using outcomes(1) by (auto simp: is_ok_iff)
    show ?thesis
    proof (cases "first_failure ?ext (pool_calls cfg)")
      case no_pool: None
      then have [simp]: "b = Ok ()" using outcomes(2) by (auto simp: is_ok_iff)
      show ?thesis
      proof (cases "first_failure ?ext (migrate_calls migrations_FS)")
        case no_mig: None
        then have [simp]: "c = Ok ()" using outcomes(3) by (auto simp: is_ok_iff)
        have "r = d" "pr_world p' = pr_world p4" using run by (auto simp: deferred_Pair)
        with serve_group_outcome [OF d] None no_pool no_mig world show ?thesis
          by (simp add: Ok first_failure_append)
      qed (use run outcomes None no_pool world in \<open>auto simp: Ok first_failure_append\<close>)
    qed (use run outcomes None world in \<open>auto simp: Ok first_failure_append\<close>)
  qed (use run outcomes world in \<open>auto simp: Ok first_failure_append\<close>)
qed (use assms Load_not_Panic in \<open>auto simp: order_run_def Let_def\<close>)

text \<open>C21: how \<open>main\<close> ends.  A configuration that does not load, or the first call of start-up that fails,
  ends it with exit status 1 and that error, wrapped with the name of the step, logged last, and the
  database untouched.  Otherwise the service runs: it exits with 0 if the listener was closed by a
  shutdown that finished in time and with 1 and the error that ended serving if not.  A poll interval
  that is not positive, which \<open>Load\<close> accepts, crashes it as soon as the publisher starts.\<close>

theorem main_outcome:
  "case Load (bt_printable bt) (bt_environ bt) serviceName of
     Panic _ \<Rightarrow> False
   | Err e \<Rightarrow> order_main bt p = (Exit 1, does [Logged ''order service exited'' e] p)
   | Ok cfg \<Rightarrow>
      (case first_failure (bt_external bt) (setup_calls cfg @ pool_calls cfg @ migrate_calls migrations_FS) of
         Some (prefix, e) \<Rightarrow>
          (\<exists>err p'. order_main bt p = (Exit 1, does [Logged ''order service exited'' err] p') \<and>
             errors_is err e \<and> (\<exists>t. error_text err = prefix @ error_text e @ t) \<and> pr_world p' = pr_world p)
       | None \<Rightarrow>
          if sint (cf_OutboxPollInterval cfg) \<le> 0
          then fst (order_main bt p) = Crash ''non-positive interval for NewTicker''
          else case work (bt_platform bt) (bt_metrics bt) (order_options cfg) (bt_activity bt) (pr_world p) of
                 (Panic q, w) \<Rightarrow> fst (order_main bt p) = Crash q
               | (_, w) \<Rightarrow>
                  (\<exists>p'. pr_world p' = w \<and> order_main bt p =
                     (case serving_error (bt_end bt) of
                        None \<Rightarrow> (Exit 0, p')
                      | Some e \<Rightarrow> (Exit 1, does [Logged ''order service exited'' e] p'))))"
proof -
  obtain r p' where run: "order_run bt p = (r, p')" by (cases "order_run bt p")
  note out = order_run_outcome [OF run]
  show ?thesis
    using out by (auto simp: order_main_def run reports_def group_outcome_def split: go.splits option.splits prod.splits if_splits)
qed

section \<open>The database over the life of the process\<close>

lemma db_steps_ok: "db_steps pf d d' \<Longrightarrow> db_ok d \<Longrightarrow> db_ok d'"
  by (induction rule: rtranclp_induct) (auto dest: db_step_db_ok)

lemma work_steps:
  assumes "\<And>r b w. db (snd (snd (metrics r b w))) = db w"
    and "work pf metrics opts acts w = (r, w')" and "db_ok (db w)"
  shows "db_steps pf (db w) (db w')"
  using assms(2,3)
proof (induction acts arbitrary: w)
  case (Cons a acts)
  show ?case
  proof (cases a)
    case (Incoming t x)
    let ?w1 = "snd (serve (order_service pf metrics) x (w\<lparr>clock := t\<rparr>))"
    have 1: "db_steps pf (db w) (db ?w1)"
      using serve_steps [of metrics "w\<lparr>clock := t\<rparr>" pf x, OF assms(1)] Cons.prems(2) by simp
    with Cons.IH [of ?w1] Cons.prems db_steps_ok Incoming have "db_steps pf (db ?w1) (db w')" by simp
    with 1 show ?thesis by (rule rtranclp_trans)
  next
    case (Tick t locked)
    obtain q w1 where q: "Run pf opts LogSink locked [t] (w\<lparr>cancelled := False\<rparr>) = (q, w1)"
      by (metis prod.exhaust)
    have 1: "db_steps pf (db w) (db w1)"
      using Run_steps [OF log_sink.sink_axioms q] Cons.prems(2) by simp
    have "w' = w1 \<or> work pf metrics opts acts w1 = (r, w')"
      using Cons.prems(1) Tick q by (auto split: go.splits if_splits)
    with 1 Cons.IH [of w1] db_steps_ok [OF 1] Cons.prems(2) show ?thesis
      by (metis rtranclp_trans)
  qed
qed simp

lemma group_outcome_steps:
  assumes "\<And>r b w. db (snd (snd (bt_metrics bt r b w))) = db w"
    and "(r, w') = group_outcome bt cfg w" and "db_ok (db w)"
  shows "db_steps (bt_platform bt) (db w) (db w')"
proof -
  obtain y w1 where y: "work (bt_platform bt) (bt_metrics bt) (order_options cfg) (bt_activity bt) w = (y, w1)"
    by (metis prod.exhaust)
  have "w' = w \<or> w' = w1"
    using assms(2) y by (auto simp: group_outcome_def split: if_splits go.splits option.splits)
  with work_steps [OF assms(1) y assms(3)] show ?thesis by auto
qed

text \<open>C22: whatever the process goes through, from a start-up that fails to a crash, a shutdown cut short or
  any run of requests and publisher ticks under any faults, it takes the database only through the
  atomic steps of \<open>db_step\<close>, and leaves orders, completed keys and events in one-to-one
  correspondence and the constraints of the schema kept.\<close>

theorem process_keeps_the_invariant:
  assumes "order_main bt p = (how, p')" and "db_ok (db (pr_world p))" and "paired (db (pr_world p))"
    and "\<And>r b w. db (snd (snd (bt_metrics bt r b w))) = db w"
  shows "db_steps (bt_platform bt) (db (pr_world p)) (db (pr_world p')) \<and>
    db_ok (db (pr_world p')) \<and> paired (db (pr_world p'))"
proof -
  obtain r p1 where run: "order_run bt p = (r, p1)" by (cases "order_run bt p")
  have w: "pr_world p' = pr_world p1"
    using assms(1) run by (auto simp: order_main_def split: go.splits)
  have "pr_world p1 = pr_world p \<or> (\<exists>cfg. (r, pr_world p1) = group_outcome bt cfg (pr_world p))"
    using order_run_outcome [OF run] by (auto split: go.splits option.splits)
  then have "db_steps (bt_platform bt) (db (pr_world p)) (db (pr_world p1))"
    using group_outcome_steps [OF assms(4) _ assms(2)] by auto
  with db_steps_invariant [OF _ assms(2,3)] w show ?thesis by simp
qed

section \<open>Instances\<close>

definition sample_boot :: "string \<Rightarrow> external \<Rightarrow> activity list \<Rightarrow> serve_end \<Rightarrow> boot" where
  "sample_boot interval ext acts how =
    \<lparr>bt_platform = sample_platform, bt_printable = (\<lambda>_. False),
     bt_environ = [''DATABASE_DSN'' \<mapsto> ''dsn'', ''OUTBOX_POLL_INTERVAL'' \<mapsto> interval],
     bt_external = ext, bt_metrics = Health, bt_activity = acts, bt_end = how\<rparr>"

definition sample_process :: process where
  "sample_process = \<lparr>pr_world = sample_world, pr_effects = []\<rparr>"

definition refused_ping :: external where
  "refused_ping c = (if c = Ping then Some (Driver ''connection refused'') else None)"

text \<open>A database that refuses connections: exit status 1, and the telemetry is shut down again.\<close>

lemma refused_ping_run:
  "case order_main (sample_boot ''1s'' refused_ping [] (Cancelled None (Some ErrServerClosed))) sample_process of
     (how, p') \<Rightarrow> how = Exit 1 \<and> pr_effects p' =
       [Installed (GlobalLogger (New ''order'' LevelInfo)), Opened Signals, Opened Tracer, Opened Meter, Installed GlobalTracer,
        Installed GlobalMeter, Installed GlobalPropagator, Opened Pool, Closed Pool, Closed Tracer, Closed Meter,
        Closed Signals, Logged ''order service exited'' (Wrapf ''postgres: ping: '' (Driver ''connection refused'') [])]"
  by code_simp

lemma clean_run:
  "case order_main (sample_boot ''1s'' (\<lambda>_. None) [] (Cancelled None (Some ErrServerClosed))) sample_process of
     (how, p') \<Rightarrow> how = Exit 0 \<and> milestones (pr_effects p') \<noteq> [] \<and> milestones (pr_effects p') \<noteq> [Pinged] \<and>
       milestones (pr_effects p') \<noteq> [Pinged, Migrated]"
  by code_simp

theorem resources_released_witness:
  "\<exists>p' a. order_main (sample_boot ''1s'' (\<lambda>_. None) [] (Cancelled None (Some ErrServerClosed))) sample_process =
     (Exit 0, p') \<and> (\<exists>up. account ([], False) (pr_effects p') = Some ([], up)) \<and>
     milestones (pr_effects p') = [Pinged, Migrated, Listening a]"
proof -
  obtain p' where run: "order_main (sample_boot ''1s'' (\<lambda>_. None) [] (Cancelled None (Some ErrServerClosed)))
      sample_process = (Exit 0, p')" "milestones (pr_effects p') \<noteq> []" "milestones (pr_effects p') \<noteq> [Pinged]"
      "milestones (pr_effects p') \<noteq> [Pinged, Migrated]"
    using clean_run by (auto split: prod.splits)
  have "pr_effects sample_process = []" by (simp add: sample_process_def)
  from resources_released [OF run(1) this] run show ?thesis by blast
qed

text \<open>A poll interval of zero: the configuration loads and the publisher crashes the process.\<close>

lemma zero_interval_crashes:
  "fst (order_main (sample_boot ''0s'' (\<lambda>_. None) [] (Cancelled None (Some ErrServerClosed))) sample_process) =
     Crash ''non-positive interval for NewTicker''"
  by code_simp

theorem process_keeps_the_invariant_witness:
  "paired (db (pr_world (snd (order_main
     (sample_boot ''1s'' (\<lambda>_. None) [Incoming 3 sample_create, Tick 5 []] (Cancelled None (Some ErrServerClosed)))
     sample_process))))"
proof -
  let ?bt = "sample_boot ''1s'' (\<lambda>_. None) [Incoming 3 sample_create, Tick 5 []] (Cancelled None (Some ErrServerClosed))"
  have "db (snd (snd (bt_metrics ?bt r b w))) = db w" for r b w
    by (simp add: sample_boot_def Health_def split: prod.split)
  moreover have "db (pr_world sample_process) = empty_db"
    by (simp add: sample_process_def sample_world_def)
  ultimately show ?thesis
    using process_keeps_the_invariant [OF prod.collapse [symmetric], of sample_process ?bt]
      db_ok_empty paired_empty by simp
qed

end
