(* ===== verification/Client_Trace.thy ===== *)
theory Client_Trace
  imports Lifecycle
begin

text \<open>
  What clients see of the service.  What a 202 of \<open>POST /orders\<close> stands for and what a retry gets, under any
  faults; the requests and publisher ticks of \<open>work\<close> with the answer each request got, and the agreement
  of all answers under one idempotency key.
\<close>

section \<open>The conversation\<close>

text \<open>The requests a run of the process served, with their answers (\<open>None\<close> for an aborted connection).\<close>

fun answers ::
  "platform \<Rightarrow> handler \<Rightarrow> publisher_options \<Rightarrow> activity list \<Rightarrow> world \<Rightarrow> (request \<times> response option) list" where
  "answers pf metrics opts [] w = []"
| "answers pf metrics opts (Incoming t r # rest) w =
    (case serve (order_service pf metrics) r (w\<lparr>clock := t\<rparr>) of
       (resp, w1) \<Rightarrow> (r, resp) # answers pf metrics opts rest w1)"
| "answers pf metrics opts (Tick t locked # rest) w =
    (case Run pf opts LogSink locked [t] (w\<lparr>cancelled := False\<rparr>) of
       (Panic q, w1) \<Rightarrow> []
     | (_, w1) \<Rightarrow> if cancelled w1 then [] else answers pf metrics opts rest w1)"

text \<open>Several lives of the process on one database: it ends or crashes after some requests and is started again.\<close>

fun lives ::
  "platform \<Rightarrow> handler \<Rightarrow> publisher_options \<Rightarrow> activity list list \<Rightarrow> world \<Rightarrow>
   (request \<times> response option) list \<times> world" where
  "lives pf metrics opts [] w = ([], w)"
| "lives pf metrics opts (acts # rest) w =
    (let (conversation, w1) = lives pf metrics opts rest (snd (work pf metrics opts acts w))
     in (answers pf metrics opts acts w @ conversation, w1))"

text \<open>
  A request that asks for an order under a key, and an answer that accepts it: a 202 other than the
  one that says a request with the key is still being worked on.
\<close>

definition orders_under :: "string \<Rightarrow> request \<Rightarrow> bool" where
  "orders_under k r \<longleftrightarrow>
    rq_method r = ''POST'' \<and> rq_path r = ''/orders'' \<and> header_get (rq_header r) headerName = k"

definition accepts_order :: "response \<Rightarrow> bool" where
  "accepts_order resp \<longleftrightarrow> rs_status resp = 202 \<and> rs_body resp \<noteq> processing_body"

section \<open>An acceptance is on record\<close>

definition on_record :: "platform \<Rightarrow> database \<Rightarrow> string \<Rightarrow> request \<Rightarrow> response \<Rightarrow> bool" where
  "on_record pf d k r resp \<longleftrightarrow>
    (\<exists>body h oid. read_body r = Some body \<and> Hash pf body = Ok h \<and> rs_body resp = accepted_body oid \<and>
       key_store_of d k = Some (Done h oid 202 (accepted_body oid)))"

lemma accepted_not_processing: "accepted_body oid \<noteq> processing_body"
proof -
  have "encode_string ''order_id'' = ''\"order_id\"''" "encode_string ''status'' = ''\"status\"''" by code_simp+
  then show ?thesis by (simp add: accepted_body_def processing_body_def result_json_def)
qed

text \<open>The answers of \<open>POST /orders\<close> under a key somebody holds.\<close>

lemma Require_taken_answers:
  assumes "Require pf nxt r b w = (q, b', w')" and "unsent b" and "db_ok (db w)" and "paired (db w)"
    and k: "header_get (rq_header r) headerName = k" and "keys w k \<noteq> None"
  obtains (replayed) body h oid where "q = Ok ()" and "read_body r = Some body" and "Hash pf body = Ok h"
      and "keys w' k = Some (Done h oid 202 (accepted_body oid))"
      and "rw_sent b' \<noteq> None" and "rw_body b' = accepted_body oid"
  | (busy) "q = Ok ()" and "b' = answered 202 processing_body b"
  | (refused) code body where "b' = answered code body b" and "code \<noteq> 202"
  | (panicked) p where "q = Panic p" and "b' = b"
  using assms(1,2)
proof (cases rule: Require_run)
  case (rejected body)
  then show thesis using refused [of 400] by simp
next
  case (unclaimed body h x bd)
  then show thesis using refused [of 500] panicked by auto
next
  case (replayed body h rec)
  note c = replayed(4) [unfolded k]
  have same: "keys w' = keys w" using Claim_decides [OF c assms(3)] assms(6)
    by (auto simp: spec_claim_def split: option.splits key_state.splits if_splits)
  have compl: "keys w k = Some (Done h (rec_resource_id rec) (rec_status_code rec) (rec_response_body rec))"
    using Claim_replays [OF c] .
  have rec: "rec_status_code rec = 202" "rec_response_body rec = accepted_body (rec_resource_id rec)"
    using replay_paired [OF c assms(4)] by blast+
  from replayed(5) write_replay_unsent [of b rec] rec assms(2) accepted_code have
    "q = Ok ()" "rw_sent b' \<noteq> None" "rw_body b' = accepted_body (rec_resource_id rec)"
    by (simp_all add: answered_def set_header_def Let_def)
  with that(1) [of body h "rec_resource_id rec"] replayed(2,3) compl rec same show thesis by simp
next
  case (busy body h rec)
  then show thesis using that(2) by simp
next
  case (reused body h rec bd)
  then show thesis using refused [of 409] by simp
next
  case (owned body h rec w1)
  then show thesis using Claim_decides [OF owned(4) assms(3)] assms(6) k
    by (auto simp: spec_claim_def split: option.splits key_state.splits if_splits)
qed

lemma rs_body_finish: "rs_body (finish (pop_layer b)) = rw_body b"
  by (simp add: finish_def pop_layer_def split: option.split)

text \<open>A \<open>POST /orders\<close> seen through the front: what the client gets is what the middleware below it sent.\<close>

lemma post_orders_served:
  assumes "orders_under k r"
  obtains q b w1 resp w' where "Require pf (Create (service_execute pf)) (front_request pf r w)
      (front_rw pf r w) (front_world r w) = (q, b, w1)"
    and "serve (order_service pf metrics) r w = (Some resp, w')" and "db w' = db w1"
    and "q = Ok () \<Longrightarrow> resp = finish (pop_layer b)"
    and "rw_sent b \<noteq> None \<Longrightarrow> rs_status resp = fst (the (rw_sent b))"
    and "q \<noteq> Ok () \<Longrightarrow> unsent b \<Longrightarrow> rs_status resp = 500"
proof -
  have req: "rq_method r = ''POST''" "rq_path r = ''/orders''" using assms by (simp_all add: orders_under_def)
  let ?h = "ServeMux (service_routes pf metrics) []"
  obtain q b w1 where run: "Require pf (Create (service_execute pf)) (front_request pf r w)
      (front_rw pf r w) (front_world r w) = (q, b, w1)" by (metis prod.exhaust)
  then have h: "?h (front_request pf r w) (front_rw pf r w) (front_world r w) = (q, b, w1)"
    using post_orders_route [of "front_request pf r w"] req by simp
  have "q \<noteq> Err e" for e using http_handler.returns [OF post_orders_handler run] .
  from serve_front [where h = ?h, OF h this] show thesis
    using that [OF run] by (auto simp: order_service_def)
qed

lemma post_orders_invariant:
  assumes "orders_under k r" and "db_ok (db w)" and "paired (db w)"
    and "serve (order_service pf metrics) r w = (Some resp, w')"
  shows "db_ok (db w') \<and> paired (db w')"
proof (rule post_orders_served [OF assms(1), of pf w metrics])
  fix q b w1 resp' w2
  assume "Require pf (Create (service_execute pf)) (front_request pf r w) (front_rw pf r w) (front_world r w) = (q, b, w1)"
    and "serve (order_service pf metrics) r w = (Some resp', w2)" and "db w2 = db w1"
  with Require_steps [of pf "front_request pf r w" "front_rw pf r w" "front_world r w" q b w1]
    db_steps_invariant [of pf "db w" "db w1"] assms(2-4) show ?thesis by simp
qed

lemma accepted_on_record:
  assumes "orders_under k r" and "db_ok (db w)" and "paired (db w)"
    and "serve (order_service pf metrics) r w = (Some resp, w')" and "accepts_order resp"
  shows "on_record pf (db w') k r resp"
proof (cases "keys w k = None")
  case True
  obtain body h oid where "read_body r = Some body" "Hash pf body = Ok h"
    "keys w' k = Some (Done h oid 202 (rs_body resp))" "rs_body resp = accepted_body oid"
    by (rule post_orders_accepted [OF _ _ assms(2) _ True assms(4)])
       (use assms(1,5) in \<open>auto simp: orders_under_def accepts_order_def\<close>)
  then show ?thesis by (auto simp: on_record_def)
next
  case False
  from assms(1) have k: "header_get (rq_header r) headerName = k" by (simp add: orders_under_def)
  obtain q b w1 where run: "Require pf (Create (service_execute pf)) (front_request pf r w)
      (front_rw pf r w) (front_world r w) = (q, b, w1)" and
    out: "db w' = db w1" "q = Ok () \<Longrightarrow> resp = finish (pop_layer b)"
      "rw_sent b \<noteq> None \<Longrightarrow> rs_status resp = fst (the (rw_sent b))"
      "q \<noteq> Ok () \<Longrightarrow> unsent b \<Longrightarrow> rs_status resp = 500"
    by (rule post_orders_served [OF assms(1), of pf w metrics]) (use assms(4) in auto)
  have "unsent (front_rw pf r w)" "db_ok (db (front_world r w))" "paired (db (front_world r w))"
    "header_get (rq_header (front_request pf r w)) headerName = k" "keys (front_world r w) k \<noteq> None"
    using assms(2,3) k False by simp_all
  from run this show ?thesis
  proof (cases rule: Require_taken_answers)
    case (replayed body h oid)
    then show ?thesis using out(1,2) by (auto simp: on_record_def rs_body_finish)
  next
    case busy
    then show ?thesis using out(2) assms(5) by (simp add: accepts_order_def)
  next
    case (refused code bd)
    from answered_simps(3) obtain hdr where
      "rw_sent (answered code bd (front_rw pf r w)) = Some (code, hdr)" by blast
    with refused out(3) assms(5) show ?thesis by (simp add: accepts_order_def)
  next
    case (panicked p)
    then show ?thesis using out(4) assms(5) by (simp add: accepts_order_def)
  qed
qed

lemma empty_key_rejected:
  assumes "orders_under [] r" and "serve (order_service pf metrics) r w = (Some resp, w')"
  shows "rs_status resp = 400"
proof -
  from assms(1) have k: "header_get (rq_header (front_request pf r w)) headerName = []" by (simp add: orders_under_def)
  obtain q b w1 where run: "Require pf (Create (service_execute pf)) (front_request pf r w)
      (front_rw pf r w) (front_world r w) = (q, b, w1)" and "q = Ok () \<Longrightarrow> resp = finish (pop_layer b)"
    by (rule post_orders_served [OF assms(1), of pf w metrics]) (use assms(2) in auto)
  then show ?thesis by (cases rule: Require_run [OF run front_simps(10)]) (use k in auto)
qed

text \<open>A request under a completed key, with the hash on record and under any faults.\<close>

lemma completed_key_replayed:
  assumes "orders_under k r" and "k \<noteq> []" and "db_ok (db w)" and "paired (db w)"
    and "keys w k = Some (Done h oid 202 rb)" and "read_body r = Some body" and "Hash pf body = Ok h"
  shows "\<exists>resp w'. serve (order_service pf metrics) r w = (Some resp, w') \<and> db w' = db w \<and>
    (rs_status resp = 202 \<and> rs_body resp = rb \<and> header_get (rs_header resp) ''Idempotent-Replay'' = ''true'' \<or>
     \<not> calm w \<and> rs_status resp = 500)"
proof -
  let ?r = "front_request pf r w" and ?b = "front_rw pf r w" and ?w = "front_world r w"
  have k: "header_get (rq_header ?r) headerName = k" "keys ?w k = Some (Done h oid 202 rb)" "db_ok (db ?w)"
    using assms(1,3,5) by (simp_all add: orders_under_def)
  obtain q b w1 resp w' where run: "Require pf (Create (service_execute pf)) ?r ?b ?w = (q, b, w1)"
    and out: "serve (order_service pf metrics) r w = (Some resp, w')" "db w' = db w1"
      "q = Ok () \<Longrightarrow> resp = finish (pop_layer b)" "rw_sent b \<noteq> None \<Longrightarrow> rs_status resp = fst (the (rw_sent b))"
      "q \<noteq> Ok () \<Longrightarrow> unsent b \<Longrightarrow> rs_status resp = 500"
    by (rule post_orders_served [OF assms(1), of pf w metrics]) (rule that; blast)
  have taken: "db w1 = db w" if "Claim k h' ?w = (x, w1)" for h' x
    using that by (rule Claim_cases) (use k(2) in auto)
  from run front_simps(10) show ?thesis
  proof (cases rule: Require_run)
    case (rejected body')
    then show ?thesis using assms(2,6,7) k(1) by auto
  next
    case (unclaimed body' h' x bd)
    obtain row where "find_row k_key k (idempotency_keys (db ?w)) = Some row" using k(2) by (auto simp: key_store_Done)
    from Claim_calm_taken [OF _ this, of h'] unclaimed(4,5) k(1) have "\<not> calm ?w" by auto
    then have "\<not> calm w" by (simp add: calm_def)
    moreover have "rs_status resp = 500" using unclaimed(6) out(3,5) by auto
    ultimately show ?thesis using out(1,2) taken [of h' x] unclaimed(4) k(1) by auto
  next
    case (replayed body' h' rec)
    have "rec_status_code rec = 202" "rec_response_body rec = rb"
      using Claim_replays [of k h' ?w rec w1] replayed(4) k(1,2) by simp_all
    with write_replay_unsent [of ?b rec] replayed(5) accepted_code have "q = Ok ()" and
        "rs_status (finish (pop_layer b)) = 202" "rs_body (finish (pop_layer b)) = rb"
        "header_get (rs_header (finish (pop_layer b))) ''Idempotent-Replay'' = ''true''"
      by (auto simp: finish_def pop_layer_def answered_def set_header_def Let_def)
    with out(1-3) taken [of h' "Ok (OutcomeReplay, rec)"] replayed(4) k(1) show ?thesis by auto
  next
    case (busy body' h' rec)
    then show ?thesis using Claim_decides [OF busy(4) k(3)] k assms(6,7) by (auto simp: spec_claim_def)
  next
    case (reused body' h' rec bd)
    then show ?thesis using Claim_decides [OF reused(4) k(3)] k assms(6,7) by (auto simp: spec_claim_def)
  next
    case (owned body' h' rec w2)
    then show ?thesis using Claim_decides [OF owned(4) k(3)] k assms(6,7) by (auto simp: spec_claim_def)
  qed
qed

lemma on_record_steps:
  "db_steps pf d d' \<Longrightarrow> db_ok d \<Longrightarrow> on_record pf d k r resp \<Longrightarrow> on_record pf d' k r resp"
  unfolding on_record_def using db_steps_done by blast

text \<open>Every acceptance of a conversation is on record when it ends.\<close>

lemma answers_on_record:
  assumes "\<And>r b w. db (snd (snd (metrics r b w))) = db w"
    and "work pf metrics opts acts w = (q, w')" and "db_ok (db w)" and "paired (db w)"
    and "(r, Some resp) \<in> set (answers pf metrics opts acts w)" and "orders_under k r" and "accepts_order resp"
  shows "on_record pf (db w') k r resp"
  using assms(2-5)
proof (induction acts arbitrary: w)
  case (Cons a acts)
  show ?case
  proof (cases a)
    case (Incoming t x)
    obtain y w1 where y: "serve (order_service pf metrics) x (w\<lparr>clock := t\<rparr>) = (y, w1)" by (metis prod.exhaust)
    have "db_steps pf (db w) (db w1)"
      using serve_steps [of metrics "w\<lparr>clock := t\<rparr>" pf x, OF assms(1)] Cons.prems(2) y by simp
    from db_steps_invariant [OF this Cons.prems(2,3)] have inv: "db_ok (db w1)" "paired (db w1)" by simp_all
    have rest: "work pf metrics opts acts w1 = (q, w')" using Cons.prems(1) Incoming y by simp
    show ?thesis
    proof (cases "(r, Some resp) = (x, y)")
      case True
      with accepted_on_record [OF assms(6) _ _ _ assms(7), of "w\<lparr>clock := t\<rparr>" pf metrics w1] y Cons.prems(2,3)
      have "on_record pf (db w1) k r resp" by simp
      with work_steps [OF assms(1) rest inv(1)] inv(1) show ?thesis by (rule on_record_steps)
    next
      case False
      with Cons.prems(4) Incoming y Cons.IH [OF rest inv] show ?thesis by auto
    qed
  next
    case (Tick t locked)
    obtain x w1 where x: "Run pf opts LogSink locked [t] (w\<lparr>cancelled := False\<rparr>) = (x, w1)"
      by (metis prod.exhaust)
    have "db_steps pf (db w) (db w1)" using Run_steps [OF log_sink.sink_axioms x] Cons.prems(2) by simp
    from db_steps_invariant [OF this Cons.prems(2,3)] have inv: "db_ok (db w1)" "paired (db w1)" by simp_all
    show ?thesis
      using Cons.prems(1,4) Tick x Cons.IH [OF _ inv] by (auto split: go.splits if_splits)
  qed
qed simp

lemma lives_on_record:
  assumes "\<And>r b w. db (snd (snd (metrics r b w))) = db w"
    and "lives pf metrics opts actss w = (conversation, w')" and "db_ok (db w)" and "paired (db w)"
  shows "db_steps pf (db w) (db w') \<and>
    (\<forall>r resp k. (r, Some resp) \<in> set conversation \<longrightarrow> orders_under k r \<longrightarrow> accepts_order resp \<longrightarrow>
       on_record pf (db w') k r resp)"
  using assms(2-4)
proof (induction actss arbitrary: w conversation)
  case (Cons acts actss)
  obtain q w1 where q: "work pf metrics opts acts w = (q, w1)" by (metis prod.exhaust)
  obtain cs where cs: "lives pf metrics opts actss w1 = (cs, w')" "conversation = answers pf metrics opts acts w @ cs"
    using Cons.prems(1) q by (auto simp: Let_def split: prod.splits)
  note steps = work_steps [OF assms(1) q Cons.prems(2)]
  from db_steps_invariant [OF steps Cons.prems(2,3)] have inv: "db_ok (db w1)" "paired (db w1)" by simp_all
  note rest = Cons.IH [OF cs(1) inv]
  have "on_record pf (db w') k r resp"
    if "(r, Some resp) \<in> set (answers pf metrics opts acts w)" "orders_under k r" "accepts_order resp" for r resp k
    using on_record_steps [OF conjunct1 [OF rest] inv(1)] answers_on_record [OF assms(1) q Cons.prems(2,3) that] .
  with rest cs(2) rtranclp_trans [OF steps conjunct1 [OF rest]] show ?case by auto
qed simp

text \<open>The order an acceptance names exists once, and so does its event.\<close>

lemma on_record_once:
  assumes "on_record pf d k r resp" and "db_ok d" and "paired d"
  obtains body h oid where "read_body r = Some body" and "Hash pf body = Ok h" and "rs_body resp = accepted_body oid"
    and "key_store_of d k = Some (Done h oid 202 (accepted_body oid))"
    and "count_list (map or_id (orders d)) oid = 1"
    and "count_list (map ev_aggregate_id (outbox_events d)) oid = 1"
proof -
  obtain body h oid where rec: "read_body r = Some body" "Hash pf body = Ok h" "rs_body resp = accepted_body oid"
      "key_store_of d k = Some (Done h oid 202 (accepted_body oid))"
    using assms(1) unfolding on_record_def by blast
  from that [OF this] done_order_once [OF rec(4) assms(2,3)] show thesis by blast
qed

text \<open>A 202 of \<open>POST /orders\<close> that accepts nothing is the one for a claim still being worked on.\<close>

lemma processing_answer:
  assumes "orders_under k r" and "db_ok (db w)" and "paired (db w)"
    and "serve (order_service pf metrics) r w = (Some resp, w')" and "rs_status resp = 202"
    and "rs_body resp = processing_body"
  shows "(\<exists>h. keys w k = Some (Claimed h)) \<and> db w' = db w"
proof -
  let ?r = "front_request pf r w" and ?b = "front_rw pf r w" and ?w = "front_world r w"
  have k: "header_get (rq_header ?r) headerName = k" "db_ok (db ?w)" "paired (db ?w)"
    using assms(1-3) by (simp_all add: orders_under_def)
  obtain q b w1 where run: "Require pf (Create (service_execute pf)) ?r ?b ?w = (q, b, w1)"
    and out: "db w' = db w1" "q = Ok () \<Longrightarrow> resp = finish (pop_layer b)"
      "rw_sent b \<noteq> None \<Longrightarrow> rs_status resp = fst (the (rw_sent b))"
      "q \<noteq> Ok () \<Longrightarrow> unsent b \<Longrightarrow> rs_status resp = 500"
    by (rule post_orders_served [OF assms(1), of pf w metrics]) (use assms(4) in auto)
  show ?thesis
  proof (cases "keys w k = None")
    case True
    obtain oid where "rs_body resp = accepted_body oid"
      by (rule post_orders_accepted [OF _ _ assms(2) _ True assms(4,5)])
         (use assms(1) in \<open>auto simp: orders_under_def\<close>)
    with assms(6) accepted_not_processing show ?thesis by metis
  next
    case False
    from run front_simps(10) show ?thesis
    proof (cases rule: Require_run)
      case (busy body h rec)
      with Claim_decides [OF busy(4) k(2)] Claim_cases [OF busy(4)] k(1) False out(1) show ?thesis
        by (fastforce simp: spec_claim_def split: option.splits key_state.splits if_splits)
    next
      case (replayed body h rec)
      with replay_paired [OF replayed(4) k(3)] write_replay_unsent [of ?b rec] accepted_code
      have "q = Ok ()" "rw_body b = accepted_body (rec_resource_id rec)"
        by (simp_all add: answered_def set_header_def Let_def)
      with out(2) assms(6) accepted_not_processing show ?thesis by (auto simp: rs_body_finish)
    next
      case (owned body h rec w2)
      with Claim_decides [OF owned(4) k(2)] k(1) False show ?thesis
        by (auto simp: spec_claim_def split: option.splits key_state.splits if_splits)
    qed (use out assms(5) in auto)
  qed
qed

text \<open>C7: a retried order gets the first answer.  On a database that keeps its invariant, after an answer to \<open>POST /orders\<close> that accepts an order (a
  202 that is not the "processing" of a request still being worked on), given under any faults,
  and whatever requests and drains the database has seen since, a request with the same key and a
  body with the same hash leaves the database as it is, and is answered with status 202 and the very bytes
  of the first answer, marked as a replay; a driver that fails or a client that is gone can only turn
  that answer into a 500.\<close>

theorem retry_gets_the_same_answer:
  assumes "orders_under k r" and "db_ok (db w)" and "paired (db w)"
    and "serve (order_service pf metrics) r w = (Some resp, w1)" and "accepts_order resp"
    and "db_steps pf (db w1) (db w2)" and "orders_under k r'"
    and "map_option (Hash pf) (read_body r') = map_option (Hash pf) (read_body r)"
  shows "\<exists>resp' w3. serve (order_service pf metrics) r' w2 = (Some resp', w3) \<and> db w3 = db w2 \<and>
    (rs_status resp' = 202 \<and> rs_body resp' = rs_body resp \<and>
       header_get (rs_header resp') ''Idempotent-Replay'' = ''true'' \<or>
     \<not> calm w2 \<and> rs_status resp' = 500)"
proof -
  have key: "k \<noteq> []" using empty_key_rejected [of r pf metrics w resp w1] assms(1,4,5) by (auto simp: accepts_order_def)
  have inv: "db_ok (db w1)" "paired (db w1)" using post_orders_invariant [OF assms(1-4)] by simp_all
  from accepted_on_record [OF assms(1-5)] obtain body h oid where
    first: "read_body r = Some body" "Hash pf body = Ok h" "rs_body resp = accepted_body oid"
      "key_store_of (db w1) k = Some (Done h oid 202 (accepted_body oid))" by (auto simp: on_record_def)
  obtain body' where "read_body r' = Some body'" "Hash pf body' = Ok h"
    using assms(8) first(1,2) by (cases "read_body r'") auto
  with completed_key_replayed [OF assms(7) key, of w2] db_steps_done [OF assms(6) inv(1) first(4)]
    db_steps_invariant [OF assms(6) inv] first(3) show ?thesis by auto
qed

text \<open>C8: what a 202 means.  On a database that keeps its invariant and under any faults, when the client of \<open>POST /orders\<close> gets a 202, either it is the
  "processing" answer for a key another request has claimed and not completed, and nothing was changed,
  or the answer names an order: the order is in the database exactly once, so is its event, and the key
  holds the hash of the request with exactly the status and the bytes the client received, to be replayed.\<close>

theorem accepted_response_is_durable:
  assumes "orders_under k r" and "db_ok (db w)" and "paired (db w)"
    and "serve (order_service pf metrics) r w = (Some resp, w')" and "rs_status resp = 202"
  shows "(rs_body resp = processing_body \<and> (\<exists>h. keys w k = Some (Claimed h)) \<and> db w' = db w) \<or>
    (\<exists>body h oid. read_body r = Some body \<and> Hash pf body = Ok h \<and> rs_body resp = accepted_body oid \<and>
       keys w' k = Some (Done h oid 202 (rs_body resp)) \<and>
       count_list (map or_id (orders (db w'))) oid = 1 \<and>
       count_list (map ev_aggregate_id (outbox_events (db w'))) oid = 1)"
proof (cases "rs_body resp = processing_body")
  case True
  with processing_answer [OF assms] show ?thesis by blast
next
  case False
  with assms(5) have "accepts_order resp" by (simp add: accepts_order_def)
  from accepted_on_record [OF assms(1-4) this] post_orders_invariant [OF assms(1-4)] show ?thesis
    by (elim conjE on_record_once) auto
qed

text \<open>C3: one key, one order, whatever clients do.  Over any lives of the process on one database, with any requests of
  any number of clients, publisher ticks in between and any faults: two answers that accept an order under
  the same idempotency key carry the same bytes, were given to bodies with the same hash, and name one
  order that exists exactly once in the end, with exactly one event.  Retrying, however often, after lost
  connections and across restarts, never buys twice.\<close>

theorem one_order_per_key_for_clients:
  assumes "\<And>r b w. db (snd (snd (metrics r b w))) = db w"
    and "db_ok (db w)" and "paired (db w)" and "lives pf metrics opts actss w = (conversation, w')"
    and "(r1, Some resp1) \<in> set conversation" and "(r2, Some resp2) \<in> set conversation"
    and "orders_under k r1" and "orders_under k r2" and "accepts_order resp1" and "accepts_order resp2"
  shows "rs_body resp1 = rs_body resp2 \<and>
    map_option (Hash pf) (read_body r1) = map_option (Hash pf) (read_body r2) \<and>
    (\<exists>oid. rs_body resp1 = accepted_body oid \<and>
       count_list (map or_id (orders (db w'))) oid = 1 \<and>
       count_list (map ev_aggregate_id (outbox_events (db w'))) oid = 1)"
proof -
  note records = lives_on_record [OF assms(1,4,2,3)]
  have inv: "db_ok (db w')" "paired (db w')"
    using db_steps_invariant [OF conjunct1 [OF records] assms(2,3)] by simp_all
  have 1: "on_record pf (db w') k r1 resp1" and 2: "on_record pf (db w') k r2 resp2"
    using records assms(5-10) by blast+
  show ?thesis
    by (rule on_record_once [OF 1 inv], rule on_record_once [OF 2 inv]) auto
qed

definition sample_visits :: "activity list" where
  "sample_visits = [Incoming (clock sample_world) sample_create, Incoming 2000 sample_create]"

lemma sample_visits_accepted:
  obtains resp1 resp2 where "answers sample_platform Health sample_options sample_visits sample_world =
      [(sample_create, Some resp1), (sample_create, Some resp2)]" and "accepts_order resp1" and "accepts_order resp2"
proof (rule first_run_facts)
  fix resp1 w
  assume run: "serve (order_service sample_platform Health) sample_create sample_world = (Some resp1, w)"
    and st: "rs_status resp1 = 202" and "calm w"
  then obtain body h oid where first: "read_body sample_create = Some body" "Hash sample_platform body = Ok h"
      "keys w ''k1'' = Some (Done h oid 202 (rs_body resp1))" "rs_body resp1 = accepted_body oid"
    using post_orders_accepted [OF sample_create_facts(1,2) sample_db_ok sample_create_facts(3,4) run st] by metis
  have "calm (w\<lparr>clock := 2000\<rparr>)" using \<open>calm w\<close> by (simp add: calm_def)
  from replay_served [OF sample_create_facts(1,2) this sample_create_facts(3) _ first(1,2), of oid "accepted_body oid" Health]
    first(3,4)
  obtain resp2 w2 where "serve (order_service sample_platform Health) sample_create (w\<lparr>clock := 2000\<rparr>) = (Some resp2, w2)"
      "rs_status resp2 = 202" "rs_body resp2 = accepted_body oid" by auto
  with run st first(4) that [of resp1 resp2] show thesis
    by (simp add: sample_visits_def accepts_order_def accepted_not_processing)
qed

theorem one_order_per_key_for_clients_witness:
  "\<exists>resp1 resp2. fst (lives sample_platform Health sample_options [sample_visits] sample_world) =
     [(sample_create, Some resp1), (sample_create, Some resp2)] \<and> rs_body resp1 = rs_body resp2"
proof -
  obtain resp1 resp2 where a: "answers sample_platform Health sample_options sample_visits sample_world =
      [(sample_create, Some resp1), (sample_create, Some resp2)]" "accepts_order resp1" "accepts_order resp2"
    by (rule sample_visits_accepted)
  then have all: "fst (lives sample_platform Health sample_options [sample_visits] sample_world) =
      [(sample_create, Some resp1), (sample_create, Some resp2)]" by simp
  have "db (snd (snd (Health r b w))) = db w" for r b w by (simp add: Health_def split: prod.split)
  moreover have "paired (db sample_world)" using paired_empty by (simp add: sample_world_def)
  moreover have "orders_under ''k1'' sample_create" using sample_create_facts by (simp add: orders_under_def)
  ultimately have "rs_body resp1 = rs_body resp2"
    using one_order_per_key_for_clients [OF _ sample_db_ok _ prod.collapse [symmetric], of Health sample_create resp1
        sample_platform sample_options "[sample_visits]" sample_create resp2 "''k1''"] a(2,3) unfolding all by simp
  with all show ?thesis by blast
qed

text \<open>The first run of the sample order, and its retry.\<close>

lemma first_run_accepts:
  obtains resp w where "serve (order_service sample_platform Health) sample_create sample_world = (Some resp, w)"
    and "rs_status resp = 202" and "rs_body resp \<noteq> processing_body" and "calm w"
    and "orders_under ''k1'' sample_create" and "paired (db sample_world)"
proof (rule first_run_facts)
  fix resp w
  assume run: "serve (order_service sample_platform Health) sample_create sample_world = (Some resp, w)"
    "rs_status resp = 202" "calm w"
  obtain oid where "rs_body resp = accepted_body oid"
    using post_orders_accepted [OF sample_create_facts(1,2) sample_db_ok sample_create_facts(3,4) run(1,2)] by metis
  with accepted_not_processing have "rs_body resp \<noteq> processing_body" by simp
  moreover have "orders_under ''k1'' sample_create" using sample_create_facts by (simp add: orders_under_def)
  moreover have "paired (db sample_world)" using paired_empty by (simp add: sample_world_def)
  ultimately show thesis using that run by blast
qed

theorem retry_gets_the_same_answer_witness:
  "\<exists>resp w1 resp' w3.
     serve (order_service sample_platform Health) sample_create sample_world = (Some resp, w1) \<and>
     serve (order_service sample_platform Health) sample_create w1 = (Some resp', w3) \<and>
     rs_body resp' = rs_body resp \<and> db w3 = db w1"
proof (rule first_run_accepts)
  fix resp w1
  assume run: "serve (order_service sample_platform Health) sample_create sample_world = (Some resp, w1)"
    and st: "rs_status resp = 202" "rs_body resp \<noteq> processing_body" and calm: "calm w1"
    and known: "orders_under ''k1'' sample_create" "paired (db sample_world)"
  have "accepts_order resp" using st by (simp add: accepts_order_def)
  from retry_gets_the_same_answer [OF known(1) sample_db_ok known(2) run this rtranclp.rtrancl_refl known(1) refl]
    run calm show ?thesis by auto
qed

theorem accepted_response_is_durable_witness:
  "\<exists>resp w'. serve (order_service sample_platform Health) sample_create sample_world = (Some resp, w') \<and>
    (\<exists>h oid. keys w' ''k1'' = Some (Done h oid 202 (rs_body resp)) \<and>
       count_list (map or_id (orders (db w'))) oid = 1)"
proof (rule first_run_accepts)
  fix resp w
  assume run: "serve (order_service sample_platform Health) sample_create sample_world = (Some resp, w)"
    and st: "rs_status resp = 202" "rs_body resp \<noteq> processing_body"
    and known: "orders_under ''k1'' sample_create" "paired (db sample_world)"
  from accepted_response_is_durable [OF known(1) sample_db_ok known(2) run st(1)] st(2) run show ?thesis by blast
qed

end
