(* ===== verification/Request_Paths.thy ===== *)
theory Request_Paths
  imports Concurrent_Requests Client_Trace
begin

text \<open>
  The requests of the program and the relation \<open>service_step\<close>.  Every run of \<open>POST /orders\<close> through the whole
  service, under any faults of the driver, is a path of the relation that ends with the answer the client
  gets; so what is proved of all paths, of any requests and publishers interleaved, is about the program.
  The theory ends with what concurrent clients are promised.
\<close>

section \<open>The program's requests are among them\<close>

lemma with_table_simps [simp]:
  "with_table d (with_table d' y) = with_table d y" "with_table (table y) y = y"
  "moves_on (moves_on s y i x) y' i x' = moves_on s y' i x'"
  by (simp_all add: with_table_def moves_on_def)

lemma same_table: "sv_table s = d \<Longrightarrow> with_table d (sv_system s) = sv_system s"
  by (auto simp: with_table_def)

lemma claim_path:
  assumes "sv_stages s i = Arrived" and "ks i \<noteq> []" and "sql_claim now (ks i) (hs i) (sv_table s) = Inr (Some k, d)"
    and "x \<in> {Handling, Told Refused}"
  shows "service_steps pf opts ks hs s (moves_on s (with_table d (sv_system s)) i x)"
  using assms by (intro r_into_rtranclp claim_won)

lemma refused_path:
  "sv_stages s i = Arrived \<Longrightarrow> service_steps pf opts ks hs s (moves_on s (sv_system s) i (Told Refused))"
  by (intro r_into_rtranclp failed_early) simp

lemma taken_path:
  assumes "sv_stages s i = Arrived"
    and "find_row k_key (ks i) (idempotency_keys (sv_table s)) = Some row"
  shows "service_steps pf opts ks hs s (moves_on s (sv_system s) i (Told (taken_answer (hs i) (record_of row))))"
proof -
  let ?s = "moves_on s (sv_system s) i Looking"
  have "service_step pf opts ks hs s ?s" by (rule claim_lost [of s i 0 ks hs]) (use assms in \<open>simp_all add: sql_claim_def\<close>)
  moreover have "sql_get_key (ks i) (sv_table ?s) = Inr (Some (record_of row), sv_table s)"
    using assms(2) by (simp add: sql_get_key_def)
  from looked [of ?s i ks "record_of row" "sv_table s" pf opts hs, OF _ this] have
    "service_step pf opts ks hs ?s (moves_on s (sv_system s) i (Told (taken_answer (hs i) (record_of row))))" by simp
  ultimately show ?thesis by (rule converse_rtranclp_into_rtranclp [OF _ r_into_rtranclp])
qed

lemma writes_path:
  assumes "(write_step pf i)\<^sup>*\<^sup>* y y'"
  shows "service_steps pf opts ks hs (moves_on s y i Creating) (moves_on s y' i Creating)"
  using assms
proof (induction rule: rtranclp_induct)
  case (step y1 y2)
  from step.hyps(2) obtain c x rest v where
    w: "sy_creations y1 i = Some c" "cn_todo c = x # rest" "\<not> must_wait y1 i x"
       "run_write pf (cn_now c) x (view c (table y1)) = Some v"
       "y2 = with_creation i (Some (after_write (table y1) x v c)) y1"
    unfolding write_step_def by blast
  have "service_step pf opts ks hs (moves_on s y1 i Creating) (moves_on s y2 i Creating)"
    using handler_writes [of "moves_on s y1 i Creating" i c x rest pf v opts ks hs] w by simp
  with step.IH show ?case by (rule rtranclp.rtrancl_into_rtrancl)
qed simp

lemma writes_keep_order:
  "(write_step pf p)\<^sup>*\<^sup>* y y' \<Longrightarrow> sy_creations y p = Some c \<Longrightarrow>
     \<exists>c'. sy_creations y' p = Some c' \<and> cn_order c' = cn_order c"
  by (induction rule: rtranclp_induct) (auto simp: write_step_def after_write_def)

text \<open>A handler that stores an order, undisturbed.\<close>

lemma creation_path:
  assumes "sv_stages s i = Handling" and "sy_creations (sv_system s) = (\<lambda>_. None)" and "ks i \<noteq> []"
    and "db_ok (sv_table s)" and "o_status ord = StatusPending"
    and "run_writes pf now (writes_of ord [created_event ord eid] (completion_for (ks i) ord)) (sv_table s) = Some d"
    and "x \<in> {Told (Accepted (accepted_body (o_id ord))), Failing}"
  shows "service_steps pf opts ks hs s (moves_on s (with_table d (sv_system s)) i x)"
proof -
  let ?c = "new_creation now ord eid (ks i)"
  let ?y = "with_creation i (Some ?c) (sv_system s)"
  have "service_step pf opts ks hs s (moves_on s ?y i Creating)"
    by (rule handler_begins) (use assms(1,2,5) in simp_all)
  moreover have "\<exists>c'. (write_step pf i)\<^sup>*\<^sup>* ?y (with_creation i (Some c') ?y) \<and> cn_todo c' = [] \<and> view c' (table ?y) = d"
  proof (rule creation_alone)
    show "sy_creations ?y = (\<lambda>_. None)(i := Some ?c)" using assms(2) by simp
    show "creation_sound pf (table ?y) ?c" using new_creation_sound [OF assms(3,5,4)] by simp
    show "db_ok (table ?y)" using assms(4) by simp
    have "view ?c (sv_table s) = sv_table s" by (simp add: view_def new_creation_def)
    with assms(6) show "run_writes pf (cn_now ?c) (cn_todo ?c) (view ?c (table ?y)) = Some d"
      by (simp add: new_creation_def)
  qed
  then obtain c' where c': "(write_step pf i)\<^sup>*\<^sup>* ?y (with_creation i (Some c') ?y)" "cn_todo c' = []"
      "view c' (sv_table s) = d" by auto
  have "cn_order c' = ord" using writes_keep_order [OF c'(1)] by (simp add: new_creation_def)
  let ?s' = "moves_on s (with_creation i (Some c') ?y) i Creating"
  note writes_path [OF c'(1), of opts ks hs s]
  moreover have "with_creation i None (with_creation i (Some c') ?y) = sv_system s"
    using assms(2) by (simp add: with_creation_def fun_upd_def [symmetric])
  then have "service_step pf opts ks hs ?s' (moves_on s (with_table d (sv_system s)) i x)"
    using handler_commits [of ?s' i c' x pf opts ks hs] c'(2,3) \<open>cn_order c' = ord\<close> assms(7) by simp
  ultimately show ?thesis
    by (meson converse_rtranclp_into_rtranclp rtranclp.rtrancl_into_rtrancl)
qed

lemma created_path:
  assumes "sv_stages s i = Handling" and "sy_creations (sv_system s) = (\<lambda>_. None)" and "ks i \<noteq> []"
    and "db_ok (sv_table s)" and "created_order pf now (ks i) ord (sv_table s) d"
    and "x \<in> {Told (Accepted (accepted_body (o_id ord))), Failing}"
  shows "service_steps pf opts ks hs s (moves_on s (with_table d (sv_system s)) i x)"
proof -
  obtain eid where eid: "stored pf now ord [created_event ord eid] (completion_for (ks i) ord) (sv_table s) d"
      and pending: "o_status ord = StatusPending" "db_ok d"
    using assms(5) by (auto simp: created_order_def)
  have "run_writes pf now (writes_of ord [created_event ord eid] (completion_for (ks i) ord)) (sv_table s) = Some d"
    by (rule stored_runs [OF eid assms(4) pending(2)]) (auto simp: completion_for_def fits_int4_def split: if_splits)
  from creation_path [where ks = ks, OF assms(1-4) pending(1) this assms(6)] show ?thesis .
qed

lemma release_path:
  assumes "sv_stages s i = Failing" and "sy_creations (sv_system s) = (\<lambda>_. None)" and "Release (ks i) w = (x, w')"
    and "db w = sv_table s"
  shows "service_steps pf opts ks hs s (moves_on s (with_table (db w') (sv_system s)) i (Told Refused))"
  using assms(3)
proof (cases rule: Release_cases)
  case released
  have "\<not> locked_by_other (sv_system s) None (ks i)" using assms(2) by (simp add: locked_by_other_def)
  with released assms(1,4) show ?thesis by (intro r_into_rtranclp releases) simp_all
next
  case failed
  with release_fails [of s i pf opts ks hs] assms(1,4) show ?thesis by auto
qed


text \<open>What an answer of the model is on the wire.\<close>

fun gives :: "answer \<Rightarrow> rw \<Rightarrow> unit go \<Rightarrow> rw \<Rightarrow> bool" where
  "gives (Accepted body) b q b' \<longleftrightarrow> q = Ok () \<and> b' = answered 202 body b"
| "gives (Replayed code body) b q b' \<longleftrightarrow>
     q = Ok () \<and> (\<exists>hdr. rw_sent b' = Some (code, hdr)) \<and> rw_body b' = body"
| "gives StillProcessing b q b' \<longleftrightarrow> q = Ok () \<and> b' = answered 202 processing_body b"
| "gives KeyReused b q b' \<longleftrightarrow> q = Ok () \<and> (\<exists>body. b' = answered 409 body b)"
| "gives Refused b q b' \<longleftrightarrow>
     (\<exists>code body. b' = answered code body b \<and> code \<in> {400, 404, 422, 500}) \<or> (\<exists>p. q = Panic p \<and> b' = b)"

lemma taken_gives:
  assumes "Claim k h w = (Ok (oc, rec), w')" and "oc \<noteq> OutcomeOwned" and "sv_table s = db w"
    and "sv_stages s i = Arrived" and "ks i = k" and "hs i = h"
  shows "service_steps pf opts ks hs s (moves_on s (with_table (db w') (sv_system s)) i (Told (taken_answer h rec))) \<and>
    oc = decided h rec"
  using assms(1)
proof (cases rule: Claim_cases)
  case (existing oc' row)
  have same: "with_table (db w') (sv_system s) = sv_system s" using existing(2) assms(3) by (simp add: same_table)
  have "oc = decided h rec" "rec = record_of row" using existing by (auto simp: decided_def record_of_def)
  with taken_path [OF assms(4), of ks row pf opts hs] existing(3) assms(3,5,6) show ?thesis
    unfolding same by simp
qed (use assms(2) in simp_all)

text \<open>The owner's part, from a claimed key on.\<close>

lemma owned_path:
  assumes "run_owned Release (Create (service_execute pf)) (ks i) r b w = (q, b', w')" and "unsent b"
    and "db_ok (db w)" and "sv_table s = db w" and "sv_stages s i = Handling"
    and "sy_creations (sv_system s) = (\<lambda>_. None)" and "ks i \<noteq> []"
  shows "\<exists>a. service_steps pf opts ks hs s (moves_on s (with_table (db w') (sv_system s)) i (Told a)) \<and> gives a b q b'"
proof -
  let ?b = "push_layer (Capture 0) b"
  let ?r = "r\<lparr>rq_ctx := (rq_ctx r)\<lparr>cx_idempotency_key := Some (ks i)\<rparr>\<rparr>"
  obtain q2 b2 w2 where n: "Create (service_execute pf) ?r ?b w = (q2, b2, w2)" by (metis prod.exhaust)
  obtain x w3 where rel: "Release (ks i) w2 = (x, w3)" by (metis prod.exhaust)
  have fails: "service_steps pf opts ks hs s (moves_on s (with_table (db w3) (sv_system s)) i (Told Refused))"
    if "db w2 = db w \<or> (\<exists>ord. created_order pf (clock w) (ks i) ord (db w) (db w2))"
  proof -
    let ?s = "moves_on s (with_table (db w2) (sv_system s)) i Failing"
    have "service_steps pf opts ks hs s ?s"
      using that
    proof
      assume "db w2 = db w"
      then have "with_table (db w2) (sv_system s) = sv_system s"
        using assms(4) by (simp add: same_table)
      with handler_refuses [OF assms(5)] show ?thesis by auto
    next
      assume "\<exists>ord. created_order pf (clock w) (ks i) ord (db w) (db w2)"
      then obtain ord where "created_order pf (clock w) (ks i) ord (sv_table s) (db w2)" using assms(4) by auto
      from created_path [where ks = ks, OF assms(5,6,7) _ this] show ?thesis using assms(3,4) by simp
    qed
    moreover have "service_steps pf opts ks hs ?s (moves_on ?s (with_table (db w3) (sv_system ?s)) i (Told Refused))"
      by (rule release_path [where ks = ks, OF _ _ rel]) (use assms(6) in simp_all)
    ultimately show ?thesis by (simp add: rtranclp_trans)
  qed
  have fresh: "unsent ?b" and ctx: "cx_idempotency_key (rq_ctx ?r) = Some (ks i)" using assms(2) by simp_all
  from n fresh assms(3) ctx assms(7) show ?thesis
  proof (cases rule: Create_answers)
    case (accepted ord)
    then have "w' = w2" "q = Ok ()" "b' = answered 202 (accepted_body (o_id ord)) b"
      using assms(1) n by (auto simp: run_owned_def succeeded_def)
    with created_path [where ks = ks, OF assms(5,6,7) _ accepted(3) [folded assms(4)]] assms(3,4) show ?thesis
      by (intro exI [of _ "Accepted (accepted_body (o_id ord))"]) simp
  next
    case (refused code body)
    then have "w' = w3" "b' = answered code body b"
      using assms(1) n rel by (auto simp: run_owned_def succeeded_def split: go.splits)
    with fails [OF refused(4)] refused(3) show ?thesis by (intro exI [of _ Refused]) auto
  next
    case (panicked p)
    then have "w' = w3" "b' = b" "\<exists>p. q = Panic p"
      using assms(1) n rel by (auto simp: run_owned_def succeeded_def split: go.splits)
    with fails [OF panicked(3)] show ?thesis by (intro exI [of _ Refused]) auto
  qed
qed

lemma request_is_a_path:
  assumes "Require pf (Create (service_execute pf)) r b w = (q, b', w')" and "unsent b"
    and "db_ok (db w)" and "paired (db w)" and "sv_table s = db w"
    and "sv_stages s i = Arrived" and "sy_creations (sv_system s) = (\<lambda>_. None)"
    and "ks i = header_get (rq_header r) headerName"
    and "\<And>body h. read_body r = Some body \<Longrightarrow> Hash pf body = Ok h \<Longrightarrow> hs i = h"
  shows "\<exists>a. service_steps pf opts ks hs s (moves_on s (with_table (db w') (sv_system s)) i (Told a)) \<and> gives a b q b'"
  using assms(1,2)
proof (cases rule: Require_run)
  case (rejected body)
  with refused_path [OF assms(6)] assms(5) [symmetric] show ?thesis by (intro exI [of _ Refused]) auto
next
  case (unclaimed body h x bd)
  have "service_steps pf opts ks hs s (moves_on s (with_table (db w') (sv_system s)) i (Told Refused))"
    using unclaimed(4)
  proof (cases rule: Claim_cases)
    case failed
    then have "with_table (db w') (sv_system s) = sv_system s"
      using assms(5) by (simp add: same_table)
    with refused_path [OF assms(6)] show ?thesis by simp
  next
    case (stranded e)
    with claim_path [OF assms(6)] unclaimed(1) assms(5,8) assms(9) [OF unclaimed(2,3)] show ?thesis by auto
  qed (use unclaimed(5) in auto)
  with unclaimed(6) show ?thesis by (intro exI [of _ Refused]) auto
next
  case (replayed body h rec)
  note t = taken_gives [where ks = ks and hs = hs, OF replayed(4) _ assms(5,6,8) assms(9) [OF replayed(2,3)], of pf opts]
  with replayed(5) write_replay_unsent [of b rec] replay_paired [OF replayed(4) assms(4)] assms(2) accepted_code
  show ?thesis
    by (intro exI [of _ "Replayed (rec_status_code rec) (rec_response_body rec)"])
       (auto simp: taken_answer_def answered_def set_header_def Let_def)
next
  case (busy body h rec)
  note t = taken_gives [where ks = ks and hs = hs, OF busy(4) _ assms(5,6,8) assms(9) [OF busy(2,3)], of pf opts]
  with busy(5,6) show ?thesis by (intro exI [of _ StillProcessing]) (auto simp: taken_answer_def)
next
  case (reused body h rec bd)
  note t = taken_gives [where ks = ks and hs = hs, OF reused(4) _ assms(5,6,8) assms(9) [OF reused(2,3)], of pf opts]
  with reused(5,6) show ?thesis by (intro exI [of _ KeyReused]) (auto simp: taken_answer_def)
next
  case (owned body h rec w1)
  let ?s = "moves_on s (with_table (db w1) (sv_system s)) i Handling"
  from owned(4) have "\<exists>now k. sql_claim now (ks i) (hs i) (sv_table s) = Inr (Some k, db w1)"
    using assms(5,8) assms(9) [OF owned(2,3)] by (cases rule: Claim_cases) (auto split: if_splits)
  then have claim: "service_steps pf opts ks hs s ?s"
    using claim_path [OF assms(6)] owned(1) assms(8) by auto
  have "\<exists>a. service_steps pf opts ks hs ?s (moves_on ?s (with_table (db w') (sv_system ?s)) i (Told a)) \<and> gives a b q b'"
    by (rule owned_path [where ks = ks, OF owned(5) [folded assms(8)] assms(2) db_ok_Claim [OF owned(4) assms(3)]])
       (use assms(7,8) owned(1) in simp_all)
  with claim show ?thesis by (auto intro: rtranclp_trans)
qed


text \<open>What the client gets for it.\<close>

fun sent_as :: "answer \<Rightarrow> response \<Rightarrow> bool" where
  "sent_as (Accepted body) resp \<longleftrightarrow> rs_status resp = 202 \<and> rs_body resp = body"
| "sent_as (Replayed code body) resp \<longleftrightarrow> rs_status resp = code \<and> rs_body resp = body"
| "sent_as StillProcessing resp \<longleftrightarrow> rs_status resp = 202 \<and> rs_body resp = processing_body"
| "sent_as KeyReused resp \<longleftrightarrow> rs_status resp = 409"
| "sent_as Refused resp \<longleftrightarrow> rs_status resp \<in> {400, 404, 422, 500}"

text \<open>C6: the interleaved relation contains the program.  From any consistent database on which no transaction
  of a request is open, whatever the service answers to a \<open>POST /orders\<close>, under any faults of the driver, is
  the answer some path of \<open>service_step\<close> gives to that request, and the path leaves exactly the database the
  service leaves.  So the relation has the statements of the middleware, the handler and the store in their
  order, and no outcome of a request is missing from it.\<close>

theorem served_requests_are_paths:
  assumes "serve (order_service pf metrics) r w = (Some resp, w')" and "orders_under k r"
    and "db_ok (db w)" and "paired (db w)" and "sv_table s = db w"
    and "sv_stages s i = Arrived" and "sy_creations (sv_system s) = (\<lambda>_. None)" and "ks i = k"
    and "\<And>body h. read_body r = Some body \<Longrightarrow> Hash pf body = Ok h \<Longrightarrow> hs i = h"
  shows "\<exists>a. service_steps pf opts ks hs s (moves_on s (with_table (db w') (sv_system s)) i (Told a)) \<and>
    sent_as a resp"
proof -
  let ?b = "front_rw pf r w"
  obtain q b w1 where run: "Require pf (Create (service_execute pf)) (front_request pf r w) ?b (front_world r w) = (q, b, w1)"
    and out: "db w' = db w1" "q = Ok () \<Longrightarrow> resp = finish (pop_layer b)"
      "rw_sent b \<noteq> None \<Longrightarrow> rs_status resp = fst (the (rw_sent b))"
      "q \<noteq> Ok () \<Longrightarrow> unsent b \<Longrightarrow> rs_status resp = 500"
    by (rule post_orders_served [OF assms(2), of pf w metrics]) (use assms(1) in auto)
  have "\<exists>a. service_steps pf opts ks hs s (moves_on s (with_table (db w1) (sv_system s)) i (Told a)) \<and> gives a ?b q b"
    by (rule request_is_a_path [OF run]) (use assms(2-9) in \<open>simp_all add: orders_under_def\<close>)
  then obtain a where path: "service_steps pf opts ks hs s (moves_on s (with_table (db w') (sv_system s)) i (Told a))"
      and a: "gives a ?b q b" unfolding out(1) by blast
  have "sent_as a resp"
  proof (cases a)
    case (Replayed code body)
    with a out(2,3) show ?thesis by (auto simp: rs_body_finish)
  next
    case Refused
    with a consider code body where "b = answered code body ?b" "code \<in> {400, 404, 422, 500}"
      | p where "q = Panic p" "b = ?b" by auto
    then show ?thesis
    proof cases
      case 1
      obtain hdr where "rw_sent (answered code body ?b) = Some (code, hdr)" using answered_simps(3) by blast
      with 1 out(3) Refused show ?thesis by simp
    next
      case 2
      then show ?thesis using out(4) Refused by simp
    qed
  qed (use a out(2) in auto)
  with path show ?thesis by blast
qed

theorem served_requests_are_paths_witness:
  "\<exists>hs s a. service_steps sample_platform sample_options (\<lambda>_. ''k1'') hs (open_service (db sample_world)) s \<and>
     sv_stages s 0 = Told a \<and> order_answer a \<noteq> None"
proof (rule first_run_facts)
  fix resp w
  assume run: "serve (order_service sample_platform Health) sample_create sample_world = (Some resp, w)"
    and st: "rs_status resp = 202"
  then obtain body h oid where first: "read_body sample_create = Some body" "Hash sample_platform body = Ok h"
      "rs_body resp = accepted_body oid"
    using post_orders_accepted [OF sample_create_facts(1,2) sample_db_ok sample_create_facts(3,4) run st] by metis
  let ?s = "open_service (db sample_world)"
  have "paired (db sample_world)" "orders_under ''k1'' sample_create"
    using paired_empty sample_create_facts by (simp_all add: sample_world_def orders_under_def)
  note known = this
  have "\<exists>a. service_steps sample_platform sample_options (\<lambda>_. ''k1'') (\<lambda>_. h) ?s
      (moves_on ?s (with_table (db w) (sv_system ?s)) 0 (Told a)) \<and> sent_as a resp"
  proof (rule served_requests_are_paths [OF run known(2) sample_db_ok known(1)])
    show "sv_table ?s = db sample_world" "sv_stages ?s 0 = Arrived" "sy_creations (sv_system ?s) = (\<lambda>_. None)"
      by (simp_all add: open_service_def idle_system_def) (simp add: idle_fleet_def)
  qed (use first(1,2) in simp_all)
  then obtain a where a: "service_steps sample_platform sample_options (\<lambda>_. ''k1'') (\<lambda>_. h) ?s
      (moves_on ?s (with_table (db w) (sv_system ?s)) 0 (Told a))" "sent_as a resp" by blast
  then have "order_answer a \<noteq> None" using st first(3) accepted_not_processing by (cases a) auto
  with a(1) show ?thesis
    by (intro exI [of _ "\<lambda>_. h"] exI [of _ "moves_on ?s (with_table (db w) (sv_system ?s)) 0 (Told a)"] exI [of _ a]) simp
qed

lemma sample_order_completes:
  "case run_writes sample_platform 0 (writes_of sample_new_order [created_event sample_new_order ''e'']
     (completion_for ''k'' sample_new_order)) claimed_db of
     Some v \<Rightarrow> (case find_row k_key ''k'' (idempotency_keys v) of
       Some row \<Rightarrow> decided ''h'' (record_of row) = OutcomeReplay \<and> k_status_code row = 202
     | None \<Rightarrow> False)
   | None \<Rightarrow> False"
  by code_simp

text \<open>Two requests under one key, the second arriving while the first runs its handler.\<close>

lemma sample_race:
  obtains s body where "service_steps sample_platform sample_options (\<lambda>_. ''k'') (\<lambda>_. ''h'') (open_service empty_db) s"
    and "sv_stages s 0 = Told (Accepted (accepted_body ''ord_1''))" and "sv_stages s 1 = Told (Replayed 202 body)"
proof -
  let ?ks = "\<lambda>_. ''k''" and ?hs = "\<lambda>_. ''h''"
  let ?steps = "service_steps sample_platform sample_options ?ks ?hs"
  let ?s0 = "open_service empty_db"
  let ?s1 = "moves_on ?s0 (with_table claimed_db (sv_system ?s0)) 0 Handling"
  let ?s2 = "moves_on ?s1 (sv_system ?s1) 1 Looking"
  obtain v row where v: "run_writes sample_platform 0 (writes_of sample_new_order [created_event sample_new_order ''e'']
     (completion_for ''k'' sample_new_order)) claimed_db = Some v" "find_row k_key ''k'' (idempotency_keys v) = Some row"
     "decided ''h'' (record_of row) = OutcomeReplay" "k_status_code row = 202"
    using sample_order_completes by (auto split: option.splits)
  let ?s3 = "moves_on ?s2 (with_table v (sv_system ?s2)) 0 (Told (Accepted (accepted_body (o_id sample_new_order))))"
  have "sql_claim 0 ''k'' ''h'' (sv_table ?s0) = Inr (Some ''k'', claimed_db)"
    by (simp add: open_service_def sql_claim_def idle_system_def idle_fleet_def claimed_db_def empty_db_def)
  then have "?steps ?s0 ?s1" by (intro claim_path) (simp_all add: open_service_def)
  moreover have "?steps ?s1 ?s2"
    by (intro r_into_rtranclp claim_lost [of _ _ 0 _ _ claimed_db])
       (simp_all add: open_service_def sql_claim_def claimed_db_def new_key_row_def)
  moreover have "db_ok claimed_db" by code_simp
  then have "?steps ?s2 ?s3"
    by (intro creation_path [of _ _ _ sample_new_order _ 0 "''e''"])
       (use v(1) in \<open>simp_all add: open_service_def idle_system_def sample_new_order_def\<close>)
  moreover have "service_step sample_platform sample_options ?ks ?hs ?s3
      (moves_on ?s3 (sv_system ?s3) 1 (Told (taken_answer ''h'' (record_of row))))"
    by (intro looked [of _ _ _ _ v]) (use v(2) in \<open>simp_all add: sql_get_key_def\<close>)
  ultimately have "?steps ?s0 (moves_on ?s3 (sv_system ?s3) 1 (Told (taken_answer ''h'' (record_of row))))"
    by (meson rtranclp_trans rtranclp.rtrancl_into_rtrancl)
  from that [OF this] v(3,4) show thesis
    by (simp add: taken_answer_def record_of_def sample_new_order_def)
qed


section \<open>What concurrent clients are promised\<close>

text \<open>C4: concurrent requests are told one story.  Any number of requests run their statements on one database,
  interleaved in any way with each other and with publishers, any of them failing anywhere: two requests
  under the same key that are answered with an order, by the handler or from the store, are answered 202 with
  the same bytes, had bodies with the same hash, and the order they name exists exactly once, with exactly one
  event.\<close>

theorem concurrent_answers_agree:
  assumes "db_ok d" and "paired d" and "service_steps pf opts ks hs (open_service d) s"
    and "sv_stages s i = Told a" and "order_answer a = Some (code, body)"
    and "sv_stages s j = Told a'" and "order_answer a' = Some (code', body')" and "ks i = ks j"
  shows "code = 202 \<and> code' = 202 \<and> body = body' \<and> hs i = hs j \<and>
    (\<exists>oid. body = accepted_body oid \<and> count_list (map or_id (orders (sv_table s))) oid = 1 \<and>
       count_list (map ev_aggregate_id (outbox_events (sv_table s))) oid = 1)"
proof -
  have inv: "service_inv pf opts ks hs s" using service_steps_system [OF assms(3,1,2)] by blast
  note once = done_order_once [OF _ service_inv_db_ok [OF inv] service_inv_parts(5) [OF inv]]
  from service_inv_view [OF inv, of i] service_inv_view [OF inv, of j] assms(4-8) obtain oid where
    "code = 202" "code' = 202" "body = accepted_body oid" "body' = body" "hs i = hs j"
    "key_store_of (sv_table s) (ks i) = Some (Done (hs i) oid 202 body)"
    by (auto simp: request_view_def)
  with once [of "ks i" "hs i" oid 202 body] show ?thesis by blast
qed

theorem concurrent_answers_agree_witness:
  "\<exists>s. service_steps sample_platform sample_options (\<lambda>_. ''k'') (\<lambda>_. ''h'') (open_service empty_db) s \<and>
     sv_stages s 1 = Told (Replayed 202 (accepted_body ''ord_1''))"
proof (rule sample_race)
  fix s body
  assume s: "service_steps sample_platform sample_options (\<lambda>_. ''k'') (\<lambda>_. ''h'') (open_service empty_db) s"
    "sv_stages s 0 = Told (Accepted (accepted_body ''ord_1''))" "sv_stages s 1 = Told (Replayed 202 body)"
  from concurrent_answers_agree [OF db_ok_empty paired_empty s(1,2) _ s(3)] have "body = accepted_body ''ord_1''" by simp
  with s(1,3) show ?thesis by blast
qed

text \<open>C5: an accepted order is announced.  However requests and publishers interleave, once a client has been
  told of an order the outbox holds exactly one event for it, and the sink has accepted that event as often as
  transactions that had accepted it were rolled back, plus once if a transaction that accepted it is open,
  plus once if it is marked published.\<close>

theorem accepted_orders_are_announced:
  assumes "db_ok d" and "paired d" and "service_steps pf opts ks hs (open_service d) s"
    and "sv_stages s i = Told a" and "order_answer a = Some (code, body)"
  shows "\<exists>oid e. body = accepted_body oid \<and>
    filter (\<lambda>r. ev_aggregate_id r = oid) (outbox_events (sv_table s)) = [e] \<and>
    count_list (ft_delivered (sy_fleet (sv_system s))) (ev_id e) =
      count_list (ft_wasted (sy_fleet (sv_system s))) (ev_id e) +
      of_bool (in_flight (ft_open (sy_fleet (sv_system s))) (ev_id e)) +
      of_bool (published_in (sv_table s) (ev_id e) \<and> \<not> published_in d (ev_id e))"
proof -
  have inv: "service_inv pf opts ks hs s" and steps: "system_steps pf opts (idle_system d) (sv_system s)"
    using service_steps_system [OF assms(3,1,2)] by blast+
  from service_inv_view [OF inv, of i] assms(4,5) obtain oid where oid: "body = accepted_body oid"
    "key_store_of (sv_table s) (ks i) = Some (Done (hs i) oid 202 body)"
    by (auto simp: request_view_def)
  from done_order_once(2) [OF oid(2) service_inv_db_ok [OF inv] service_inv_parts(5) [OF inv]]
  have "length (filter (\<lambda>r. ev_aggregate_id r = oid) (outbox_events (sv_table s))) = 1"
    by (simp add: count_list_eq_length_filter filter_map comp_def eq_commute)
  then obtain e where e: "filter (\<lambda>r. ev_aggregate_id r = oid) (outbox_events (sv_table s)) = [e]"
    by (auto simp: length_Suc_conv)
  have "deliveries_balance d (sy_fleet (sv_system s))"
    using deliveries_balance_steps [OF _ assms(1)] system_steps_inv [OF steps assms(1)] by blast
  then show ?thesis using oid(1) e unfolding deliveries_balance_def by blast
qed


theorem accepted_orders_are_announced_witness:
  "\<exists>s oid e. service_steps sample_platform sample_options (\<lambda>_. ''k'') (\<lambda>_. ''h'') (open_service empty_db) s \<and>
     accepted_body ''ord_1'' = accepted_body oid \<and>
     filter (\<lambda>r. ev_aggregate_id r = oid) (outbox_events (sv_table s)) = [e]"
proof (rule sample_race)
  fix s body
  assume s: "service_steps sample_platform sample_options (\<lambda>_. ''k'') (\<lambda>_. ''h'') (open_service empty_db) s"
    "sv_stages s 0 = Told (Accepted (accepted_body ''ord_1''))"
  from accepted_orders_are_announced [OF db_ok_empty paired_empty this, of 202 "accepted_body ''ord_1''"] s(1)
  show ?thesis by auto
qed

end
