(* ===== verification/Postgres_Testing.thy ===== *)
theory Postgres_Testing
  imports Lifecycle
begin

text \<open>
  \<open>internal/postgres/testing.go\<close>: the helper that gives an integration test a throwaway Postgres.  The
  container library is part of the parameter \<open>ext\<close>; \<open>left\<close> says whether a \<open>Run\<close> that fails leaves a container
  behind, which testcontainers documents it may.
\<close>

section \<open>The helper\<close>

definition postgres_container :: container_options where
  "postgres_container =
    \<lparr>ct_image = ''postgres:18.6'', ct_database = ''orders'', ct_username = ''lab'', ct_password = ''lab'',
     ct_wait_log = ''database system is ready to accept connections'', ct_occurrence = 2,
     ct_startup_timeout = 60 * second\<rparr>"

text \<open>
  The functions given to \<open>t.Cleanup\<close>, the last one first: the order in which \<open>testing\<close> calls them when the
  test is over, be it by a return, a panic or \<open>t.Fatalf\<close>.
\<close>

datatype cleanup = Terminate | ClosePool

fun run_cleanup :: "external \<Rightarrow> cleanup \<Rightarrow> process \<Rightarrow> process" where
  "run_cleanup ext Terminate p =
    (case ext TerminateContainer of
       Some e \<Rightarrow> does [Logged ''terminate postgres: '' e] p
     | None \<Rightarrow> does [Closed Container] p)"
| "run_cleanup ext ClosePool p = does [Closed Pool] p"

text \<open>The result is the pool or, as \<open>Err\<close>, the text of \<open>t.Fatalf\<close>.\<close>

definition StartPostgres :: "external \<Rightarrow> bool \<Rightarrow> string \<Rightarrow> process \<Rightarrow> unit go \<times> cleanup list \<times> process" where
  "StartPostgres ext left dsn p =
    (case ext (RunContainer postgres_container) of
       Some e \<Rightarrow> (Err (Errorf (''start postgres: '' @ error_text e)), [],
                  if left then does [Opened Container] p else p)
     | None \<Rightarrow>
       (let p1 = does [Opened Container] p
        in case ext (ConnectionString [''sslmode=disable'']) of
             Some e \<Rightarrow> (Err (Errorf (''connection string: '' @ error_text e)), [Terminate], p1)
           | None \<Rightarrow>
             (case NewPool ext dsn p1 of
                (Err e, p2) \<Rightarrow> (Err (Errorf (''new pool: '' @ error_text e)), [Terminate], p2)
              | (Panic q, p2) \<Rightarrow> (Panic q, [Terminate], p2)
              | (Ok _, p2) \<Rightarrow> (Ok (), [ClosePool, Terminate], p2))))"

text \<open>A test that starts with the helper; \<open>body\<close> is the rest of it.\<close>

definition with_postgres :: "external \<Rightarrow> bool \<Rightarrow> string \<Rightarrow> (process \<Rightarrow> process) \<Rightarrow> process \<Rightarrow> process" where
  "with_postgres ext left dsn body p =
    (case StartPostgres ext left dsn p of
       (Ok _, cleanups, p1) \<Rightarrow> fold (run_cleanup ext) cleanups (body p1)
     | (_, cleanups, p1) \<Rightarrow> fold (run_cleanup ext) cleanups p1)"

section \<open>What a test leaves behind\<close>

text \<open>What the pool and the test itself do, once the container is up.\<close>

definition pool_session :: "external \<Rightarrow> string \<Rightarrow> effect list \<Rightarrow> effect list" where
  "pool_session ext dsn es =
    (if ext (ConnectionString [''sslmode=disable'']) \<noteq> None \<or> ext (ParseConfig dsn) \<noteq> None \<or>
        ext (NewWithConfig dsn) \<noteq> None then []
     else if ext Ping \<noteq> None then [Opened Pool, Closed Pool]
     else Opened Pool # Pinged # es @ [Closed Pool])"

text \<open>
  Once the container is up it is terminated exactly once, after the pool is closed, however the test goes;
  a termination that fails is logged.  But a container that \<open>Run\<close> leaves behind when it fails, say because
  the database is not ready within a minute, is never terminated: the clean-up is registered after the
  check of the error.
\<close>

theorem test_database_torn_down:
  assumes "\<And>q. pr_effects (body q) = pr_effects q @ es"
  shows "pr_effects (with_postgres ext left dsn body p) = pr_effects p @
    (if ext (RunContainer postgres_container) \<noteq> None then (if left then [Opened Container] else [])
     else Opened Container # pool_session ext dsn es @
       [case ext TerminateContainer of None \<Rightarrow> Closed Container | Some e \<Rightarrow> Logged ''terminate postgres: '' e])"
  using assms
  by (cases "ext (RunContainer postgres_container)"; cases "ext (ConnectionString [''sslmode=disable''])";
      cases "ext (ParseConfig dsn)"; cases "ext (NewWithConfig dsn)"; cases "ext Ping")
     (simp_all add: with_postgres_def StartPostgres_def NewPool_def pool_session_def Let_def split: option.split)

theorem test_database_torn_down_witness:
  "pr_effects (with_postgres (\<lambda>_. None) False ''postgres://lab'' id sample_process) = pr_effects sample_process @
     [Opened Container, Opened Pool, Pinged, Closed Pool, Closed Container]"
  using test_database_torn_down [of id "[]" "\<lambda>_. None" False "''postgres://lab''" sample_process]
  by (simp add: pool_session_def)

end
