(* ===== verification/Order_Read.thy ===== *)
theory Order_Read
  imports Order_Service Json_Text
begin

text \<open>
  Reading an order over HTTP: \<open>GET /orders/{id}\<close> through the whole service, from the rows of the two
  tables to the bytes of the response and back through a JSON decoder.
\<close>

section \<open>Every row the schema admits is an order\<close>

text \<open>The order a row and its items stand for, as \<open>GetOrder\<close> scans them.\<close>

definition order_read :: "platform \<Rightarrow> database \<Rightarrow> order_row \<Rightarrow> order option" where
  "order_read pf d r =
    map_option
      (\<lambda>ord. ord\<lparr>o_items := sort_by (\<lambda>a b. pf_collate pf (sku a) (sku b))
                 (map item_of_row (filter (\<lambda>i. it_order_id i = or_id r) (order_items d)))\<rparr>)
      (order_of_row r)"

lemma order_statuses_text: "order_statuses = map status_text AllStatuses"
  by code_simp

lemma parse_status_admitted: "t \<in> set order_statuses \<Longrightarrow> parse_status t \<noteq> None"
  by (auto simp: order_statuses_text)

lemma order_read_total:
  assumes "db_ok d" and "r \<in> set (orders d)"
  obtains ord where "order_read pf d r = Some ord"
proof -
  have "parse_status (or_status r) \<noteq> None"
    using assms by (intro parse_status_admitted) (auto simp: db_ok_def list_all_iff order_row_ok_def)
  then show thesis using that by (auto simp: order_read_def order_of_row_def)
qed

lemma Store_GetOrder_answers:
  assumes "calm w" and "db_ok (db w)"
  shows "Store_GetOrder pf oid w =
    (case find_row or_id oid (orders (db w)) of
       None \<Rightarrow> (Err ErrOrderNotFound, w)
     | Some r \<Rightarrow> (Ok (the (order_read pf (db w) r)), w))"
proof (cases "find_row or_id oid (orders (db w))")
  case None
  with assms(1) show ?thesis
    by (simp add: Store_GetOrder_def query_row_def driver_call_calm run_stmt_def sql_select_order_def)
next
  case (Some r)
  from find_row_SomeD [OF Some] have r: "r \<in> set (orders (db w))" "or_id r = oid" by auto
  from order_read_total [OF assms(2) r(1), of pf] obtain ord where "order_read pf (db w) r = Some ord" .
  with Store_GetOrder_calm [OF assms(1) Some, of _ pf] Some r(2) show ?thesis
    by (auto simp: order_read_def)
qed

section \<open>What the responses decode to\<close>

lemma numbers_ok_items: "numbers_ok_elems (map item_response items)"
  by (induction items) (auto simp: item_response_def json_int_def number_text_show_int)

lemma nesting_items: "nesting_elems (map item_response items) \<le> 1"
  by (induction items) (auto simp: item_response_def json_int_def)

lemma encodable_order_response: "encodable (order_response pf ord)"
  using nesting_items [of "o_items ord"]
  by (simp add: encodable_def order_response_def json_int_def number_text_show_int numbers_ok_items
      max_nesting_def)

section \<open>The route\<close>

lemma split_on_none: "c \<notin> set s \<Longrightarrow> split_on c s = [s]"
  by (induction s) auto

lemma get_order_route:
  assumes "rq_method r = ''GET''" and "rq_path r = ''/orders/'' @ oid"
    and "oid \<noteq> []" and "CHR ''/'' \<notin> set oid"
  shows "ServeMux (service_routes pf metrics) [] r b w = Get pf (Store_GetOrder pf) oid r b w"
  using assms split_on_none [OF assms(4)]
  by (simp add: service_routes_def Register_def Route_def match_path_def method_ok_def path_value_def)

lemma serve_GET_order:
  assumes "rq_method r = ''GET''" and "rq_path r = ''/orders/'' @ oid"
    and "oid \<noteq> []" and "CHR ''/'' \<notin> set oid" and "script w = []" and "db_ok (db w)"
  shows "\<exists>resp w'. serve (order_service pf metrics) r w = (Some resp, w') \<and> db w' = db w \<and> calm w' \<and>
    (case find_row or_id oid (orders (db w)) of
       None \<Rightarrow> rs_status resp = 404 \<and>
         rs_body resp = encode (error_json ''order_not_found'' ''order not found'' None)
     | Some row \<Rightarrow> rs_status resp = 200 \<and>
         rs_body resp = encode (order_response pf (the (order_read pf (db w) row))))"
proof -
  let ?h = "ServeMux (service_routes pf metrics) []"
  let ?r = "front_request pf r w" and ?b = "front_rw pf r w" and ?w = "front_world r w"
  have calm: "calm ?w" and ok: "db_ok (db ?w)" using assms(5,6) by (simp_all add: calm_def)
  have codes: "final_code 200" "body_allowed 200" "final_code 404" "body_allowed 404"
    by (simp_all add: final_code_def informational_def body_allowed_def)
  obtain code bd where out: "Get pf (Store_GetOrder pf) oid ?r ?b ?w = (Ok (), answered code bd ?b, ?w)"
    and bd: "case find_row or_id oid (orders (db w)) of
       None \<Rightarrow> code = 404 \<and> bd = encode (error_json ''order_not_found'' ''order not found'' None)
     | Some row \<Rightarrow> code = 200 \<and> bd = encode (order_response pf (the (order_read pf (db w) row)))"
    using Store_GetOrder_answers [OF calm ok, of pf oid] codes
    by (cases "find_row or_id oid (orders (db w))")
       (auto simp: Get_def Get_Execute_def reply_def writeDomainError_def WriteError_unsent
         WriteJSON_unsent)
  have "?h ?r ?b ?w = (Ok (), answered code bd ?b, ?w)"
    using get_order_route [of ?r oid pf metrics] assms(1-4) out by simp
  from serve_front [where h = ?h, OF this] bd calm show ?thesis
    by (auto simp: order_service_def split: option.splits)
qed

text \<open>C28: an order can be read.  Without faults, \<open>GET /orders/{id}\<close> of a stored order answers 200 with a
  body that any JSON decoder reads back as the order's fields, its items sorted by sku, whatever
  bytes they hold (a byte that is not UTF-8 reads as U+FFFD); the schema admits no row this fails
  on.  For any other id the answer is the 404 envelope.  The database is as before.\<close>

theorem stored_order_is_readable:
  assumes "rq_method r = ''GET''" and "rq_path r = ''/orders/'' @ oid"
    and "oid \<noteq> []" and "CHR ''/'' \<notin> set oid" and "script w = []" and "db_ok (db w)"
  shows "\<exists>resp w'. serve (order_service pf metrics) r w = (Some resp, w') \<and> db w' = db w \<and>
    (case find_row or_id oid (orders (db w)) of
       None \<Rightarrow> rs_status resp = 404 \<and> decode_all (rs_body resp) =
         Some (error_json ''order_not_found'' ''order not found'' None)
     | Some row \<Rightarrow> rs_status resp = 200 \<and>
         (\<exists>ord. order_read pf (db w) row = Some ord \<and>
           decode_all (rs_body resp) = Some (repaired (order_response pf ord))))"
proof -
  have e404: "decode_all (encode (error_json ''order_not_found'' ''order not found'' None)) =
      Some (error_json ''order_not_found'' ''order not found'' None)"
    by code_simp
  obtain resp w' where s: "serve (order_service pf metrics) r w = (Some resp, w')" "db w' = db w"
    "case find_row or_id oid (orders (db w)) of
       None \<Rightarrow> rs_status resp = 404 \<and>
         rs_body resp = encode (error_json ''order_not_found'' ''order not found'' None)
     | Some row \<Rightarrow> rs_status resp = 200 \<and>
         rs_body resp = encode (order_response pf (the (order_read pf (db w) row)))"
    using serve_GET_order [OF assms, of pf metrics] by auto
  show ?thesis
  proof (cases "find_row or_id oid (orders (db w))")
    case None
    with s e404 show ?thesis by auto
  next
    case (Some row)
    then have "row \<in> set (orders (db w))" by (auto dest: find_row_SomeD)
    from order_read_total [OF assms(6) this, of pf] obtain ord where "order_read pf (db w) row = Some ord" .
    with s Some decode_encode(1) [OF encodable_order_response, of pf ord] show ?thesis by auto
  qed
qed

definition sample_get :: request where
  "sample_get = \<lparr>rq_method = ''GET'', rq_path = ''/orders/ord_7'', rq_header = [], rq_body = [],
     rq_body_fails = None, rq_ctx = \<lparr>cx_request_id = None, cx_idempotency_key = None\<rparr>\<rparr>"

definition one_order_world :: world where
  "one_order_world = sample_world\<lparr>db := empty_db\<lparr>
     orders := [\<lparr>or_id = ''ord_7'', or_customer_id = ''c'', or_status = ''pending'',
       or_total_amount = 120000, or_currency = ''NGN'', or_payment_method_id = ''p'',
       or_created_at = 5, or_updated_at = 5\<rparr>],
     order_items := [\<lparr>it_order_id = ''ord_7'', it_sku = ''switch-2'', it_quantity = 1, it_unit_price = 120000\<rparr>]\<rparr>\<rparr>"

theorem stored_order_is_readable_witness:
  "\<exists>resp w'. serve (order_service sample_platform Health) sample_get one_order_world = (Some resp, w') \<and>
     rs_status resp = 200 \<and> (\<exists>v. decode_all (rs_body resp) = Some v)"
proof -
  have "script one_order_world = []" "db_ok (db one_order_world)" by code_simp+
  moreover have "rq_method sample_get = ''GET''" "rq_path sample_get = ''/orders/'' @ ''ord_7''"
    by (simp_all add: sample_get_def)
  moreover have "find_row or_id ''ord_7'' (orders (db one_order_world)) \<noteq> None" by code_simp
  ultimately show ?thesis
    using stored_order_is_readable [of sample_get "''ord_7''" one_order_world sample_platform Health]
    by fastforce
qed

end
