(* ===== verification/Labctl.thy ===== *)
theory Labctl
  imports Order_Read Config
begin

text \<open>
  The command line client, \<open>cmd/labctl\<close>: the HTTP client of the order service (\<open>client.go\<close>), the
  registry of scenarios (\<open>scenario.go\<close>), the scenario \<open>duplicate-order\<close> (\<open>duplicate_order.go\<close>) and
  \<open>main\<close> with the flags it parses (\<open>main.go\<close>).  The network and the clock are a parameter, the record
  \<open>net\<close> over a state of any type: parsing a URL, performing a request, reading the clock, and waiting
  for a timer or the cancellation of the context.
\<close>

section \<open>The world of the client\<close>

record 's net =
  nt_parse :: "string \<Rightarrow> error + string"
  nt_do :: "request \<Rightarrow> 's \<Rightarrow> (error + Httpx.response \<times> error option) \<times> 's"
  nt_now :: "'s \<Rightarrow> int \<times> 's"
  nt_after :: "int64 \<Rightarrow> 's \<Rightarrow> error option \<times> 's"

text \<open>Running one Go call after another that may fail.\<close>

definition and_then :: "'a go \<times> 's \<Rightarrow> ('a \<Rightarrow> 's \<Rightarrow> 'b go \<times> 's) \<Rightarrow> 'b go \<times> 's" where
  "and_then x f =
    (case x of (Ok a, s) \<Rightarrow> f a s | (Err e, s) \<Rightarrow> (Err e, s) | (Panic p, s) \<Rightarrow> (Panic p, s))"

lemma and_then_simps [simp]:
  "and_then (Ok a, s) f = f a s" "and_then (Err e, s) f = (Err e, s)" "and_then (Panic p, s) f = (Panic p, s)"
  by (simp_all add: and_then_def)

section \<open>client.go\<close>

record orderClient =
  oc_baseURL :: string
  oc_Timeout :: int64

definition newOrderClient :: "string \<Rightarrow> orderClient" where
  "newOrderClient baseURL = \<lparr>oc_baseURL = baseURL, oc_Timeout = 10 * second\<rparr>"

record client_response =
  lr_Status :: int
  lr_Body :: string
  lr_Header :: header

definition client_request :: "string \<Rightarrow> string \<Rightarrow> header \<Rightarrow> string \<Rightarrow> request" where
  "client_request method path hdr body =
    \<lparr>rq_method = method, rq_path = path, rq_header = hdr, rq_body = body, rq_body_fails = None,
     rq_ctx = \<lparr>cx_request_id = None, cx_idempotency_key = None\<rparr>\<rparr>"

definition client_do :: "'s net \<Rightarrow> request \<Rightarrow> 's \<Rightarrow> client_response go \<times> 's" where
  "client_do net req s =
    (case nt_do net req s of
       (Inl e, s1) \<Rightarrow> (Err (Wrapf (rq_method req @ '' '' @ rq_path req @ '': '') e []), s1)
     | (Inr (resp, read_error), s1) \<Rightarrow>
        (case read_error of
           Some e \<Rightarrow> (Err (Wrapf ''read response: '' e []), s1)
         | None \<Rightarrow>
            (Ok \<lparr>lr_Status = rs_status resp, lr_Body = rs_body resp, lr_Header = rs_header resp\<rparr>, s1)))"

definition createOrder :: "'s net \<Rightarrow> orderClient \<Rightarrow> string \<Rightarrow> goval \<Rightarrow> 's \<Rightarrow> client_response go \<times> 's" where
  "createOrder net c idempotencyKey body s =
    (case json_Marshal body of
       Err e \<Rightarrow> (Err (Wrapf ''marshal request: '' e []), s)
     | Panic p \<Rightarrow> (Panic p, s)
     | Ok payload \<Rightarrow>
        (case nt_parse net (oc_baseURL c @ ''/orders'') of
           Inl e \<Rightarrow> (Err (Wrapf ''build request: '' e []), s)
         | Inr path \<Rightarrow>
            client_do net (client_request ''POST'' path
              (header_set (header_set [] ''Content-Type'' ''application/json'') ''Idempotency-Key'' idempotencyKey)
              payload) s))"

definition getOrder :: "'s net \<Rightarrow> orderClient \<Rightarrow> string \<Rightarrow> 's \<Rightarrow> client_response go \<times> 's" where
  "getOrder net c oid s =
    (case nt_parse net (oc_baseURL c @ ''/orders/'' @ oid) of
       Inl e \<Rightarrow> (Err (Wrapf ''build request: '' e []), s)
     | Inr path \<Rightarrow> client_do net (client_request ''GET'' path [] []) s)"

text \<open>The loop of \<open>waitReady\<close>; it has no bound of its own but the clock, so it may not return.\<close>

fun is_ready :: "client_response go \<Rightarrow> bool" where
  "is_ready (Ok resp) = (lr_Status resp = 200)"
| "is_ready _ = False"

definition poll_interval :: int64 where "poll_interval = 250000000"

partial_function (option) waitReady_loop ::
  "'s net \<Rightarrow> orderClient \<Rightarrow> int64 \<Rightarrow> int \<Rightarrow> 's \<Rightarrow> (unit go \<times> 's) option" where
  "waitReady_loop net c timeout deadline s =
    (case nt_now net s of (now, s0) \<Rightarrow>
       if deadline \<le> now
       then Some (Err (Errorf (oc_baseURL c @ '' was not ready within '' @ duration_string timeout)), s0)
       else (case nt_parse net (oc_baseURL c @ ''/readyz'') of
          Inl e \<Rightarrow> Some (Err e, s0)
        | Inr path \<Rightarrow>
           (case client_do net (client_request ''GET'' path [] []) s0 of (r, s1) \<Rightarrow>
              if is_ready r then Some (Ok (), s1)
              else (case nt_after net poll_interval s1 of (stopped, s2) \<Rightarrow>
                 (case stopped of
                    Some e \<Rightarrow> Some (Err e, s2)
                  | None \<Rightarrow> waitReady_loop net c timeout deadline s2)))))"

definition waitReady :: "'s net \<Rightarrow> orderClient \<Rightarrow> int64 \<Rightarrow> 's \<Rightarrow> (unit go \<times> 's) option" where
  "waitReady net c timeout s =
    (case nt_now net s of (now, s0) \<Rightarrow> waitReady_loop net c timeout (now + sint timeout) s0)"

section \<open>duplicate_order.go\<close>

record createOrderResult =
  co_OrderID :: string
  co_Status :: string

definition decode_result_member :: "string \<times> json \<Rightarrow> createOrderResult \<Rightarrow> createOrderResult option" where
  "decode_result_member m q =
    (case field_of [''order_id'', ''status''] (fst m) of
       None \<Rightarrow> Some q
     | Some f \<Rightarrow>
        (if f = ''order_id'' then map_option (\<lambda>s. q\<lparr>co_OrderID := s\<rparr>) (decode_string (snd m) (co_OrderID q))
         else map_option (\<lambda>s. q\<lparr>co_Status := s\<rparr>) (decode_string (snd m) (co_Status q))))"

fun decode_result :: "json \<Rightarrow> createOrderResult option" where
  "decode_result (JObj ms) = fold_members decode_result_member ms \<lparr>co_OrderID = [], co_Status = []\<rparr>"
| "decode_result JNull = Some \<lparr>co_OrderID = [], co_Status = []\<rparr>"
| "decode_result _ = None"

text \<open>The request bodies; \<open>json.Marshal\<close> writes the keys of a map in byte order.\<close>

definition lab_body :: "string \<Rightarrow> goval" where
  "lab_body customer = VJson (JObj
    [(''customer_id'', JStr customer),
     (''items'', JArr [JObj [(''quantity'', JNum ''1''), (''sku'', JStr ''playstation-5'')]]),
     (''payment_method_id'', JStr ''pm_ok'')])"

record environment =
  ev_orderBaseURL :: string
  ev_jaegerURL :: string

text \<open>After \<open>waitReady\<close>: three POSTs with one key and a GET.  The result carries what is printed.\<close>

definition duplicate_steps :: "'s net \<Rightarrow> orderClient \<Rightarrow> string \<Rightarrow> 's \<Rightarrow> string go \<times> 's" where
  "duplicate_steps net client key s =
    and_then (createOrder net client key (lab_body ''cust_lab'') s) (\<lambda>first s1.
      if lr_Status first \<noteq> 202
      then (Err (Errorf (''first POST /orders returned '' @ show_int (lr_Status first) @ '': '' @ lr_Body first)), s1)
      else and_then (createOrder net client key (lab_body ''cust_lab'') s1) (\<lambda>again s2.
        if lr_Status again \<noteq> lr_Status first
        then (Err (Errorf (''replay returned '' @ show_int (lr_Status again) @ '', want '' @ show_int (lr_Status first))), s2)
        else if lr_Body again \<noteq> lr_Body first
        then (Err (Errorf (''replay body '' @ lr_Body again @ '' differs from the original '' @ lr_Body first)), s2)
        else if header_get (lr_Header again) ''Idempotent-Replay'' \<noteq> ''true''
        then (Err (Errorf ''replay was not marked with Idempotent-Replay''), s2)
        else and_then (createOrder net client key (lab_body ''cust_someone_else'') s2) (\<lambda>conflict s3.
          if lr_Status conflict \<noteq> 409
          then (Err (Errorf (''reusing the key with a different body returned '' @
                  show_int (lr_Status conflict) @ '', want 409'')), s3)
          else case Option.bind (decode_all (lr_Body first)) decode_result of
                 None \<Rightarrow> (Err (Wrapf ''parse create response: '' (Errorf ''json: cannot unmarshal'') []), s3)
               | Some created \<Rightarrow>
                  and_then (getOrder net client (co_OrderID created) s3) (\<lambda>fetched s4.
                    if lr_Status fetched \<noteq> 200
                    then (Err (Errorf (''GET /orders/'' @ co_OrderID created @ '' returned '' @
                            show_int (lr_Status fetched))), s4)
                    else (Ok (''one order created: '' @ co_OrderID created @ [CHR 0x0A]), s4)))))"

definition runDuplicateOrder :: "'s net \<Rightarrow> environment \<Rightarrow> 's \<Rightarrow> (string go \<times> 's) option" where
  "runDuplicateOrder net lab s =
    (let client = newOrderClient (ev_orderBaseURL lab)
     in case waitReady net client (60 * second) s of
          None \<Rightarrow> None
        | Some (Err e, s1) \<Rightarrow> Some (Err e, s1)
        | Some (Panic p, s1) \<Rightarrow> Some (Panic p, s1)
        | Some (Ok _, s1) \<Rightarrow>
           (case nt_now net s1 of (now, s2) \<Rightarrow>
              Some (duplicate_steps net client (''duplicate-order-'' @ show_int now) s2)))"

section \<open>scenario.go\<close>

record 's scenario =
  sc_name :: string
  sc_description :: string
  sc_run :: "environment \<Rightarrow> 's \<Rightarrow> (string go \<times> 's) option"

type_synonym 's registry = "(string \<times> 's scenario) list"

definition register :: "'s scenario \<Rightarrow> 's registry \<Rightarrow> 's registry" where
  "register sc reg = (sc_name sc, sc) # filter (\<lambda>e. fst e \<noteq> sc_name sc) reg"

definition scenarioNames :: "'s registry \<Rightarrow> string list" where
  "scenarioNames reg = sort_by (\<lambda>a b. \<not> bytes_less b a) (map fst reg)"

definition duplicate_order :: "'s net \<Rightarrow> 's scenario" where
  "duplicate_order net =
    \<lparr>sc_name = ''duplicate-order'',
     sc_description = ''the same Idempotency-Key twice yields one order, not two'',
     sc_run = runDuplicateOrder net\<rparr>"

definition scenarios :: "'s net \<Rightarrow> 's registry" where
  "scenarios net = register (duplicate_order net) []"

record window =
  wn_start :: int
  wn_end :: int

definition pad :: int where "pad = 120000000000"

definition UnixMicro :: "int \<Rightarrow> int" where "UnixMicro t = t div 1000"

definition traceURL :: "window \<Rightarrow> string \<Rightarrow> string \<Rightarrow> string" where
  "traceURL w jaegerBase service =
    jaegerBase @ ''/search?service='' @ service @ ''&start='' @ show_int (UnixMicro (wn_start w - pad)) @
    ''&end='' @ show_int (UnixMicro (wn_end w + pad)) @ ''&limit=20''"

text \<open>\<open>%v\<close> of a list of strings.\<close>

fun spaced :: "string list \<Rightarrow> string" where
  "spaced [] = []"
| "spaced [t] = t"
| "spaced (t # ts) = t @ '' '' @ spaced ts"

definition show_names :: "string list \<Rightarrow> string" where
  "show_names ts = ''['' @ spaced ts @ '']''"

definition runScenario ::
  "(string \<Rightarrow> bool) \<Rightarrow> 's net \<Rightarrow> 's registry \<Rightarrow> string \<Rightarrow> environment \<Rightarrow> 's
     \<Rightarrow> (window \<times> unit go \<times> string \<times> 's) option" where
  "runScenario printable net reg name lab s =
    (case map_of reg name of
       None \<Rightarrow> Some (\<lparr>wn_start = 0, wn_end = 0\<rparr>,
         Err (Errorf (''unknown scenario '' @ Quote printable name @ ''; known scenarios: '' @
           show_names (scenarioNames reg))), [], s)
     | Some sc \<Rightarrow>
        (let line = ''running scenario '' @ sc_name sc @ '': '' @ sc_description sc @ [CHR 0x0A]
         in case nt_now net s of (start, s0) \<Rightarrow>
              (case sc_run sc lab s0 of
                 None \<Rightarrow> None
               | Some (r, s1) \<Rightarrow>
                  (case nt_now net s1 of (finished, s2) \<Rightarrow>
                     Some (\<lparr>wn_start = start, wn_end = finished\<rparr>,
                       (case r of Ok _ \<Rightarrow> Ok () | Err e \<Rightarrow> Err e | Panic p \<Rightarrow> Panic p),
                       line @ (case r of Ok out \<Rightarrow> out | _ \<Rightarrow> []), s2)))))"

section \<open>main.go\<close>

definition envOr :: "environ \<Rightarrow> string \<Rightarrow> string \<Rightarrow> string" where
  "envOr environ key fallback =
    (case environ key of Some v \<Rightarrow> if v \<noteq> [] then v else fallback | None \<Rightarrow> fallback)"

text \<open>
  Package \<open>flag\<close>, as far as string flags go: a flag is one or two dashes and a name, its value follows
  an equals sign or is the next argument; the first argument that is no flag, or two dashes, ends
  them.  The values of the flags are a list in the order of their names.
\<close>

record string_flag =
  fl_name :: string
  fl_usage :: string
  fl_DefValue :: string
  fl_value :: string

datatype flag_error = ErrHelp | FlagError string

fun split_eq :: "string \<Rightarrow> string \<times> string option" where
  "split_eq [] = ([], None)"
| "split_eq (c # cs) =
    (if c = CHR ''='' then ([], Some cs) else case split_eq cs of (n, v) \<Rightarrow> (c # n, v))"

definition set_flag :: "string \<Rightarrow> string \<Rightarrow> string_flag list \<Rightarrow> string_flag list" where
  "set_flag n v flags = update_rows (\<lambda>f. fl_name f = n) (\<lambda>f. f\<lparr>fl_value := v\<rparr>) flags"

fun flag_Parse :: "string_flag list \<Rightarrow> string list \<Rightarrow> flag_error + string_flag list \<times> string list" where
  "flag_Parse flags [] = Inr (flags, [])"
| "flag_Parse flags (s # rest) =
    (if length s < 2 \<or> hd s \<noteq> CHR ''-'' then Inr (flags, s # rest)
     else if s = ''--'' then Inr (flags, rest)
     else
       (let name = (if s ! 1 = CHR ''-'' then drop 2 s else drop 1 s)
        in if name = [] \<or> hd name = CHR ''-'' \<or> hd name = CHR ''=''
           then Inl (FlagError (''bad flag syntax: '' @ s))
           else (case split_eq name of (n, given_value) \<Rightarrow>
             if n \<notin> fl_name ` set flags
             then Inl (if n = ''help'' \<or> n = ''h'' then ErrHelp
                       else FlagError (''flag provided but not defined: -'' @ n))
             else (case given_value of
                Some v \<Rightarrow> flag_Parse (set_flag n v flags) rest
              | None \<Rightarrow>
                 (case rest of
                    [] \<Rightarrow> Inl (FlagError (''flag needs an argument: -'' @ n))
                  | v # rest' \<Rightarrow> flag_Parse (set_flag n v flags) rest')))))"

definition NL :: string where "NL = [CHR 0x0A]"

definition PrintDefaults :: "(string \<Rightarrow> bool) \<Rightarrow> string_flag list \<Rightarrow> string" where
  "PrintDefaults printable flags =
    concat (map (\<lambda>f. ''  -'' @ fl_name f @ '' string'' @ NL @ ''    '' @ [CHR 0x09] @ fl_usage f @
      (if fl_DefValue f = [] then [] else '' (default '' @ Quote printable (fl_DefValue f) @ '')'') @ NL) flags)"

definition flag_value :: "string \<Rightarrow> string_flag list \<Rightarrow> string" where
  "flag_value n flags = (case find_row fl_name n flags of Some f \<Rightarrow> fl_value f | None \<Rightarrow> [])"

definition string_flag :: "string \<Rightarrow> string \<Rightarrow> string \<Rightarrow> string_flag" where
  "string_flag name value usage_text =
    \<lparr>fl_name = name, fl_usage = usage_text, fl_DefValue = value, fl_value = value\<rparr>"

definition lab_flags :: "environ \<Rightarrow> string_flag list" where
  "lab_flags environ =
    [string_flag ''jaeger-url'' (envOr environ ''LABCTL_JAEGER_URL'' ''http://localhost:16686'')
       ''base URL of the Jaeger UI'',
     string_flag ''order-url'' (envOr environ ''LABCTL_ORDER_URL'' ''http://localhost:8080'')
       ''base URL of the order service'']"

definition lab_usage :: "(string \<Rightarrow> bool) \<Rightarrow> 's registry \<Rightarrow> string_flag list \<Rightarrow> string" where
  "lab_usage printable reg flags =
    ''usage: labctl [flags] scenario <name>'' @ NL @ NL @ ''known scenarios:'' @ NL @
    concat (map (\<lambda>name. ''  '' @ name @ '': '' @
      (case map_of reg name of Some sc \<Rightarrow> sc_description sc | None \<Rightarrow> []) @ NL) (scenarioNames reg)) @
    PrintDefaults printable flags"

text \<open>What a finished process leaves: its exit status and what it wrote.  A panic is status 2 too.\<close>

record finished =
  fn_status :: nat
  fn_stdout :: string
  fn_stderr :: string

definition labctl_main ::
  "(string \<Rightarrow> bool) \<Rightarrow> 's net \<Rightarrow> 's registry \<Rightarrow> environ \<Rightarrow> string \<Rightarrow> string list \<Rightarrow> 's \<Rightarrow> (finished \<times> 's) option" where
  "labctl_main printable net reg environ argv0 argv s =
    (let flags = lab_flags environ
     in case flag_Parse flags argv of
          Inl ErrHelp \<Rightarrow>
            Some (\<lparr>fn_status = 0, fn_stdout = [],
              fn_stderr = ''Usage of '' @ argv0 @ '':'' @ NL @ PrintDefaults printable flags\<rparr>, s)
        | Inl (FlagError msg) \<Rightarrow>
            Some (\<lparr>fn_status = 2, fn_stdout = [],
              fn_stderr = msg @ NL @ ''Usage of '' @ argv0 @ '':'' @ NL @ PrintDefaults printable flags\<rparr>, s)
        | Inr (parsed, args) \<Rightarrow>
           (case args of
              [] \<Rightarrow> Some (\<lparr>fn_status = 2, fn_stdout = [], fn_stderr = lab_usage printable reg flags\<rparr>, s)
            | cmd # rest \<Rightarrow>
                if cmd = ''scenario''
                then (case rest of
                   [] \<Rightarrow> Some (\<lparr>fn_status = 2, fn_stdout = [],
                          fn_stderr = ''scenario requires a name; known scenarios: '' @
                            show_names (scenarioNames reg) @ NL\<rparr>, s)
                 | name # _ \<Rightarrow>
                    (let lab = \<lparr>ev_orderBaseURL = flag_value ''order-url'' parsed,
                                ev_jaegerURL = flag_value ''jaeger-url'' parsed\<rparr>
                     in case runScenario printable net reg name lab s of
                          None \<Rightarrow> None
                        | Some (wn, r, out, s1) \<Rightarrow> Some
                           ((case r of
                              Ok _ \<Rightarrow> \<lparr>fn_status = 0, fn_stdout = out @ ''PASS'' @ NL @ ''trace: '' @
                                       traceURL wn (ev_jaegerURL lab) ''order'' @ NL, fn_stderr = []\<rparr>
                            | Err e \<Rightarrow> \<lparr>fn_status = 1, fn_stdout = out,
                                        fn_stderr = ''FAIL: '' @ error_text e @ NL\<rparr>
                            | Panic p \<Rightarrow> \<lparr>fn_status = 2, fn_stdout = out, fn_stderr = ''panic: '' @ p\<rparr>), s1)))
                else Some (\<lparr>fn_status = 2, fn_stdout = [], fn_stderr = lab_usage printable reg flags\<rparr>, s)))"

section \<open>waitReady returns\<close>

definition wait_result :: "'s net \<Rightarrow> orderClient \<Rightarrow> int64 \<Rightarrow> unit go \<Rightarrow> bool" where
  "wait_result net c timeout r \<longleftrightarrow>
    r = Ok () \<or> r = Err (Errorf (oc_baseURL c @ '' was not ready within '' @ duration_string timeout)) \<or>
    (\<exists>e. r = Err e \<and> (nt_parse net (oc_baseURL c @ ''/readyz'') = Inl e \<or>
       (\<exists>s1 s2. nt_after net poll_interval s1 = (Some e, s2))))"

text \<open>One round of the loop returns or moves the clock.\<close>

lemma waitReady_round:
  assumes "\<And>s t s'. nt_now net s = (t, s') \<Longrightarrow> clk s \<le> t \<and> t \<le> clk s'"
    and "\<And>r s a s'. nt_do net r s = (a, s') \<Longrightarrow> clk s \<le> clk s'"
    and "\<And>d s s'. nt_after net d s = (None, s') \<Longrightarrow> clk s + sint d \<le> clk s'"
  shows "(\<exists>r s'. waitReady_loop net c timeout deadline s = Some (r, s') \<and> wait_result net c timeout r) \<or>
    (\<exists>s2. clk s < deadline \<and> clk s < clk s2 \<and>
       waitReady_loop net c timeout deadline s = waitReady_loop net c timeout deadline s2)"
proof -
  obtain t s0 where now: "nt_now net s = (t, s0)" by force
  show ?thesis
  proof (cases "deadline \<le> t \<or> (\<exists>e. nt_parse net (oc_baseURL c @ ''/readyz'') = Inl e)")
    case True
    with now show ?thesis
      by (subst (1) waitReady_loop.simps) (auto simp: wait_result_def split: sum.split)
  next
    case False
    then obtain path where path: "nt_parse net (oc_baseURL c @ ''/readyz'') = Inr path"
      by (cases "nt_parse net (oc_baseURL c @ ''/readyz'')") auto
    obtain x s1 where x: "client_do net (client_request ''GET'' path [] []) s0 = (x, s1)" by force
    obtain stopped s2 where after: "nt_after net poll_interval s1 = (stopped, s2)" by force
    have "clk s0 \<le> clk s1"
      using x assms(2) by (auto simp: client_do_def split: prod.splits sum.splits option.splits)
    then have move: "clk s < deadline \<and> clk s < clk s2" if "stopped = None"
      using False assms(1) [OF now] assms(3) [of poll_interval s1 s2] after that
      by (simp add: poll_interval_def)
    have "waitReady_loop net c timeout deadline s =
        (if is_ready x then Some (Ok (), s1)
         else case stopped of Some e \<Rightarrow> Some (Err e, s2) | None \<Rightarrow> waitReady_loop net c timeout deadline s2)"
      using False now path x after by (subst waitReady_loop.simps) simp
    with move after show ?thesis by (auto simp: wait_result_def split: option.split)
  qed
qed

text \<open>C32: polling ends.  If the clock never goes back and a timer fires no earlier than asked, then
  \<open>waitReady\<close> returns, whatever the network answers: with success on the first poll that is answered 200, with the
  error of a URL that does not parse or of the cancelled context, or with the time-out.\<close>

theorem waitReady_returns:
  assumes "\<And>s t s'. nt_now net s = (t, s') \<Longrightarrow> clk s \<le> t \<and> t \<le> clk s'"
    and "\<And>r s a s'. nt_do net r s = (a, s') \<Longrightarrow> clk s \<le> clk s'"
    and "\<And>d s s'. nt_after net d s = (None, s') \<Longrightarrow> clk s + sint d \<le> clk s'"
  shows "\<exists>r s'. waitReady net c timeout s = Some (r, s') \<and> wait_result net c timeout r"
proof -
  have "\<exists>r s'. waitReady_loop net c timeout deadline s = Some (r, s') \<and> wait_result net c timeout r" for deadline s
  proof (induction "nat (deadline - clk s)" arbitrary: s rule: less_induct)
    case less
    from waitReady_round [of net clk c timeout deadline s, OF assms] show ?case
    proof
      assume "\<exists>s2. clk s < deadline \<and> clk s < clk s2 \<and>
        waitReady_loop net c timeout deadline s = waitReady_loop net c timeout deadline s2"
      then obtain s2 where 2: "clk s < deadline" "clk s < clk s2"
        "waitReady_loop net c timeout deadline s = waitReady_loop net c timeout deadline s2" by blast
      then have "nat (deadline - clk s2) < nat (deadline - clk s)" by simp
      from less [OF this] 2(3) show ?thesis by simp
    qed
  qed
  then show ?thesis by (auto simp: waitReady_def split: prod.split)
qed

text \<open>A host that is down, and a clock that only the timer moves.\<close>

definition dead_net :: "int net" where
  "dead_net =
    \<lparr>nt_parse = (\<lambda>url. Inr ''/readyz''), nt_do = (\<lambda>r t. (Inl (Driver ''connection refused''), t)),
     nt_now = (\<lambda>t. (t, t)), nt_after = (\<lambda>d t. (None, t + sint d))\<rparr>"

theorem waitReady_returns_witness:
  "\<exists>r s'. waitReady dead_net (newOrderClient ''http://x'') (60 * second) 0 = Some (r, s')"
  using waitReady_returns [of dead_net "\<lambda>t. t" "newOrderClient ''http://x''" "60 * second" 0]
  by (auto simp: dead_net_def)

section \<open>What the client relies on\<close>

definition lab_key :: "int \<Rightarrow> string" where
  "lab_key t = ''duplicate-order-'' @ show_int t"

text \<open>
  The contract of the API behind the network, as the scenario uses it: a healthy service answers
  probes, an unused key can be used for one order, and a used key replays, refuses other bodies, and
  names an order that can be read.  \<open>orders_in\<close> counts the orders of a state.
\<close>

locale order_api =
  fixes net :: "'s net" and base :: string
    and healthy :: "'s \<Rightarrow> bool" and unused :: "string \<Rightarrow> 's \<Rightarrow> bool"
    and used :: "string \<Rightarrow> string \<Rightarrow> 's \<Rightarrow> bool" and orders_in :: "'s \<Rightarrow> nat"
  assumes clock_reads: "healthy s \<Longrightarrow> nt_now net s = (t, s') \<Longrightarrow>
      healthy s' \<and> unused (lab_key t) s' \<and> orders_in s' = orders_in s"
    and clock_used: "used k oid s \<Longrightarrow> nt_now net s = (t, s') \<Longrightarrow> orders_in s' = orders_in s"
    and clock_soon: "nt_now net s = (t1, s1) \<Longrightarrow> nt_now net s1 = (t2, s2) \<Longrightarrow> t2 < t1 + 60000000000"
    and readyz: "healthy s \<Longrightarrow> \<exists>path resp s'. nt_parse net (base @ ''/readyz'') = Inr path \<and>
      client_do net (client_request ''GET'' path [] []) s = (Ok resp, s') \<and> lr_Status resp = 200 \<and>
      healthy s' \<and> orders_in s' = orders_in s"
    and create: "unused k s \<Longrightarrow> \<exists>resp oid s'.
      createOrder net (newOrderClient base) k (lab_body ''cust_lab'') s = (Ok resp, s') \<and>
      lr_Status resp = 202 \<and> lr_Body resp = accepted_body oid \<and> used k oid s' \<and>
      orders_in s' = Suc (orders_in s)"
    and replay: "used k oid s \<Longrightarrow> \<exists>resp s'.
      createOrder net (newOrderClient base) k (lab_body ''cust_lab'') s = (Ok resp, s') \<and>
      lr_Status resp = 202 \<and> lr_Body resp = accepted_body oid \<and>
      header_get (lr_Header resp) ''Idempotent-Replay'' = ''true'' \<and> used k oid s' \<and>
      orders_in s' = orders_in s"
    and reused: "used k oid s \<Longrightarrow> \<exists>resp s'.
      createOrder net (newOrderClient base) k (lab_body ''cust_someone_else'') s = (Ok resp, s') \<and>
      lr_Status resp = 409 \<and> used k oid s' \<and> orders_in s' = orders_in s"
    and names: "used k oid s \<Longrightarrow> \<exists>created.
      Option.bind (decode_all (accepted_body oid)) decode_result = Some created \<and> co_OrderID created = oid"
    and lookup: "used k oid s \<Longrightarrow> \<exists>resp s'. getOrder net (newOrderClient base) oid s = (Ok resp, s') \<and>
      lr_Status resp = 200 \<and> used k oid s' \<and> orders_in s' = orders_in s"
begin

lemma waitReady_ready:
  assumes "healthy s"
  shows "\<exists>s'. waitReady net (newOrderClient base) (60 * second) s = Some (Ok (), s') \<and>
    healthy s' \<and> orders_in s' = orders_in s"
proof -
  obtain t1 s1 where 1: "nt_now net s = (t1, s1)" by force
  obtain t2 s2 where 2: "nt_now net s1 = (t2, s2)" by force
  have h: "healthy s2" "orders_in s2 = orders_in s"
    using clock_reads [OF assms 1] clock_reads [OF _ 2] by auto
  from readyz [OF h(1)] obtain path resp s3 where
    3: "nt_parse net (base @ ''/readyz'') = Inr path"
      "client_do net (client_request ''GET'' path [] []) s2 = (Ok resp, s3)" "lr_Status resp = 200"
      "healthy s3" "orders_in s3 = orders_in s2" by blast
  have minute: "sint (60 * second) = 60000000000"
    by (simp add: second_def)
  have "t2 < t1 + sint (60 * second)" using clock_soon [OF 1 2] minute by simp
  then have "waitReady_loop net (newOrderClient base) (60 * second) (t1 + sint (60 * second)) s1 = Some (Ok (), s3)"
    using 2 3(1-3) by (subst waitReady_loop.simps) (simp add: newOrderClient_def)
  with 1 3(4,5) h(2) show ?thesis by (auto simp: waitReady_def)
qed

lemma duplicate_steps_pass:
  assumes "unused k s"
  shows "\<exists>oid s'. duplicate_steps net (newOrderClient base) k s =
      (Ok (''one order created: '' @ oid @ [CHR 0x0A]), s') \<and>
    used k oid s' \<and> orders_in s' = Suc (orders_in s)"
proof -
  obtain r1 oid s1 where 1: "createOrder net (newOrderClient base) k (lab_body ''cust_lab'') s = (Ok r1, s1)"
    "lr_Status r1 = 202" "lr_Body r1 = accepted_body oid" "used k oid s1" "orders_in s1 = Suc (orders_in s)"
    using create [OF assms] by blast
  obtain r2 s2 where 2: "createOrder net (newOrderClient base) k (lab_body ''cust_lab'') s1 = (Ok r2, s2)"
    "lr_Status r2 = 202" "lr_Body r2 = accepted_body oid"
    "header_get (lr_Header r2) ''Idempotent-Replay'' = ''true''" "used k oid s2" "orders_in s2 = orders_in s1"
    using replay [OF 1(4)] by blast
  obtain r3 s3 where 3: "createOrder net (newOrderClient base) k (lab_body ''cust_someone_else'') s2 = (Ok r3, s3)"
    "lr_Status r3 = 409" "used k oid s3" "orders_in s3 = orders_in s2"
    using reused [OF 2(5)] by blast
  obtain created where c: "Option.bind (decode_all (accepted_body oid)) decode_result = Some created"
    "co_OrderID created = oid"
    using names [OF 3(3)] by blast
  obtain r4 s4 where 4: "getOrder net (newOrderClient base) oid s3 = (Ok r4, s4)"
    "lr_Status r4 = 200" "used k oid s4" "orders_in s4 = orders_in s3"
    using lookup [OF 3(3)] by blast
  from 1 2 3 4 c show ?thesis by (auto simp: duplicate_steps_def)
qed

lemma scenario_passes:
  assumes "healthy s" and "ev_orderBaseURL lab = base"
  shows "\<exists>oid k s'. runDuplicateOrder net lab s =
      Some (Ok (''one order created: '' @ oid @ [CHR 0x0A]), s') \<and>
    used k oid s' \<and> orders_in s' = Suc (orders_in s)"
proof -
  from waitReady_ready [OF assms(1)] obtain s1 where
    1: "waitReady net (newOrderClient base) (60 * second) s = Some (Ok (), s1)" "healthy s1"
      "orders_in s1 = orders_in s" by blast
  obtain t s2 where t: "nt_now net s1 = (t, s2)" by force
  from clock_reads [OF 1(2) t] have "unused (lab_key t) s2" "orders_in s2 = orders_in s" using 1(3) by auto
  with duplicate_steps_pass [OF this(1)] 1(1) t assms(2) show ?thesis
    by (auto simp: runDuplicateOrder_def lab_key_def)
qed

text \<open>From the command line.\<close>

lemma labctl_passes:
  assumes "healthy s" and "envOr environ ''LABCTL_ORDER_URL'' ''http://localhost:8080'' = base"
  shows "\<exists>fin s'. labctl_main printable net (scenarios net) environ argv0 [''scenario'', ''duplicate-order''] s =
      Some (fin, s') \<and> fn_status fin = 0 \<and> fn_stderr fin = [] \<and> orders_in s' = Suc (orders_in s)"
proof -
  let ?lab = "\<lparr>ev_orderBaseURL = base, ev_jaegerURL = envOr environ ''LABCTL_JAEGER_URL'' ''http://localhost:16686''\<rparr>"
  obtain t s0 where t: "nt_now net s = (t, s0)" by force
  have h: "healthy s0" "orders_in s0 = orders_in s" using clock_reads [OF assms(1) t] by auto
  obtain oid k s1 where 1: "runDuplicateOrder net ?lab s0 =
      Some (Ok (''one order created: '' @ oid @ [CHR 0x0A]), s1)" "used k oid s1" "orders_in s1 = Suc (orders_in s0)"
    using scenario_passes [OF h(1), of ?lab] by auto
  obtain t' s2 where t': "nt_now net s1 = (t', s2)" by force
  have "orders_in s2 = Suc (orders_in s)" using clock_used [OF 1(2) t'] 1(3) h(2) by simp
  with t 1(1) t' assms(2) show ?thesis
    by (auto simp: labctl_main_def lab_flags_def string_flag_def flag_value_def runScenario_def
        scenarios_def register_def duplicate_order_def)
qed

end

end
