(* ===== verification/Lab_Run.thy ===== *)
theory Lab_Run
  imports Labctl
begin

text \<open>
  The command line client against the order service: the network of \<open>Labctl\<close> leads to \<open>serve\<close> on the
  model of the whole service, which therefore keeps the contract \<open>order_api\<close>, and the scenario passes.
\<close>

section \<open>The order service behind the client\<close>

text \<open>
  A network that leads to the service: it resolves the paths of the API below the base URL, every
  request is answered by \<open>serve\<close> on the world \<open>wd\<close> of the state and reading the clock takes less than
  a minute and leaves that world alone.
\<close>

definition path_char :: "char \<Rightarrow> bool" where
  "path_char c \<longleftrightarrow> is_digit c \<or> byte_in 97 122 c \<or> c \<in> set ''/-_''"

definition reaches ::
  "'s net \<Rightarrow> string \<Rightarrow> platform \<Rightarrow> handler \<Rightarrow> ('s \<Rightarrow> world) \<Rightarrow> ('s \<Rightarrow> int) \<Rightarrow> bool" where
  "reaches net base pf metrics wd clk \<longleftrightarrow>
    (\<forall>p. list_all path_char p \<longrightarrow> nt_parse net (base @ p) = Inr p) \<and>
    (\<forall>r s resp w'. serve (order_service pf metrics) r (wd s) = (Some resp, w') \<longrightarrow>
       (\<exists>s'. nt_do net r s = (Inr (resp, None), s') \<and> wd s' = w' \<and> clk s \<le> clk s')) \<and>
    (\<forall>s t s'. nt_now net s = (t, s') \<longrightarrow>
       wd s' = wd s \<and> clk s' = t \<and> clk s \<le> t \<and> t < clk s + 60000000000)"

lemma reaches_parse: "reaches net base pf metrics wd clk \<Longrightarrow> list_all path_char p \<Longrightarrow> nt_parse net (base @ p) = Inr p"
  by (simp add: reaches_def)

lemma reaches_now:
  "reaches net base pf metrics wd clk \<Longrightarrow> nt_now net s = (t, s') \<Longrightarrow>
     wd s' = wd s \<and> clk s' = t \<and> clk s \<le> t \<and> t < clk s + 60000000000"
  by (simp add: reaches_def)

lemma reaches_do:
  assumes "reaches net base pf metrics wd clk"
    and "serve (order_service pf metrics) r (wd s) = (Some resp, w')"
  obtains s' where "client_do net r s =
      (Ok \<lparr>lr_Status = rs_status resp, lr_Body = rs_body resp, lr_Header = rs_header resp\<rparr>, s')"
    and "wd s' = w'" and "clk s \<le> clk s'"
  using assms unfolding reaches_def client_do_def by fastforce

text \<open>The two bodies of the scenario as the service reads them.\<close>

definition lab_payload :: "string \<Rightarrow> string" where
  "lab_payload customer = (case json_Marshal (lab_body customer) of Ok s \<Rightarrow> s | _ \<Rightarrow> [])"

definition lab_command :: create_command where
  "lab_command = \<lparr>cc_customer_id = ''cust_lab'', cc_payment_method_id = ''pm_ok'',
     cc_items = [\<lparr>sku = ''playstation-5'', quantity = 1, unit_price = 0\<rparr>]\<rparr>"

definition lab_items :: "item list" where
  "lab_items = [\<lparr>sku = ''playstation-5'', quantity = 1, unit_price = 150000\<rparr>]"

definition lab_hash :: "platform \<Rightarrow> string \<Rightarrow> string" where
  "lab_hash pf customer = hex_encode (pf_sha256 pf (lab_payload customer))"

text \<open>
  What the scenario needs of the platform: uuids that fit a path, the printed form of the number one,
  a \<open>jsonb\<close> that takes the event, and a digest that tells the two bodies apart.
\<close>

definition lab_platform :: "platform \<Rightarrow> bool" where
  "lab_platform pf \<longleftrightarrow>
    (\<forall>n. list_all (\<lambda>c. is_digit c \<or> byte_in 97 122 c \<or> c = CHR ''-'') (pf_uuid pf n)) \<and>
    pf_float pf ''1'' = Some ''1'' \<and>
    (\<forall>n. pf_jsonb pf (encode (payload_json (pending_order (''ord_'' @ pf_uuid pf n) lab_command ''NGN'' lab_items))) \<noteq> None) \<and>
    lab_hash pf ''cust_lab'' \<noteq> lab_hash pf ''cust_someone_else''"

lemma lab_payload_facts:
  "json_Marshal (lab_body customer) = Ok (lab_payload customer)"
  "take maxBodyBytes (lab_payload ''cust_lab'') = lab_payload ''cust_lab''"
  "take maxBodyBytes (lab_payload ''cust_someone_else'') = lab_payload ''cust_someone_else''"
proof -
  show "json_Marshal (lab_body customer) = Ok (lab_payload customer)"
    by (simp add: lab_payload_def lab_body_def)
  have "length (lab_payload ''cust_lab'') < 200" "length (lab_payload ''cust_someone_else'') < 200"
    by code_simp+
  then show "take maxBodyBytes (lab_payload ''cust_lab'') = lab_payload ''cust_lab''"
    "take maxBodyBytes (lab_payload ''cust_someone_else'') = lab_payload ''cust_someone_else''"
    by (simp_all add: maxBodyBytes_def)
qed

lemma lab_payload_decodes:
  "map_option command_of (Option.bind (decode_first (lab_payload ''cust_lab'')) decode_request) = Some lab_command"
  by code_simp

lemma lab_command_valid:
  "Validate (cc_customer_id lab_command) (cc_payment_method_id lab_command) (cc_items lab_command) = None"
  "price_items (UnitPrice NewStatic) (cc_items lab_command) = Ok lab_items"
  "distinct (map sku (cc_items lab_command))"
  "list_all (\<lambda>it. sint (quantity it) < 2 ^ 31) (cc_items lab_command)"
  by code_simp+

lemma lab_Hash:
  assumes "pf_float pf ''1'' = Some ''1''" and "customer \<in> {''cust_lab'', ''cust_someone_else''}"
  shows "Hash pf (lab_payload customer) = Ok (lab_hash pf customer)"
proof -
  let ?v = "\<lambda>c. JObj [(''customer_id'', JStr c),
     (''items'', JArr [JObj [(''quantity'', JNum ''1''), (''sku'', JStr ''playstation-5'')]]),
     (''payment_method_id'', JStr ''pm_ok'')]"
  have "decode_all (lab_payload ''cust_lab'') = Some (?v ''cust_lab'')"
    "decode_all (lab_payload ''cust_someone_else'') = Some (?v ''cust_someone_else'')"
    by code_simp+
  moreover have "canonical (pf_float pf) (?v c) = Some (?v c)" for c
    using assms(1) by (simp add: byte_val_def)
  moreover have "encode (?v c) = lab_payload c" for c
    by (simp add: lab_payload_def lab_body_def)
  ultimately show ?thesis using assms(2) by (auto simp: Hash_def lab_hash_def)
qed

text \<open>The states of the contract.\<close>

definition steady :: "platform \<Rightarrow> world \<Rightarrow> bool" where
  "steady pf w \<longleftrightarrow> lab_platform pf \<and> calm w \<and> db_ok (db w)"

definition fresh_ids :: "platform \<Rightarrow> world \<Rightarrow> bool" where
  "fresh_ids pf w \<longleftrightarrow>
    (\<forall>n \<ge> uuids w. ''ord_'' @ pf_uuid pf n \<notin> or_id ` set (orders (db w)) \<and>
       pf_uuid pf n \<notin> ev_id ` set (outbox_events (db w)))"

definition lab_healthy :: "platform \<Rightarrow> ('s \<Rightarrow> world) \<Rightarrow> ('s \<Rightarrow> int) \<Rightarrow> 's \<Rightarrow> bool" where
  "lab_healthy pf wd clk s \<longleftrightarrow> steady pf (wd s) \<and> fresh_ids pf (wd s) \<and>
    (\<forall>t \<ge> clk s. keys (wd s) (lab_key t) = None)"

definition lab_unused :: "platform \<Rightarrow> ('s \<Rightarrow> world) \<Rightarrow> string \<Rightarrow> 's \<Rightarrow> bool" where
  "lab_unused pf wd k s \<longleftrightarrow> steady pf (wd s) \<and> fresh_ids pf (wd s) \<and> k \<noteq> [] \<and> keys (wd s) k = None"

definition lab_used :: "platform \<Rightarrow> ('s \<Rightarrow> world) \<Rightarrow> string \<Rightarrow> string \<Rightarrow> 's \<Rightarrow> bool" where
  "lab_used pf wd k oid s \<longleftrightarrow> steady pf (wd s) \<and> k \<noteq> [] \<and>
    keys (wd s) k = Some (Done (lab_hash pf ''cust_lab'') oid 202 (accepted_body oid)) \<and>
    oid \<in> or_id ` set (orders (db (wd s))) \<and> (\<exists>n. oid = ''ord_'' @ pf_uuid pf n)"

lemma lab_Hash_steady:
  "steady pf w \<Longrightarrow> customer \<in> {''cust_lab'', ''cust_someone_else''} \<Longrightarrow>
     Hash pf (lab_payload customer) = Ok (lab_hash pf customer)"
  by (auto simp: steady_def lab_platform_def intro!: lab_Hash)

lemma plain_order_id:
  assumes "lab_platform pf"
  shows "CHR ''/'' \<notin> set (''ord_'' @ pf_uuid pf n)"
    and "list_all path_char (''/orders/'' @ ''ord_'' @ pf_uuid pf n)"
    and "valid_utf8 (''ord_'' @ pf_uuid pf n)"
proof -
  have u: "list_all (\<lambda>c. is_digit c \<or> byte_in 97 122 c \<or> c = CHR ''-'') (pf_uuid pf n)"
    using assms by (simp add: lab_platform_def)
  have "c \<noteq> CHR ''/'' \<and> path_char c \<and> byte_val c < 128" if "c \<in> set (pf_uuid pf n)" for c
    using u that by (auto simp: list_all_iff path_char_def is_digit_def byte_in_def byte_val_def)
  note each = this
  then show "CHR ''/'' \<notin> set (''ord_'' @ pf_uuid pf n)" by auto
  show "list_all path_char (''/orders/'' @ ''ord_'' @ pf_uuid pf n)"
    using each by (auto simp: list_all_iff path_char_def is_digit_def byte_in_def byte_val_def)
  show "valid_utf8 (''ord_'' @ pf_uuid pf n)"
    using each by (intro valid_utf8_ascii) (auto simp: list_all_iff byte_val_def)
qed

lemma lab_request_facts:
  assumes "r = client_request ''POST'' ''/orders''
      (header_set (header_set [] ''Content-Type'' ''application/json'') ''Idempotency-Key'' k) (lab_payload customer)"
    and "customer \<in> {''cust_lab'', ''cust_someone_else''}"
  shows "rq_method r = ''POST''" and "rq_path r = ''/orders''" and "header_get (rq_header r) headerName = k"
    and "read_body r = Some (lab_payload customer)"
  using assms lab_payload_facts by (auto simp: client_request_def headerName_def read_body_def)

lemma createOrder_request:
  assumes "reaches net base pf metrics wd clk"
  shows "createOrder net (newOrderClient base) k (lab_body customer) s =
    client_do net (client_request ''POST'' ''/orders''
      (header_set (header_set [] ''Content-Type'' ''application/json'') ''Idempotency-Key'' k) (lab_payload customer)) s"
proof -
  have "nt_parse net (base @ ''/orders'') = Inr ''/orders''"
    by (rule reaches_parse [OF assms]) code_simp
  then show ?thesis
    by (simp add: createOrder_def lab_payload_facts(1) newOrderClient_def)
qed

lemma lab_creates:
  assumes "reaches net base pf metrics wd clk" and "lab_unused pf wd k s"
  shows "\<exists>resp oid s'. createOrder net (newOrderClient base) k (lab_body ''cust_lab'') s = (Ok resp, s') \<and>
    lr_Status resp = 202 \<and> lr_Body resp = accepted_body oid \<and> lab_used pf wd k oid s' \<and>
    length (orders (db (wd s'))) = Suc (length (orders (db (wd s))))"
proof -
  let ?w = "wd s"
  define r where "r = client_request ''POST'' ''/orders''
      (header_set (header_set [] ''Content-Type'' ''application/json'') ''Idempotency-Key'' k) (lab_payload ''cust_lab'')"
  note facts = lab_request_facts [OF r_def, simplified]
  have st: "steady pf ?w" "fresh_ids pf ?w" "k \<noteq> []" "keys ?w k = None"
    using assms(2) by (auto simp: lab_unused_def)
  then have w: "calm ?w" "db_ok (db ?w)" "lab_platform pf" by (auto simp: steady_def)
  have hash: "Hash pf (lab_payload ''cust_lab'') = Ok (lab_hash pf ''cust_lab'')"
    by (rule lab_Hash_steady [OF st(1)]) simp
  obtain q where q: "request_of_body (r\<lparr>rq_body := lab_payload ''cust_lab'', rq_body_fails := None\<rparr>) = Some q"
      "lab_command = command_of q"
    using lab_payload_decodes by (auto simp: request_of_body_def bind_eq_Some_conv)
  let ?n = "uuids (front_world r ?w)"
  have "uuids ?w \<le> ?n" by (simp add: front_world_def)
  then have new: "''ord_'' @ pf_uuid pf ?n \<notin> or_id ` set (orders (db ?w))"
    "pf_uuid pf (Suc ?n) \<notin> ev_id ` set (outbox_events (db ?w))"
    using st(2) by (auto simp: fresh_ids_def)
  have jsonb: "pf_jsonb pf (encode (payload_json
      (pending_order (''ord_'' @ pf_uuid pf ?n) lab_command ''NGN'' lab_items))) \<noteq> None"
    using w(3) unfolding lab_platform_def by blast
  from order_accepted [OF facts(1,2) w(1,2) facts(3) st(3,4) facts(4) hash q lab_command_valid(1,2,3,4)
      refl refl new jsonb, of metrics]
  obtain resp w' where out: "serve (order_service pf metrics) r ?w = (Some resp, w')" "rs_status resp = 202"
    "rs_body resp = accepted_body (''ord_'' @ pf_uuid pf ?n)" "calm w'"
    "keys w' k = Some (Done (lab_hash pf ''cust_lab'') (''ord_'' @ pf_uuid pf ?n) 202
       (accepted_body (''ord_'' @ pf_uuid pf ?n)))"
    "''ord_'' @ pf_uuid pf ?n \<in> or_id ` set (orders (db w'))"
    "length (orders (db w')) = Suc (length (orders (db ?w)))" "db_ok (db w')"
    by blast
  from reaches_do [OF assms(1) out(1)] obtain s' where
    s': "client_do net r s = (Ok \<lparr>lr_Status = rs_status resp, lr_Body = rs_body resp, lr_Header = rs_header resp\<rparr>, s')"
      "wd s' = w'" by blast
  have "lab_used pf wd k (''ord_'' @ pf_uuid pf ?n) s'"
    using out(4-6,8) s'(2) st(3) w(3) unfolding lab_used_def steady_def by blast
  with s' out(2,3,7) createOrder_request [OF assms(1), of k "''cust_lab''" s] show ?thesis
    unfolding r_def [symmetric] by auto
qed

lemma lab_replays:
  assumes "reaches net base pf metrics wd clk" and "lab_used pf wd k oid s"
  shows "\<exists>resp s'. createOrder net (newOrderClient base) k (lab_body ''cust_lab'') s = (Ok resp, s') \<and>
      lr_Status resp = 202 \<and> lr_Body resp = accepted_body oid \<and>
      header_get (lr_Header resp) ''Idempotent-Replay'' = ''true'' \<and> lab_used pf wd k oid s' \<and>
      length (orders (db (wd s'))) = length (orders (db (wd s)))"
    and "\<exists>resp s'. createOrder net (newOrderClient base) k (lab_body ''cust_someone_else'') s = (Ok resp, s') \<and>
      lr_Status resp = 409 \<and> lab_used pf wd k oid s' \<and>
      length (orders (db (wd s'))) = length (orders (db (wd s)))"
proof -
  let ?w = "wd s"
  let ?r = "\<lambda>customer. client_request ''POST'' ''/orders''
      (header_set (header_set [] ''Content-Type'' ''application/json'') ''Idempotency-Key'' k) (lab_payload customer)"
  note used = assms(2) [unfolded lab_used_def steady_def]
  have st: "steady pf ?w" using assms(2) by (simp add: lab_used_def)
  have differ: "lab_hash pf ''cust_someone_else'' \<noteq> lab_hash pf ''cust_lab''"
    using used by (auto simp: lab_platform_def)
  have keep: "lab_used pf wd k oid s'" if "db (wd s') = db ?w" "calm (wd s')" for s'
    using assms(2) that by (simp add: lab_used_def steady_def)
  have "\<exists>resp w'. serve (order_service pf metrics) (?r ''cust_lab'') ?w = (Some resp, w') \<and> rs_status resp = 202 \<and>
      rs_body resp = accepted_body oid \<and> header_get (rs_header resp) ''Idempotent-Replay'' = ''true'' \<and>
      db w' = db ?w \<and> calm w'"
    by (rule replay_served [OF lab_request_facts(1,2) [OF refl] _ lab_request_facts(3) [OF refl] _
          lab_request_facts(4) [OF refl] lab_Hash_steady [OF st]]) (use used in auto)
  then obtain resp w' where 1: "serve (order_service pf metrics) (?r ''cust_lab'') ?w = (Some resp, w')"
    "rs_status resp = 202" "rs_body resp = accepted_body oid"
    "header_get (rs_header resp) ''Idempotent-Replay'' = ''true''" "db w' = db ?w" "calm w'" by blast
  from reaches_do [OF assms(1) 1(1)] 1(2-6) keep
  show "\<exists>resp s'. createOrder net (newOrderClient base) k (lab_body ''cust_lab'') s = (Ok resp, s') \<and>
      lr_Status resp = 202 \<and> lr_Body resp = accepted_body oid \<and>
      header_get (lr_Header resp) ''Idempotent-Replay'' = ''true'' \<and> lab_used pf wd k oid s' \<and>
      length (orders (db (wd s'))) = length (orders (db (wd s)))"
    unfolding createOrder_request [OF assms(1)] by (metis client_response.select_convs)
  have "\<exists>resp w'. serve (order_service pf metrics) (?r ''cust_someone_else'') ?w = (Some resp, w') \<and>
      rs_status resp = 409 \<and> db w' = db ?w \<and> calm w'"
    by (rule conflict_served [OF lab_request_facts(1,2) [OF refl] _ lab_request_facts(3) [OF refl] _
          lab_request_facts(4) [OF refl] lab_Hash_steady [OF st] differ]) (use used in auto)
  then obtain resp' w'' where 2: "serve (order_service pf metrics) (?r ''cust_someone_else'') ?w = (Some resp', w'')"
    "rs_status resp' = 409" "db w'' = db ?w" "calm w''" by blast
  from reaches_do [OF assms(1) 2(1)] 2(2-4) keep
  show "\<exists>resp s'. createOrder net (newOrderClient base) k (lab_body ''cust_someone_else'') s = (Ok resp, s') \<and>
      lr_Status resp = 409 \<and> lab_used pf wd k oid s' \<and>
      length (orders (db (wd s'))) = length (orders (db (wd s)))"
    unfolding createOrder_request [OF assms(1)] by (metis client_response.select_convs(1))
qed

lemma result_named:
  assumes "valid_utf8 oid"
  shows "\<exists>created. Option.bind (decode_all (accepted_body oid)) decode_result = Some created \<and> co_OrderID created = oid"
proof -
  let ?v = "result_json \<lparr>cr_order_id = oid, cr_status = ''pending''\<rparr>"
  have "encodable ?v" by (simp add: encodable_def result_json_def max_nesting_def)
  moreover have "repaired ?v = ?v"
  proof -
    have "to_valid ''order_id'' = ''order_id''" "to_valid ''status'' = ''status''"
      "to_valid ''pending'' = ''pending''" by code_simp+
    with to_valid_id [OF assms] show ?thesis by (simp add: result_json_def del: to_valid.simps)
  qed
  ultimately have "decode_all (accepted_body oid) = Some ?v"
    using decode_encode(1) [of ?v] by (simp add: accepted_body_def)
  then show ?thesis by (simp add: result_json_def decode_result_member_def field_of_def)
qed

lemma lab_looks_up:
  assumes "reaches net base pf metrics wd clk" and "lab_used pf wd k oid s"
  shows "\<exists>resp s'. getOrder net (newOrderClient base) oid s = (Ok resp, s') \<and>
    lr_Status resp = 200 \<and> lab_used pf wd k oid s' \<and>
    length (orders (db (wd s'))) = length (orders (db (wd s)))"
proof -
  let ?w = "wd s" and ?r = "client_request ''GET'' (''/orders/'' @ oid) [] []"
  note used = assms(2) [unfolded lab_used_def steady_def]
  obtain n where oid: "oid = ''ord_'' @ pf_uuid pf n" using used by blast
  from plain_order_id(1,2) [of pf n] used have plain: "CHR ''/'' \<notin> set oid" "list_all path_char (''/orders/'' @ oid)"
    unfolding oid by blast+
  have path: "nt_parse net (base @ ''/orders/'' @ oid) = Inr (''/orders/'' @ oid)"
    by (rule reaches_parse [OF assms(1) plain(2)])
  have "oid \<noteq> []" using oid by simp
  from serve_GET_order [of ?r oid ?w pf metrics, OF _ _ this plain(1)] used obtain resp w' where
    1: "serve (order_service pf metrics) ?r ?w = (Some resp, w')" "db w' = db ?w" "calm w'"
      "find_row or_id oid (orders (db ?w)) \<noteq> None \<Longrightarrow> rs_status resp = 200"
    by (fastforce simp: client_request_def calm_def split: option.splits)
  have "find_row or_id oid (orders (db ?w)) \<noteq> None" using used by (simp add: find_row_None_iff)
  with 1 have ok: "rs_status resp = 200" by blast
  from reaches_do [OF assms(1) 1(1)] obtain s' where s': "client_do net ?r s =
      (Ok \<lparr>lr_Status = rs_status resp, lr_Body = rs_body resp, lr_Header = rs_header resp\<rparr>, s')" "wd s' = w'" .
  have "lab_used pf wd k oid s'"
    using assms(2) s'(2) 1(2,3) by (simp add: lab_used_def steady_def)
  with s' ok 1(2) path show ?thesis by (auto simp: getOrder_def newOrderClient_def)
qed

lemma lab_probes:
  assumes "reaches net base pf metrics wd clk" and "lab_healthy pf wd clk s"
  shows "\<exists>path resp s'. nt_parse net (base @ ''/readyz'') = Inr path \<and>
    client_do net (client_request ''GET'' path [] []) s = (Ok resp, s') \<and> lr_Status resp = 200 \<and>
    lab_healthy pf wd clk s' \<and> length (orders (db (wd s'))) = length (orders (db (wd s)))"
proof -
  let ?w = "wd s" and ?r = "client_request ''GET'' ''/readyz'' [] []"
  note healthy = assms(2) [unfolded lab_healthy_def steady_def]
  have path: "nt_parse net (base @ ''/readyz'') = Inr ''/readyz''"
    by (rule reaches_parse [OF assms(1)]) code_simp
  obtain resp w' where 1: "serve (order_service pf metrics) ?r ?w = (Some resp, w')" "rs_status resp = 200"
      "db w' = db ?w" "calm w'" "uuids ?w \<le> uuids w'"
    using readyz_served [of ?r ?w pf metrics] healthy by (auto simp: client_request_def)
  from reaches_do [OF assms(1) 1(1)] obtain s' where s': "client_do net ?r s =
      (Ok \<lparr>lr_Status = rs_status resp, lr_Body = rs_body resp, lr_Header = rs_header resp\<rparr>, s')"
      "wd s' = w'" "clk s \<le> clk s'" .
  have "lab_healthy pf wd clk s'"
    using healthy s'(2,3) 1(3-5) by (auto simp: lab_healthy_def steady_def fresh_ids_def)
  with path s' 1(2,3) show ?thesis by auto
qed

lemma service_order_api:
  assumes "reaches net base pf metrics wd clk"
  shows "order_api net base (lab_healthy pf wd clk) (lab_unused pf wd) (lab_used pf wd)
    (\<lambda>s. length (orders (db (wd s))))"
proof
  note now = reaches_now [OF assms]
  show "lab_healthy pf wd clk s' \<and> lab_unused pf wd (lab_key t) s' \<and>
      length (orders (db (wd s'))) = length (orders (db (wd s)))"
    if "lab_healthy pf wd clk s" and "nt_now net s = (t, s')" for s t s'
    using that(1) now [OF that(2)] by (auto simp: lab_healthy_def lab_unused_def lab_key_def)
  show "length (orders (db (wd s'))) = length (orders (db (wd s)))"
    if "nt_now net s = (t, s')" for s t s'
    using now [OF that] by simp
  show "t2 < t1 + 60000000000" if "nt_now net s = (t1, s1)" and "nt_now net s1 = (t2, s2)" for s t1 s1 t2 s2
    using now [OF that(1)] now [OF that(2)] by simp
  show "\<exists>created. Option.bind (decode_all (accepted_body oid)) decode_result = Some created \<and> co_OrderID created = oid"
    if "lab_used pf wd k oid s" for k oid s
    using that plain_order_id(3) by (intro result_named) (auto simp: lab_used_def steady_def)
qed (use assms in \<open>blast intro: lab_probes lab_creates lab_replays lab_looks_up\<close>)+

text \<open>The plainest such network: the client calls the service directly, and its clock advances by itself.\<close>

definition loopback :: "platform \<Rightarrow> handler \<Rightarrow> string \<Rightarrow> (world \<times> int) net" where
  "loopback pf metrics base =
    \<lparr>nt_parse = (\<lambda>url. Inr (drop (length base) url)),
     nt_do = (\<lambda>r s. case serve (order_service pf metrics) r (fst s) of
        (Some resp, w) \<Rightarrow> (Inr (resp, None), (w, snd s + 1000))
      | (None, w) \<Rightarrow> (Inl (Driver ''EOF''), (w, snd s + 1000))),
     nt_now = (\<lambda>s. (snd s + 1, (fst s, snd s + 1))),
     nt_after = (\<lambda>d s. (None, (fst s, snd s + sint d)))\<rparr>"

lemma reaches_loopback: "reaches (loopback pf metrics base) base pf metrics fst snd"
  by (auto simp: reaches_def loopback_def)

interpretation lab: order_api "loopback pf metrics base" base "lab_healthy pf fst snd" "lab_unused pf fst"
  "lab_used pf fst" "\<lambda>s. length (orders (db (fst s)))" for pf metrics base
  by (rule service_order_api [OF reaches_loopback])

text \<open>C19: the demonstration succeeds against the service it demonstrates.  When the base URL leads to an
  order service without faults whose database has no key of this or a later time, \<open>labctl scenario
  duplicate-order\<close> exits with status 0 and an empty standard error: the probe is answered, the order
  accepted, its retry replayed byte for byte with the mark, the other body refused with 409, and the
  order named in the first answer read back.  The service has exactly one order more than before.\<close>

theorem scenario_passes_against_the_service:
  assumes "reaches net base pf metrics wd clk" and "lab_healthy pf wd clk s"
    and "envOr environ ''LABCTL_ORDER_URL'' ''http://localhost:8080'' = base"
  shows "\<exists>fin s'. labctl_main printable net (scenarios net) environ argv0 [''scenario'', ''duplicate-order''] s =
      Some (fin, s') \<and> fn_status fin = 0 \<and> fn_stderr fin = [] \<and>
    length (orders (db (wd s'))) = Suc (length (orders (db (wd s))))"
  by (rule order_api.labctl_passes [OF service_order_api [OF assms(1)] assms(2,3)])

lemma show_digits_plain: "0 \<le> n \<Longrightarrow> c \<in> set (show_digits n) \<Longrightarrow> is_digit c"
  using show_digits_digits [of n] by (auto simp: list_all_iff)

lemma sample_lab_platform: "lab_platform sample_platform"
proof -
  have "list_all (\<lambda>c. is_digit c \<or> byte_in 97 122 c \<or> c = CHR ''-'') (pf_uuid sample_platform n)" for n
    using show_digits_plain [of "int n"]
    by (auto simp: sample_platform_def show_nat_def list_all_iff byte_in_def byte_val_def)
  moreover have "lab_hash sample_platform ''cust_lab'' \<noteq> lab_hash sample_platform ''cust_someone_else''"
    by code_simp
  ultimately show ?thesis by (simp add: lab_platform_def sample_platform_def)
qed

lemma sample_lab_healthy: "lab_healthy sample_platform fst snd (sample_world, 0)"
  using sample_lab_platform sample_db_ok
  by (simp add: lab_healthy_def steady_def fresh_ids_def calm_def)
     (simp add: sample_world_def empty_db_def key_store_of_def)

theorem scenario_passes_against_the_service_witness:
  "\<exists>fin s'. labctl_main (\<lambda>_. False) (loopback sample_platform Health ''http://localhost:8080'')
      (scenarios (loopback sample_platform Health ''http://localhost:8080'')) Map.empty ''labctl''
      [''scenario'', ''duplicate-order''] (sample_world, 0) = Some (fin, s') \<and> fn_status fin = 0 \<and>
    length (orders (db (fst s'))) = 1"
  using scenario_passes_against_the_service [OF reaches_loopback sample_lab_healthy,
      of Map.empty "''http://localhost:8080''" "\<lambda>_. False" Health "''labctl''"]
  by (auto simp: envOr_def sample_world_def empty_db_def)

end
