(* ===== verification/Spec2Isabelle.thy ===== *)
theory Spec2Isabelle
  imports Request_Paths Postgres_Testing Lab_Run
begin

text \<open>
  A model of the order service of go-resilient-commerce-lab and the theorems that make it correct.

  \<^bold>\<open>The program.\<close>  One binary, \<open>cmd/order\<close>, serves \<open>POST /orders\<close> and \<open>GET /orders/{id}\<close> over a Postgres
  database and publishes the events of a transactional outbox.  A request passes the middleware of
  \<open>internal/httpx\<close> (request id, access log, recovery), then for \<open>POST\<close> the idempotency middleware
  of \<open>internal/idempotency\<close>, which claims the key of the request in the database, then the handler
  of \<open>services/order/adapter/http\<close>, the use case of \<open>services/order/app\<close> with the rules of
  \<open>services/order/domain\<close>, and the store of \<open>services/order/adapter/postgres\<close>, which writes the order,
  its items, its event and the completion of its key in one transaction of \<open>internal/postgres\<close>.
  A publisher of \<open>internal/outbox\<close> reads the events back and hands them to a sink.

  \<^bold>\<open>Theories.\<close>
  \<^item> \<open>Prelude\<close>: Go's errors (\<open>fmt.Errorf\<close>, \<open>errors.Is\<close>), results that may also panic (\<open>go\<close>), decimal
    printing, and tables as lists of rows.
  \<^item> \<open>Domain\<close> (\<open>services/order/domain\<close>): statuses and their legal transitions, \<open>TransitionTo\<close>,
    \<open>Total\<close> on 64-bit words, \<open>Validate\<close>.
  \<^item> \<open>Json\<close> (what the program uses of \<open>encoding/json\<close>): values, the encoder byte by byte with its
    escapes, the parser with its nesting limit.  \<open>Json_Text\<close>: the parser reads back what the encoder
    writes, strings repaired to UTF-8.
  \<^item> \<open>Duration\<close> (what the program uses of \<open>time.Duration\<close>): \<open>String\<close> and \<open>ParseDuration\<close> with its
    64-bit overflow checks and its rounding of fractions to a \<open>float64\<close>, and that the second reads
    back the first.
  \<^item> \<open>Database\<close> (\<open>services/order/migrations\<close>, \<open>internal/postgres/tx.go\<close>): the four tables with their
    keys and checks (\<open>db_ok\<close>), the world a request runs in, the driver and its faults, \<open>with_tx\<close>.
  \<^item> \<open>Httpx\<close> (\<open>internal/httpx\<close>): the response writer with the wrappers around it, \<open>WriteJSON\<close>,
    \<open>WriteError\<close>, the middleware, the probes, \<open>NewServer\<close>, and \<open>serve\<close>, what a client sees.
  \<^item> \<open>Idempotency\<close> (\<open>internal/idempotency/hash.go\<close>, \<open>store.go\<close>): \<open>Hash\<close>, \<open>Claim\<close>, \<open>Release\<close>,
    \<open>Complete\<close>, and the abstract key store they implement.
  \<^item> \<open>Idem_Middleware\<close> (\<open>internal/idempotency/middleware.go\<close>): \<open>Require\<close>.
  \<^item> \<open>Outbox\<close> (\<open>internal/outbox\<close>): \<open>NewEvent\<close>, \<open>Append\<close>, \<open>drainBatch\<close> and its parts, \<open>Run\<close>,
    \<open>LogSink\<close>.  \<open>Publisher_Race\<close>: any number of publishers on one table, statement by statement
    (\<open>fleet_step\<close>).
  \<^item> \<open>Pricing\<close>, \<open>Order_Store\<close>, \<open>Create_Order\<close>, \<open>Order_Http\<close> (\<open>services/order\<close>): the price table, the
    Postgres store, the use cases and the handlers with the decoding of the request.
  \<^item> \<open>Order_Service\<close> (\<open>cmd/order/main.go\<close>): the routes, the whole service, the atomic steps it takes
    the database through, and that a good order is accepted.  \<open>Order_Read\<close>:
    \<open>GET /orders/{id}\<close> from the rows to the bytes and back.  \<open>Order_Writes\<close>: the statements of \<open>CreateOrder\<close>, and
    \<open>Concurrent_System\<close>: all statements of all requests and publishers interleaved (\<open>system_step\<close>).
    \<open>Claim_Race\<close>: any number of requests for one key, statement by statement (\<open>race_step\<close>).
    \<open>Concurrent_Requests\<close>: whole requests and their answers interleaved on that system (\<open>service_step\<close>), and
    \<open>Request_Paths\<close>: every run of the program is a path of it, and what concurrent clients are promised.
  \<^item> \<open>Config\<close> (\<open>internal/config\<close>): \<open>Load\<close> over an environment.  \<open>Logger\<close> (\<open>internal/logger\<close>): slog's JSON
    handler and the handler that adds the ids of the span.
  \<^item> \<open>Lifecycle\<close> (\<open>cmd/order/main.go\<close>, \<open>internal/otelx\<close>, \<open>internal/postgres/pool.go\<close> and \<open>migrate.go\<close>,
    \<open>Server.Run\<close> of \<open>internal/httpx/server.go\<close>): start-up, serving, shutdown and the deferred calls, on a
    \<open>process\<close> that records what was opened, pinged, closed, installed and logged.  \<open>Client_Trace\<close>: what a 202
    means, what a retry gets, and the answers all clients get over any lives of the process.  \<open>Postgres_Testing\<close> (\<open>internal/postgres/testing.go\<close>): the helper
    that starts a container for a test, and its clean-ups.
  \<^item> \<open>Labctl\<close> (\<open>cmd/labctl\<close>): the client, its scenario and its command line over a network and a clock,
    and \<open>Lab_Run\<close>: the client against the model of the service.

  \<^bold>\<open>Interfaces.\<close>  Each is a locale, interpreted on the program's own definitions: \<open>pricer\<close> and
  \<open>order_store\<close> are the ports of \<open>services/order/app/ports.go\<close> and \<open>create_order\<close> joins them for the
  use case; \<open>claim_store\<close> is what \<open>Require\<close> needs of the key store; \<open>sink\<close> is the outbox's \<open>Sink\<close>;
  \<open>http_handler\<close> is what a handler may do to the writer it is given; \<open>order_api\<close> is what the scenario
  of \<open>labctl\<close> expects of the service, discharged by the whole service behind a network that leads to it.

  \<^bold>\<open>State and faults.\<close>  A \<open>world\<close> holds the database, the client's cancellation, the clock, the
  source of uuids, the log, and a script of faults.  Every call of the driver consumes one element
  of the script: it works, is refused, loses its answer after it ran, panics, or finds the client
  gone.  A theorem about any world is a theorem about every placement of these faults; the refusal
  also stands for what Postgres may reject for reasons the tables here do not show (text with a
  zero byte, serialization).  When the script has run out, calls work.

  \<^bold>\<open>What the theorems show.\<close>  Data: totals, status transitions, validation, hashing.  Each store
  operation against its contract under every fault: \<open>Claim\<close>, \<open>Release\<close> and \<open>Complete\<close> refine the
  abstract key store; \<open>CreateOrder\<close> is all or nothing and reads back; a drain moves exactly its
  batch.  Composition: every request and every drain moves the database only by the atomic steps
  of \<open>db_step\<close>; along any interleaving of such steps orders, completed keys and events stay in
  one-to-one correspondence and a completed key never changes; so a 202 names a stored order or says that
  one is being worked on, a client that retries an accepted order gets the first answer, or a 500 when a
  fault strikes the retry, all acceptances under a key are the same bytes for one order, and nothing is created twice.
  Concurrent transactions change the database as if they ran one after the other, at their commits, and an
  event is delivered again only after a rollback.  Requests that run at the same time are told of one order
  per key, whose event the publishers account for.  Liveness without faults: a good order is accepted,
  every waiting event is published and delivered once, the client's polling ends and its scenario passes.  The process: it gives back
  all it opened on every path, migrates only a database that answered the ping and listens only after that, its exit status follows from the first call that failed, and whatever
  happens to it the database keeps its invariant.

  \<^bold>\<open>Bounds.\<close>  Machine integers are 64-bit words; columns of type \<open>integer\<close> refuse values outside 32
  bits.  The parser of \<open>Json\<close> recurses on the nesting depth, at most 10000 as in the library, and on
  a fuel equal to the length of the text, of which each recursive call consumes at least a byte.  The
  loop of \<open>waitReady\<close> has no bound but the clock and is a partial function.

  \<^bold>\<open>Parameters.\<close>  Code outside the repository is a field of the record \<open>platform\<close>: random uuids,
  SHA-256, the printed form of a floating point number, Postgres' interval and \<open>jsonb\<close> input, the
  collation, the JSON form of a timestamp.  \<open>/metrics\<close> is a parameter too, and so are the results of the
  OpenTelemetry, Prometheus, pgx, goose and testcontainers calls of start-up (\<open>external\<close>), how serving ends
  (\<open>serve_end\<close>), the client's network and clock (\<open>net\<close>) and Unicode's table of printable runes.

  \<^bold>\<open>Concurrency.\<close>  A request or a drain runs as one function of the world, whose script of faults it
  consumes.  That is justified by \<open>Concurrent_System\<close>, which interleaves the statements of all requests and
  publishers on one database as Postgres does at its default isolation level: a transaction sees the committed
  rows and its own, an \<open>UPDATE\<close> locks its row, an insert waits for an open insert of the same key, \<open>SKIP LOCKED\<close>
  passes by what others hold, and a commit makes the rows visible.  Every commit is then one of the atomic
  steps of \<open>db_step\<close>.  \<open>Publisher_Race\<close> holds the part of the publishers with an account of every delivery;
  \<open>Claim_Race\<close> looks at the election of one request among those for a key.  \<open>Concurrent_Requests\<close> runs whole
  requests on that system, from the claim to the answer or the release; its steps project to those of
  \<open>system_step\<close>, and every answer of the service, under any faults, comes from one of its paths.  In
  \<open>Lifecycle\<close> the two
  goroutines of the process are a sequence of requests and ticks.

  \<^bold>\<open>Not modelled.\<close>  The spans of \<open>otelhttp\<close>, the contents of the metrics, the SQL of the down migrations,
  and the migration library's bookkeeping.

  \<^bold>\<open>Simplified.\<close>  Rows are read in one piece: an error of \<open>rows.Scan\<close> or \<open>rows.Err\<close> in \<open>GetOrder\<close> or in the claim
  of a batch is the error of the query, with the query's text; the client gets the same 500, the log another
  text.  The errors of \<open>Hash\<close> carry a fixed text for the one of the \<open>encoding/json\<close> package.  A key that is not
  valid UTF-8 is refused by Postgres only where the script of faults says so.  \<open>slog.Level\<close> has the four
  levels \<open>LOG_LEVEL\<close> can name.  In \<open>serve_group\<close> the panic of a ticker with an interval that is not positive
  comes before listening, while in the source the two goroutines race; the process crashes either way.
\<close>

end
